(* ===== verification/Prelude.thy ===== *)
theory Prelude
  imports Main "HOL-Library.Word" "HOL-Library.Multiset"
begin

unbundle bit_operations_syntax

text \<open>
  Shared vocabulary of the development: the machine integers of the Rust code, the outcome of
  code that may unwind, the collections of rewrite rules the component theories fill, the vector
  operations of the standard library the code uses, and reachability in a transition system.
\<close>

subsection \<open>Machine integers\<close>

text \<open>A 64-bit target: \<open>usize\<close> is as wide as \<open>u64\<close>.\<close>

type_synonym u8 = "8 word"
type_synonym u32 = "32 word"
type_synonym u64 = "64 word"
type_synonym usize = "64 word"

text \<open>\<open>u8::saturating_add\<close>.\<close>

definition u8_saturating_add :: "u8 \<Rightarrow> u8 \<Rightarrow> u8" where
  "u8_saturating_add a b = (if unat a + unat b < 256 then a + b else 255)"

subsection \<open>Unwinding\<close>

text \<open>
  User code (the predictor, its factory, the metrics hooks) may panic. Under
  \<open>std::panic::catch_unwind\<close> a call has one of these two outcomes.
\<close>

datatype 'a unwind = Returned 'a | Panicked

subsection \<open>Collections of rules\<close>

named_theorems duration_simps \<open>arithmetic of durations\<close>
named_theorems status_simps \<open>the packed status word read back\<close>
named_theorems buffer_simps \<open>the pairs a request buffer holds\<close>
named_theorems effect_simps \<open>what a piece of code sends out\<close>

subsection \<open>Vectors\<close>

text \<open>\<open>Vec::swap_remove\<close>: the last element takes the removed one's place, and an index out of
  range panics (\<open>None\<close>).\<close>

definition vec_swap_remove :: "nat \<Rightarrow> 'a list \<Rightarrow> 'a list option" where
  "vec_swap_remove i xs = (if i < length xs then Some (butlast (xs[i := last xs])) else None)"

lemma u8_saturating_add_one_pos: "u8_saturating_add r 1 \<noteq> 0"
proof (cases "unat r + 1 < 256")
  case True
  then have "unat (r + 1) = unat r + 1"
    by (simp add: unat_word_ariths)
  with True show ?thesis
    by (auto simp: u8_saturating_add_def)
next
  case False
  then show ?thesis
    by (simp add: u8_saturating_add_def)
qed

lemma length_vec_swap_remove:
  "vec_swap_remove i xs = Some ys \<Longrightarrow> length ys = length xs - 1"
  by (auto simp: vec_swap_remove_def split: if_splits)

lemma vec_swap_remove_in_range: "i < length xs \<Longrightarrow> vec_swap_remove i xs = Some (butlast (xs[i := last xs]))"
  by (simp add: vec_swap_remove_def)

lemma mset_butlast_swap:
  assumes "i < length xs"
  shows "add_mset (xs ! i) (mset (butlast (xs[i := last xs]))) = mset xs"
proof (cases xs rule: rev_cases)
  case Nil
  with assms show ?thesis by simp
next
  case (snoc ys y)
  show ?thesis
  proof (cases "i < length ys")
    case True
    then have "mset (ys[i := y]) = add_mset y (mset ys - {#ys ! i#})"
      by (simp add: mset_update)
    moreover from True have "ys ! i \<in># mset ys" by simp
    ultimately show ?thesis
      using True snoc by (simp add: nth_append list_update_append)
  next
    case False
    with assms snoc have "i = length ys" by simp
    with snoc show ?thesis by simp
  qed
qed

lemma distinct_mset_sub:
  assumes "mset xs \<subseteq># mset ys" and "distinct ys"
  shows "distinct xs"
  unfolding distinct_count_atmost_1
proof
  fix a
  have "count (mset xs) a \<le> count (mset ys) a" "count (mset ys) a \<le> 1"
    using mset_subset_eq_count [OF assms(1)] assms(2) by (simp_all add: distinct_count_atmost_1)
  moreover have "a \<in> set xs \<Longrightarrow> 1 \<le> count (mset xs) a"
    by (simp add: Suc_le_eq)
  moreover have "a \<notin> set xs \<Longrightarrow> count (mset xs) a = 0"
    by (simp add: count_eq_zero_iff)
  ultimately show "count (mset xs) a = (if a \<in> set xs then 1 else 0)"
    by (metis le_antisym order_trans)
qed

subsection \<open>Reachability\<close>

text \<open>The states a transition system reaches from its start states, and the rule by which an
  inductive invariant holds in all of them.\<close>

inductive reach :: "('s \<Rightarrow> bool) \<Rightarrow> ('s \<Rightarrow> 's \<Rightarrow> bool) \<Rightarrow> 's \<Rightarrow> bool"
  for start :: "'s \<Rightarrow> bool" and step :: "'s \<Rightarrow> 's \<Rightarrow> bool" where
  reach_start: "start s \<Longrightarrow> reach start step s"
| reach_step: "reach start step s \<Longrightarrow> step s t \<Longrightarrow> reach start step t"

locale invariant_system =
  fixes start :: "'s \<Rightarrow> bool" and step :: "'s \<Rightarrow> 's \<Rightarrow> bool" and inv :: "'s \<Rightarrow> bool"
  assumes inv_start: "start s \<Longrightarrow> inv s"
    and inv_step: "inv s \<Longrightarrow> step s t \<Longrightarrow> inv t"
begin

lemma reach_inv: "reach start step s \<Longrightarrow> inv s"
  by (induction rule: reach.induct) (auto intro: inv_start inv_step)

end

end
