(* ===== verification/Channels.thy ===== *)
theory Channels
  imports Prelude
begin

text \<open>
  The bounded channels between callers, accumulator and inference thread are \<open>tokio::sync::mpsc\<close>
  channels, which are not part of the repository. Their operations are a parameter of the model:
  the record \<open>mpsc\<close> holds one function per operation the code calls, and the locale
  \<open>mpsc_channel\<close> states what tokio documents of them, over the messages waiting in the channel,
  its capacity, and whether its receiver and at least one of its senders exist. The code's
  definitions take the record as an argument; lemmas about them are proved inside the locale.

  \<open>fifo_mpsc\<close> is a bounded first-in first-out channel that meets the contract. The model does not
  use it: it shows that the contract can be met, and the witnesses run the code on it.
\<close>

datatype 'm send_outcome = SendOk | SendFull 'm | SendClosed 'm

text \<open>\<open>try_recv\<close>, and one poll of \<open>recv\<close>: \<open>RecvEmpty\<close> is \<open>Err(Empty)\<close> for the former and "not ready
  yet" for the latter, \<open>RecvClosed\<close> is \<open>Err(Disconnected)\<close> and \<open>None\<close>.\<close>

datatype 'm recv_outcome = RecvMsg 'm | RecvEmpty | RecvClosed

text \<open>One poll of \<open>reserve\<close>: a permit, not ready yet, or the channel's receiver is gone.\<close>

datatype reserve_outcome = Permit | NoCapacity | ReserveClosed

record ('q, 'm) mpsc =
  mp_channel :: "nat \<Rightarrow> 'q"
  mp_try_send :: "'m \<Rightarrow> 'q \<Rightarrow> 'm send_outcome \<times> 'q"
  mp_reserve :: "'q \<Rightarrow> reserve_outcome"
  mp_permit_send :: "'m \<Rightarrow> 'q \<Rightarrow> 'm list \<times> 'q"
  mp_poll_recv :: "'q \<Rightarrow> 'm recv_outcome \<times> 'q"
  mp_len :: "'q \<Rightarrow> nat"
  mp_receiver_gone :: "'q \<Rightarrow> bool"
  mp_senders_gone :: "'q \<Rightarrow> bool"
  mp_drop_receiver :: "'q \<Rightarrow> 'm list \<times> 'q"
  mp_drop_senders :: "'q \<Rightarrow> 'q"

text \<open>
  The messages returned by \<open>mp_drop_receiver\<close>, and by \<open>mp_permit_send\<close> on a channel whose
  receiver is gone, are those that are dropped unread.
\<close>

locale mpsc_channel =
  fixes Q :: "('q, 'm) mpsc"
    and items :: "'q \<Rightarrow> 'm list"
    and cap :: "'q \<Rightarrow> nat"
    and rx :: "'q \<Rightarrow> bool"
    and tx :: "'q \<Rightarrow> bool"
  assumes channel_new: "0 < n \<Longrightarrow> items (mp_channel Q n) = [] \<and> cap (mp_channel Q n) = n
      \<and> rx (mp_channel Q n) \<and> tx (mp_channel Q n)"
    and try_send_closed: "\<not> rx q \<Longrightarrow> mp_try_send Q m q = (SendClosed m, q)"
    and try_send_full: "rx q \<Longrightarrow> cap q \<le> length (items q) \<Longrightarrow> mp_try_send Q m q = (SendFull m, q)"
    and try_send_ok: "rx q \<Longrightarrow> length (items q) < cap q \<Longrightarrow>
      \<exists>q'. mp_try_send Q m q = (SendOk, q') \<and> items q' = items q @ [m] \<and> cap q' = cap q
        \<and> rx q' \<and> tx q' = tx q"
    and reserve: "mp_reserve Q q =
      (if \<not> rx q then ReserveClosed else if length (items q) < cap q then Permit else NoCapacity)"
    and permit_send_gone: "\<not> rx q \<Longrightarrow> mp_permit_send Q m q = ([m], q)"
    and permit_send_ok: "rx q \<Longrightarrow>
      \<exists>q'. mp_permit_send Q m q = ([], q') \<and> items q' = items q @ [m] \<and> cap q' = cap q
        \<and> rx q' \<and> tx q' = tx q"
    and poll_recv_msg: "items q = m # ms \<Longrightarrow>
      \<exists>q'. mp_poll_recv Q q = (RecvMsg m, q') \<and> items q' = ms \<and> cap q' = cap q
        \<and> rx q' = rx q \<and> tx q' = tx q"
    and poll_recv_empty: "items q = [] \<Longrightarrow>
      mp_poll_recv Q q = (if tx q then RecvEmpty else RecvClosed, q)"
    and chan_len: "mp_len Q q = length (items q)"
    and receiver_gone: "mp_receiver_gone Q q \<longleftrightarrow> \<not> rx q"
    and senders_gone: "mp_senders_gone Q q \<longleftrightarrow> \<not> tx q"
    and drop_receiver: "fst (mp_drop_receiver Q q) = items q \<and> items (snd (mp_drop_receiver Q q)) = []
      \<and> cap (snd (mp_drop_receiver Q q)) = cap q \<and> \<not> rx (snd (mp_drop_receiver Q q))
      \<and> tx (snd (mp_drop_receiver Q q)) = tx q"
    and drop_senders: "items (mp_drop_senders Q q) = items q \<and> cap (mp_drop_senders Q q) = cap q
      \<and> rx (mp_drop_senders Q q) = rx q \<and> \<not> tx (mp_drop_senders Q q)"
begin

lemma try_send_cases:
  obtains (Closed) "\<not> rx q" "mp_try_send Q m q = (SendClosed m, q)"
    | (Full) "rx q" "cap q \<le> length (items q)" "mp_try_send Q m q = (SendFull m, q)"
    | (Ok) q' where "rx q" "length (items q) < cap q" "mp_try_send Q m q = (SendOk, q')"
        "items q' = items q @ [m]" "cap q' = cap q" "rx q'" "tx q' = tx q"
proof (cases "rx q")
  case False
  then show thesis using Closed try_send_closed by blast
next
  case True
  show thesis
  proof (cases "length (items q) < cap q")
    case True
    with \<open>rx q\<close> obtain q' where "mp_try_send Q m q = (SendOk, q')" "items q' = items q @ [m]"
        "cap q' = cap q" "rx q'" "tx q' = tx q"
      using try_send_ok by blast
    with \<open>rx q\<close> True show thesis by (rule Ok)
  next
    case False
    with \<open>rx q\<close> show thesis using Full try_send_full by simp
  qed
qed

lemma poll_recv_cases:
  obtains (Msg) m ms q' where "items q = m # ms" "mp_poll_recv Q q = (RecvMsg m, q')"
        "items q' = ms" "cap q' = cap q" "rx q' = rx q" "tx q' = tx q"
    | (Empty) "items q = []" "tx q" "mp_poll_recv Q q = (RecvEmpty, q)"
    | (Disconnected) "items q = []" "\<not> tx q" "mp_poll_recv Q q = (RecvClosed, q)"
proof (cases "items q")
  case Nil
  then show thesis
    using Empty Disconnected poll_recv_empty by (cases "tx q") auto
next
  case (Cons m ms)
  then obtain q' where "mp_poll_recv Q q = (RecvMsg m, q')" "items q' = ms" "cap q' = cap q"
      "rx q' = rx q" "tx q' = tx q"
    using poll_recv_msg by blast
  with Cons show thesis by (rule Msg)
qed

text \<open>A delivered message is the oldest one, and nothing else changes.\<close>

lemma poll_recv_RecvMsg:
  "mp_poll_recv Q q = (RecvMsg m, q') \<Longrightarrow>
     items q = m # items q' \<and> cap q' = cap q \<and> rx q' = rx q \<and> tx q' = tx q"
  by (cases rule: poll_recv_cases [of q]) auto

lemma poll_recv_not_msg:
  "mp_poll_recv Q q = (r, q') \<Longrightarrow> (\<forall>m. r \<noteq> RecvMsg m) \<Longrightarrow> items q = [] \<and> q' = q"
  by (cases rule: poll_recv_cases [of q]) auto

lemma poll_recv_RecvClosed:
  "mp_poll_recv Q q = (RecvClosed, q') \<Longrightarrow> items q = [] \<and> \<not> tx q \<and> q' = q"
  by (cases rule: poll_recv_cases [of q]) auto

lemma try_send_SendOk:
  "mp_try_send Q m q = (SendOk, q') \<Longrightarrow>
     rx q \<and> length (items q) < cap q \<and> items q' = items q @ [m] \<and> cap q' = cap q \<and> rx q' \<and> tx q' = tx q"
  by (cases rule: try_send_cases [of q m]) auto

lemma try_send_hands_back:
  "mp_try_send Q m q = (SendFull m', q') \<Longrightarrow> m' = m \<and> q' = q"
  "mp_try_send Q m q = (SendClosed m', q') \<Longrightarrow> m' = m \<and> q' = q"
  by (cases rule: try_send_cases [of q m]; auto)+

lemma permit_send_items:
  "mp_permit_send Q m q = (lost, q') \<Longrightarrow>
     lost @ items q' = items q @ [m] \<or> lost = [m] \<and> q' = q"
  using permit_send_gone [of q m] permit_send_ok [of q m] by (cases "rx q") auto

end

subsection \<open>A channel that meets the contract\<close>

record 'm fifo =
  ff_items :: "'m list"
  ff_cap :: nat
  ff_rx :: bool
  ff_tx :: bool

definition fifo_mpsc :: "('m fifo, 'm) mpsc" where
  "fifo_mpsc =
     \<lparr>mp_channel = (\<lambda>n. \<lparr>ff_items = [], ff_cap = n, ff_rx = True, ff_tx = True\<rparr>),
      mp_try_send = (\<lambda>m q. if \<not> ff_rx q then (SendClosed m, q)
        else if ff_cap q \<le> length (ff_items q) then (SendFull m, q)
        else (SendOk, q\<lparr>ff_items := ff_items q @ [m]\<rparr>)),
      mp_reserve = (\<lambda>q. if \<not> ff_rx q then ReserveClosed
        else if length (ff_items q) < ff_cap q then Permit else NoCapacity),
      mp_permit_send = (\<lambda>m q. if ff_rx q then ([], q\<lparr>ff_items := ff_items q @ [m]\<rparr>) else ([m], q)),
      mp_poll_recv = (\<lambda>q. case ff_items q of
          m # ms \<Rightarrow> (RecvMsg m, q\<lparr>ff_items := ms\<rparr>)
        | [] \<Rightarrow> (if ff_tx q then RecvEmpty else RecvClosed, q)),
      mp_len = (\<lambda>q. length (ff_items q)),
      mp_receiver_gone = (\<lambda>q. \<not> ff_rx q),
      mp_senders_gone = (\<lambda>q. \<not> ff_tx q),
      mp_drop_receiver = (\<lambda>q. (ff_items q, q\<lparr>ff_items := [], ff_rx := False\<rparr>)),
      mp_drop_senders = (\<lambda>q. q\<lparr>ff_tx := False\<rparr>)\<rparr>"

interpretation fifo: mpsc_channel fifo_mpsc ff_items ff_cap ff_rx ff_tx
  by unfold_locales (auto simp: fifo_mpsc_def)

end
