(* ===== verification/Durations.thy ===== *)
theory Durations
  imports Prelude
begin

text \<open>
  \<open>std::time::Duration\<close> as the code uses it: a length of time in nanoseconds, bounded by
  \<open>Duration::MAX\<close> (a 64-bit count of seconds and less than a second of nanoseconds), with the
  saturating and checked operations and its total order.
\<close>

datatype duration = Duration (as_nanos: nat)

definition DURATION_MAX :: duration where
  "DURATION_MAX = Duration ((2 ^ 64 - 1) * 1000000000 + 999999999)"

definition DURATION_ZERO :: duration where
  "DURATION_ZERO = Duration 0"

definition from_millis :: "nat \<Rightarrow> duration" where
  "from_millis ms = Duration (ms * 1000000)"

definition from_secs :: "nat \<Rightarrow> duration" where
  "from_secs s = Duration (s * 1000000000)"

instantiation duration :: linorder
begin

definition less_eq_duration :: "duration \<Rightarrow> duration \<Rightarrow> bool" where
  "less_eq_duration a b \<longleftrightarrow> as_nanos a \<le> as_nanos b"

definition less_duration :: "duration \<Rightarrow> duration \<Rightarrow> bool" where
  "less_duration a b \<longleftrightarrow> as_nanos a < as_nanos b"

instance
  by standard (auto simp: less_eq_duration_def less_duration_def duration.expand)

end

text \<open>\<open>Duration::saturating_mul\<close>, \<open>Duration::saturating_sub\<close> and \<open>Duration::checked_sub\<close>.\<close>

definition saturating_mul :: "duration \<Rightarrow> nat \<Rightarrow> duration" where
  "saturating_mul d k = min (Duration (as_nanos d * k)) DURATION_MAX"

definition saturating_sub :: "duration \<Rightarrow> duration \<Rightarrow> duration" where
  "saturating_sub a b = Duration (as_nanos a - as_nanos b)"

definition checked_sub :: "duration \<Rightarrow> duration \<Rightarrow> duration option" where
  "checked_sub a b = (if b \<le> a then Some (Duration (as_nanos a - as_nanos b)) else None)"

text \<open>The total of a list of waits, in nanoseconds.\<close>

definition total_nanos :: "duration list \<Rightarrow> nat" where
  "total_nanos ds = sum_list (map as_nanos ds)"

subsection \<open>The clock\<close>

text \<open>
  An instant is a count of nanoseconds since the clock's origin. The last instant a platform can
  represent is not fixed by the language, so it is a parameter \<open>imax\<close>; adding past it gives
  \<open>None\<close> (\<open>Instant::checked_add\<close>, and the panic of \<open>Instant + Duration\<close>).
\<close>

type_synonym instant = nat

definition instant_checked_add :: "instant \<Rightarrow> instant \<Rightarrow> duration \<Rightarrow> instant option" where
  "instant_checked_add imax now d = (if now + as_nanos d \<le> imax then Some (now + as_nanos d) else None)"

lemmas duration_order_defs = less_eq_duration_def less_duration_def

lemma as_nanos_min [duration_simps]: "as_nanos (min a b) = min (as_nanos a) (as_nanos b)"
  by (simp add: min_def duration_order_defs)

lemma as_nanos_saturating_mul [duration_simps]:
  "as_nanos (saturating_mul d k) = min (as_nanos d * k) (as_nanos DURATION_MAX)"
  by (simp add: saturating_mul_def as_nanos_min)

lemma as_nanos_consts [duration_simps]:
  "as_nanos DURATION_ZERO = 0"
  "as_nanos (from_millis m) = m * 1000000"
  "as_nanos (from_secs s) = s * 1000000000"
  by (simp_all add: DURATION_ZERO_def from_millis_def from_secs_def)

lemma duration_eq_iff: "a = b \<longleftrightarrow> as_nanos a = as_nanos b"
  using duration.expand by auto

lemma DURATION_ZERO_least [simp]: "DURATION_ZERO \<le> d"
  by (simp add: duration_order_defs duration_simps)

lemma checked_sub_Some:
  "checked_sub a b = Some c \<longleftrightarrow> b \<le> a \<and> as_nanos c = as_nanos a - as_nanos b"
  by (auto simp: checked_sub_def duration_eq_iff)

lemma checked_sub_None: "checked_sub a b = None \<longleftrightarrow> a < b"
  by (auto simp: checked_sub_def)

lemma total_nanos_simps [simp]:
  "total_nanos [] = 0" "total_nanos (d # ds) = as_nanos d + total_nanos ds"
  "total_nanos (ds @ es) = total_nanos ds + total_nanos es"
  by (simp_all add: total_nanos_def)

end
