(* ===== verification/Errors.thy ===== *)
theory Errors
  imports Prelude
begin

text \<open>
  The errors of the crate (\<open>src/error/mod.rs\<close>): \<open>BatchinfError\<close>, which the request methods
  return, and \<open>StartupError\<close>, which \<open>get_batcher\<close> returns. A \<open>Result\<close> is a sum, the error on
  the left. The shared \<open>Arc<E>\<close> of \<open>InferenceError\<close> is the error value it points to.
\<close>

datatype 'e batchinf_error =
    InferenceError 'e
  | InternalError
  | TimeoutError
  | NoAvailableWorkersError
  | QueueFullError
  | InvalidPredictorOutput

datatype 'f startup_error =
    Timeout
  | WorkerStartFailure u8 'f
  | WorkerStartPanic u8
  | StartupInternalError

text \<open>What a caller receives: the output, or the error.\<close>

type_synonym ('o, 'e) reply = "'e batchinf_error + 'o"

fun clone_error :: "'e batchinf_error \<Rightarrow> 'e batchinf_error" where
  "clone_error (InferenceError e) = (let err = e in InferenceError err)"
| "clone_error InternalError = InternalError"
| "clone_error TimeoutError = TimeoutError"
| "clone_error NoAvailableWorkersError = NoAvailableWorkersError"
| "clone_error QueueFullError = QueueFullError"
| "clone_error InvalidPredictorOutput = InvalidPredictorOutput"

text \<open>The outcome of awaiting a oneshot receiver: the value, or \<open>RecvError\<close> when the sender was
  dropped without sending. \<open>From<RecvError>\<close> turns the latter into \<open>InternalError\<close>.\<close>

datatype 'a oneshot_outcome = Received 'a | RecvError

definition from_recv_error :: "'e batchinf_error" where
  "from_recv_error = InternalError"

text \<open>\<open>rx.await?\<close> at the end of the request methods.\<close>

fun await_reply :: "('o, 'e) reply oneshot_outcome \<Rightarrow> ('o, 'e) reply" where
  "await_reply (Received r) = r"
| "await_reply RecvError = Inl from_recv_error"

lemma clone_error_id [simp]: "clone_error e = e"
  by (cases e) simp_all

end
