(* ===== verification/Observability.thy ===== *)
theory Observability
  imports Durations Errors
begin

text \<open>
  The metrics hooks (\<open>src/observability/mod.rs\<close>), and the effects the rest of the code has on
  its surroundings. A hook implementation is user code: the parameter \<open>obs\<close> is \<open>None\<close> when no
  metrics are configured and otherwise tells, for every call, whether the hook panics.

  An effect is one observable action, in program order: a hook call, a result sent to a caller, a
  result sender dropped without a result (its caller then sees \<open>RecvError\<close>), a store to one of
  the two status atomics, a wake-up of waiting callers, the creation and the drop of a predictor.
\<close>

datatype batch_trigger = Capacity | BatchTimeout

record inf_batch_metrics =
  im_size :: nat
  im_latency :: duration

datatype obs_event =
    on_batch_trigger nat batch_trigger
  | on_batch_complete_ok nat duration
  | on_batch_complete_err nat duration
  | on_request_timeout
  | on_queue_depth u8 nat
  | on_worker_panic

type_synonym metrics_hook = "(obs_event \<Rightarrow> bool) option"

datatype worker_status = Waiting | Exit | Running | Crashed

datatype predictor_status = Alive | Rebuilding | Dead

datatype ('s, 'o, 'e) effect =
    Metric obs_event
  | Reply 's "('o, 'e) reply"
  | Dropped 's
  | StoreWorker worker_status
  | StorePredictor predictor_status
  | NotifyOne
  | NotifyWaiters
  | BuiltPredictor
  | DropPredictor

text \<open>Code that emits effects and may unwind: the effects up to the end or up to the panic.\<close>

type_synonym ('s, 'o, 'e, 'a) run = "('s, 'o, 'e) effect list \<times> 'a unwind"

subsection \<open>The emitters\<close>

text \<open>A call of a configured hook; its effect is recorded whether or not it panics.\<close>

definition call_hook :: "(obs_event \<Rightarrow> bool) \<Rightarrow> obs_event \<Rightarrow> ('s, 'o, 'e, unit) run" where
  "call_hook h ev = ([Metric ev], if h ev then Panicked else Returned ())"

definition emit_batch_start :: "metrics_hook \<Rightarrow> batch_trigger \<Rightarrow> nat \<Rightarrow> ('s, 'o, 'e, unit) run" where
  "emit_batch_start obs trigger_type sz =
     (case obs of Some h \<Rightarrow> call_hook h (on_batch_trigger sz trigger_type)
      | None \<Rightarrow> ([], Returned ()))"

definition emit_inference_ok :: "metrics_hook \<Rightarrow> inf_batch_metrics \<Rightarrow> ('s, 'o, 'e, unit) run" where
  "emit_inference_ok obs metrics =
     (case obs of Some h \<Rightarrow> call_hook h (on_batch_complete_ok (im_size metrics) (im_latency metrics))
      | None \<Rightarrow> ([], Returned ()))"

definition emit_inference_err :: "metrics_hook \<Rightarrow> inf_batch_metrics \<Rightarrow> ('s, 'o, 'e, unit) run" where
  "emit_inference_err obs metrics =
     (case obs of Some h \<Rightarrow> call_hook h (on_batch_complete_err (im_size metrics) (im_latency metrics))
      | None \<Rightarrow> ([], Returned ()))"

definition emit_worker_panic :: "metrics_hook \<Rightarrow> ('s, 'o, 'e, unit) run" where
  "emit_worker_panic obs =
     (case obs of Some h \<Rightarrow> call_hook h on_worker_panic | None \<Rightarrow> ([], Returned ()))"

definition emit_queue_depth :: "metrics_hook \<Rightarrow> u8 \<Rightarrow> nat \<Rightarrow> ('s, 'o, 'e, unit) run" where
  "emit_queue_depth obs worker_id depth =
     (case obs of Some h \<Rightarrow> call_hook h (on_queue_depth worker_id depth)
      | None \<Rightarrow> ([], Returned ()))"

lemmas emit_defs = emit_batch_start_def emit_inference_ok_def emit_inference_err_def
  emit_worker_panic_def emit_queue_depth_def call_hook_def

subsection \<open>What an effect trace says\<close>

text \<open>The senders a trace settles (answers or drops), and the replies it delivers, in order.\<close>

fun settled :: "('s, 'o, 'e) effect list \<Rightarrow> 's list" where
  "settled [] = []"
| "settled (Reply s r # es) = s # settled es"
| "settled (Dropped s # es) = s # settled es"
| "settled (_ # es) = settled es"

fun replies :: "('s, 'o, 'e) effect list \<Rightarrow> ('s \<times> ('o, 'e) reply) list" where
  "replies [] = []"
| "replies (Reply s r # es) = (s, r) # replies es"
| "replies (_ # es) = replies es"

fun metrics_of :: "('s, 'o, 'e) effect list \<Rightarrow> obs_event list" where
  "metrics_of [] = []"
| "metrics_of (Metric ev # es) = ev # metrics_of es"
| "metrics_of (_ # es) = metrics_of es"

lemma settled_append [simp]: "settled (xs @ ys) = settled xs @ settled ys"
  by (induction xs rule: settled.induct) simp_all

lemma replies_append [simp]: "replies (xs @ ys) = replies xs @ replies ys"
  by (induction xs rule: replies.induct) simp_all

lemma metrics_of_append [simp]: "metrics_of (xs @ ys) = metrics_of xs @ metrics_of ys"
  by (induction xs rule: metrics_of.induct) simp_all

lemma emit_trace [effect_simps]:
  "settled (fst (emit_batch_start obs t n)) = []" "replies (fst (emit_batch_start obs t n)) = []"
  "settled (fst (emit_inference_ok obs m)) = []" "replies (fst (emit_inference_ok obs m)) = []"
  "settled (fst (emit_inference_err obs m)) = []" "replies (fst (emit_inference_err obs m)) = []"
  "settled (fst (emit_worker_panic obs)) = []" "replies (fst (emit_worker_panic obs)) = []"
  "settled (fst (emit_queue_depth obs i n)) = []" "replies (fst (emit_queue_depth obs i n)) = []"
  by (auto simp: emit_defs split: option.splits)

lemma settled_map_Reply [effect_simps]:
  "settled (map (\<lambda>s. Reply s r) ss) = ss"
  "replies (map (\<lambda>s. Reply s r) ss) = map (\<lambda>s. (s, r)) ss"
  "metrics_of (map (\<lambda>s. Reply s r) ss) = []"
  by (induction ss) simp_all

lemma settled_map_Dropped [effect_simps]:
  "settled (map Dropped ss) = ss" "replies (map Dropped ss) = []" "metrics_of (map Dropped ss) = []"
  by (induction ss) simp_all

end
