(* ===== verification/Config.thy ===== *)
theory Config
  imports Durations Observability
begin

text \<open>
  Configuration (\<open>src/config/mod.rs\<close>): \<open>BatcherConfig\<close>, its builder with one setter per option,
  and \<open>InnerConfig\<close>, the part every worker keeps. \<open>NonZeroU32\<close> and \<open>NonZeroU8\<close> fields are words;
  \<open>config_wf\<close> and \<open>builder_wf\<close> say that they are not zero, which the types guarantee in Rust.
\<close>

record batcher_config =
  batch_timeout :: duration
  batch_size :: u32
  pool_size :: u8
  queue_size :: u32
  worker_start_retries :: u8
  worker_start_backoff_start :: duration
  max_worker_retry_wait :: duration
  startup_timeout :: duration
  config_metrics :: metrics_hook

record batcher_config_builder =
  b_batch_size :: u32
  b_batch_timeout :: duration
  b_pool_size :: u8
  b_queue_size :: "u32 option"
  b_worker_start_retries :: u8
  b_worker_start_backoff_start :: duration
  b_max_worker_retry_wait :: duration
  b_startup_timeout :: duration
  b_metrics :: metrics_hook

record inner_config =
  ic_timeout :: duration
  ic_batch_size :: u32

definition DEFAULT_POOL_SIZE :: u8 where "DEFAULT_POOL_SIZE = 1"
definition DEFAULT_WORKER_START_RETRIES :: u8 where "DEFAULT_WORKER_START_RETRIES = 3"
definition DEFAULT_WORKER_START_BACKOFF_START :: duration where
  "DEFAULT_WORKER_START_BACKOFF_START = from_millis 100"
definition DEFAULT_MAX_WORKER_RETRY_WAIT :: duration where
  "DEFAULT_MAX_WORKER_RETRY_WAIT = from_secs 5"
definition DEFAULT_STARTUP_TIMEOUT :: duration where
  "DEFAULT_STARTUP_TIMEOUT = from_secs 60"

definition builder :: "u32 \<Rightarrow> duration \<Rightarrow> batcher_config_builder" where
  "builder sz timeout =
     \<lparr>b_batch_size = sz, b_batch_timeout = timeout,
      b_pool_size = DEFAULT_POOL_SIZE,
      b_queue_size = None,
      b_worker_start_retries = DEFAULT_WORKER_START_RETRIES,
      b_worker_start_backoff_start = DEFAULT_WORKER_START_BACKOFF_START,
      b_max_worker_retry_wait = DEFAULT_MAX_WORKER_RETRY_WAIT,
      b_startup_timeout = DEFAULT_STARTUP_TIMEOUT,
      b_metrics = None\<rparr>"

text \<open>The setters return the builder they changed.\<close>

definition set_pool_size :: "u8 \<Rightarrow> batcher_config_builder \<Rightarrow> batcher_config_builder" where
  "set_pool_size n b = b\<lparr>b_pool_size := n\<rparr>"
definition set_queue_size :: "u32 \<Rightarrow> batcher_config_builder \<Rightarrow> batcher_config_builder" where
  "set_queue_size n b = b\<lparr>b_queue_size := Some n\<rparr>"
definition set_worker_start_retries :: "u8 \<Rightarrow> batcher_config_builder \<Rightarrow> batcher_config_builder" where
  "set_worker_start_retries r b = b\<lparr>b_worker_start_retries := r\<rparr>"
definition set_worker_start_backoff_start ::
  "duration \<Rightarrow> batcher_config_builder \<Rightarrow> batcher_config_builder" where
  "set_worker_start_backoff_start d b = b\<lparr>b_worker_start_backoff_start := d\<rparr>"
definition set_max_worker_retry_wait ::
  "duration \<Rightarrow> batcher_config_builder \<Rightarrow> batcher_config_builder" where
  "set_max_worker_retry_wait d b = b\<lparr>b_max_worker_retry_wait := d\<rparr>"
definition set_startup_timeout :: "duration \<Rightarrow> batcher_config_builder \<Rightarrow> batcher_config_builder" where
  "set_startup_timeout d b = b\<lparr>b_startup_timeout := d\<rparr>"
definition set_metrics :: "(obs_event \<Rightarrow> bool) \<Rightarrow> batcher_config_builder \<Rightarrow> batcher_config_builder" where
  "set_metrics m b = b\<lparr>b_metrics := Some m\<rparr>"

definition build :: "batcher_config_builder \<Rightarrow> batcher_config" where
  "build b =
     \<lparr>batch_timeout = b_batch_timeout b,
      batch_size = b_batch_size b,
      pool_size = b_pool_size b,
      queue_size = (case b_queue_size b of Some n \<Rightarrow> n | None \<Rightarrow> b_batch_size b),
      worker_start_retries = b_worker_start_retries b,
      worker_start_backoff_start = b_worker_start_backoff_start b,
      max_worker_retry_wait = b_max_worker_retry_wait b,
      startup_timeout = b_startup_timeout b,
      config_metrics = b_metrics b\<rparr>"

text \<open>\<open>From<BatcherConfig> for InnerConfig\<close>.\<close>

definition inner_config_from :: "batcher_config \<Rightarrow> inner_config" where
  "inner_config_from conf = \<lparr>ic_timeout = batch_timeout conf, ic_batch_size = batch_size conf\<rparr>"

definition builder_wf :: "batcher_config_builder \<Rightarrow> bool" where
  "builder_wf b \<longleftrightarrow> b_batch_size b \<noteq> 0 \<and> b_pool_size b \<noteq> 0 \<and> b_queue_size b \<noteq> Some 0"

definition config_wf :: "batcher_config \<Rightarrow> bool" where
  "config_wf c \<longleftrightarrow> batch_size c \<noteq> 0 \<and> pool_size c \<noteq> 0 \<and> queue_size c \<noteq> 0"

text \<open>A use of the builder: any sequence of setter calls.\<close>

datatype setting =
    PoolSize u8
  | QueueSize u32
  | StartRetries u8
  | BackoffStart duration
  | MaxRetryWait duration
  | StartupTimeout duration
  | Metrics "obs_event \<Rightarrow> bool"

fun apply_setting :: "setting \<Rightarrow> batcher_config_builder \<Rightarrow> batcher_config_builder" where
  "apply_setting (PoolSize n) b = set_pool_size n b"
| "apply_setting (QueueSize n) b = set_queue_size n b"
| "apply_setting (StartRetries r) b = set_worker_start_retries r b"
| "apply_setting (BackoffStart d) b = set_worker_start_backoff_start d b"
| "apply_setting (MaxRetryWait d) b = set_max_worker_retry_wait d b"
| "apply_setting (StartupTimeout d) b = set_startup_timeout d b"
| "apply_setting (Metrics m) b = set_metrics m b"

definition configure :: "u32 \<Rightarrow> duration \<Rightarrow> setting list \<Rightarrow> batcher_config_builder" where
  "configure sz timeout ss = fold apply_setting ss (builder sz timeout)"

text \<open>The last value a sequence of settings gives an option, read with a selector.\<close>

definition last_set :: "(setting \<Rightarrow> 'a option) \<Rightarrow> setting list \<Rightarrow> 'a \<Rightarrow> 'a" where
  "last_set sel ss dflt = last (dflt # List.map_filter sel ss)"

fun sel_pool_size :: "setting \<Rightarrow> u8 option" where
  "sel_pool_size (PoolSize n) = Some n" | "sel_pool_size _ = None"
fun sel_queue_size :: "setting \<Rightarrow> u32 option" where
  "sel_queue_size (QueueSize n) = Some n" | "sel_queue_size _ = None"
fun sel_retries :: "setting \<Rightarrow> u8 option" where
  "sel_retries (StartRetries r) = Some r" | "sel_retries _ = None"
fun sel_backoff :: "setting \<Rightarrow> duration option" where
  "sel_backoff (BackoffStart d) = Some d" | "sel_backoff _ = None"
fun sel_max_wait :: "setting \<Rightarrow> duration option" where
  "sel_max_wait (MaxRetryWait d) = Some d" | "sel_max_wait _ = None"
fun sel_startup_timeout :: "setting \<Rightarrow> duration option" where
  "sel_startup_timeout (StartupTimeout d) = Some d" | "sel_startup_timeout _ = None"
fun sel_metrics :: "setting \<Rightarrow> metrics_hook option" where
  "sel_metrics (Metrics m) = Some (Some m)" | "sel_metrics _ = None"

lemmas setter_defs = set_pool_size_def set_queue_size_def set_worker_start_retries_def
  set_worker_start_backoff_start_def set_max_worker_retry_wait_def set_startup_timeout_def
  set_metrics_def

lemma last_set_snoc: "last_set sel (ss @ [s]) d = (case sel s of Some v \<Rightarrow> v | None \<Rightarrow> last_set sel ss d)"
  by (simp add: last_set_def List.map_filter_def split: option.splits)

lemma last_set_Nil [simp]: "last_set sel [] d = d"
  by (simp add: last_set_def List.map_filter_def)

lemma configure_snoc: "configure n t (ss @ [s]) = apply_setting s (configure n t ss)"
  by (simp add: configure_def)

text \<open>What each field of the builder holds after any settings.\<close>

lemma configure_fields:
  "b_batch_size (configure n t ss) = n" "b_batch_timeout (configure n t ss) = t"
  "b_pool_size (configure n t ss) = last_set sel_pool_size ss DEFAULT_POOL_SIZE"
  "b_queue_size (configure n t ss) = last_set (map_option Some \<circ> sel_queue_size) ss None"
  "b_worker_start_retries (configure n t ss) = last_set sel_retries ss DEFAULT_WORKER_START_RETRIES"
  "b_worker_start_backoff_start (configure n t ss) = last_set sel_backoff ss DEFAULT_WORKER_START_BACKOFF_START"
  "b_max_worker_retry_wait (configure n t ss) = last_set sel_max_wait ss DEFAULT_MAX_WORKER_RETRY_WAIT"
  "b_startup_timeout (configure n t ss) = last_set sel_startup_timeout ss DEFAULT_STARTUP_TIMEOUT"
  "b_metrics (configure n t ss) = last_set sel_metrics ss None"
proof (induction ss rule: rev_induct)
  case Nil
  {
    case 1 then show ?case by (simp add: configure_def builder_def)
  next case 2 then show ?case by (simp add: configure_def builder_def)
  next case 3 then show ?case by (simp add: configure_def builder_def)
  next case 4 then show ?case by (simp add: configure_def builder_def)
  next case 5 then show ?case by (simp add: configure_def builder_def)
  next case 6 then show ?case by (simp add: configure_def builder_def)
  next case 7 then show ?case by (simp add: configure_def builder_def)
  next case 8 then show ?case by (simp add: configure_def builder_def)
  next case 9 then show ?case by (simp add: configure_def builder_def)
  }
next
  case (snoc s ss)
  note step = snoc configure_snoc last_set_snoc setter_defs
  {
    case 1 then show ?case by (cases s) (simp_all add: step)
  next case 2 then show ?case by (cases s) (simp_all add: step)
  next case 3 then show ?case by (cases s) (simp_all add: step)
  next case 4 then show ?case by (cases s) (simp_all add: step)
  next case 5 then show ?case by (cases s) (simp_all add: step)
  next case 6 then show ?case by (cases s) (simp_all add: step)
  next case 7 then show ?case by (cases s) (simp_all add: step)
  next case 8 then show ?case by (cases s) (simp_all add: step)
  next case 9 then show ?case by (cases s) (simp_all add: step)
  }
qed

lemma queue_size_last_set:
  "(case last_set (map_option Some \<circ> sel_queue_size) ss None of Some m \<Rightarrow> m | None \<Rightarrow> n) = last_set sel_queue_size ss n"
  by (induction ss rule: rev_induct) (auto simp: last_set_snoc split: option.splits)

text \<open>The builder means what its documentation says: after any sequence of setter calls, in any
  order and with repetitions, \<open>build\<close> gives every option the value it was last set to, or its
  documented default if it never was; the queue size defaults to the batch size, wherever in the
  sequence it is set; and the part of the configuration each worker keeps is the batch size and timeout given
  to \<open>builder\<close>.\<close>

theorem build_takes_last_settings:
  "build (configure n t ss) =
    \<lparr>batch_timeout = t, batch_size = n,
     pool_size = last_set sel_pool_size ss 1,
     queue_size = last_set sel_queue_size ss n,
     worker_start_retries = last_set sel_retries ss 3,
     worker_start_backoff_start = last_set sel_backoff ss (from_millis 100),
     max_worker_retry_wait = last_set sel_max_wait ss (from_secs 5),
     startup_timeout = last_set sel_startup_timeout ss (from_secs 60),
     config_metrics = last_set sel_metrics ss None\<rparr>
   \<and> inner_config_from (build (configure n t ss)) = \<lparr>ic_timeout = t, ic_batch_size = n\<rparr>"
  by (simp add: build_def inner_config_from_def configure_fields queue_size_last_set DEFAULT_POOL_SIZE_def
      DEFAULT_WORKER_START_RETRIES_def DEFAULT_WORKER_START_BACKOFF_START_def
      DEFAULT_MAX_WORKER_RETRY_WAIT_def DEFAULT_STARTUP_TIMEOUT_def)

end
