(* ===== verification/Worker_State.thy ===== *)
theory Worker_State
  imports Config
begin

text \<open>
  The status every worker shares with the router (\<open>src/state/mod.rs\<close>, lines 9-304): the status
  codes, the accumulator's status and batch length packed into one 64-bit word, the predictor's
  status byte, and the snapshots and admission tests the router reads them with. A code no arm of
  \<open>from_u8\<close> matches is \<open>unreachable!\<close>, so it panics: \<open>None\<close>.
\<close>

definition BATCH_LEN_MASK :: u64 where
  "BATCH_LEN_MASK = NOT (push_bit 62 3)"

definition WAITING :: u8 where "WAITING = 0"
definition EXIT :: u8 where "EXIT = 1"
definition RUNNING_INFERENCE :: u8 where "RUNNING_INFERENCE = 2"
definition CRASHED :: u8 where "CRASHED = 3"

definition worker_status_from_u8 :: "u8 \<Rightarrow> worker_status option" where
  "worker_status_from_u8 state =
     (if state = WAITING then Some Waiting
      else if state = EXIT then Some Exit
      else if state = RUNNING_INFERENCE then Some Running
      else if state = CRASHED then Some Crashed
      else None)"

fun worker_status_to_u8 :: "worker_status \<Rightarrow> u8" where
  "worker_status_to_u8 Waiting = WAITING"
| "worker_status_to_u8 Exit = EXIT"
| "worker_status_to_u8 Running = RUNNING_INFERENCE"
| "worker_status_to_u8 Crashed = CRASHED"

definition ALIVE :: u8 where "ALIVE = 0"
definition REBUILDING :: u8 where "REBUILDING = 1"
definition DEAD :: u8 where "DEAD = 2"

definition predictor_status_from_u8 :: "u8 \<Rightarrow> predictor_status option" where
  "predictor_status_from_u8 state =
     (if state = ALIVE then Some Alive
      else if state = REBUILDING then Some Rebuilding
      else if state = DEAD then Some Dead
      else None)"

text \<open>\<open>self as u8\<close>: the discriminants of the enum.\<close>

fun predictor_status_to_u8 :: "predictor_status \<Rightarrow> u8" where
  "predictor_status_to_u8 Alive = 0"
| "predictor_status_to_u8 Rebuilding = 1"
| "predictor_status_to_u8 Dead = 2"

record worker_snapshot =
  snap_worker_status :: worker_status
  snap_predictor_status :: predictor_status
  snap_batch_len :: u32

record worker_state =
  ws_word :: u64
  ws_predictor :: u8
  ws_config :: inner_config

definition new_worker_state :: "inner_config \<Rightarrow> worker_state" where
  "new_worker_state config = \<lparr>ws_word = 0, ws_predictor = 0, ws_config = config\<rparr>"

text \<open>The load and the store of \<open>set_worker_state\<close>, on the packed word.\<close>

definition pack_status :: "worker_status \<Rightarrow> u64 \<Rightarrow> u64" where
  "pack_status state current =
     (let state_key = worker_status_to_u8 state;
          state_bits = push_bit 62 (ucast state_key :: u64)
      in (current AND BATCH_LEN_MASK) OR state_bits)"

definition set_worker_state :: "worker_status \<Rightarrow> worker_state \<Rightarrow> worker_state" where
  "set_worker_state state w = w\<lparr>ws_word := pack_status state (ws_word w)\<rparr>"

definition set_predictor_state :: "predictor_status \<Rightarrow> worker_state \<Rightarrow> worker_state" where
  "set_predictor_state state w = w\<lparr>ws_predictor := predictor_status_to_u8 state\<rparr>"

definition get_predictor_state :: "worker_state \<Rightarrow> predictor_status option" where
  "get_predictor_state w = predictor_status_from_u8 (ws_predictor w)"

definition set_dead :: "worker_state \<Rightarrow> worker_state" where
  "set_dead w = set_predictor_state Dead w"

text \<open>\<open>snapshot\<close> loads the word, then the byte. \<open>read_snapshot\<close> is what it makes of the two loads,
  which other threads' stores may separate.\<close>

definition read_snapshot :: "u64 \<Rightarrow> u8 \<Rightarrow> worker_snapshot option" where
  "read_snapshot word byte =
     (case worker_status_from_u8 (ucast (drop_bit 62 word)) of
        None \<Rightarrow> None
      | Some status \<Rightarrow>
          (case predictor_status_from_u8 byte of
             None \<Rightarrow> None
           | Some pstatus \<Rightarrow>
               Some \<lparr>snap_worker_status = status, snap_predictor_status = pstatus,
                     snap_batch_len = ucast (word AND BATCH_LEN_MASK)\<rparr>))"

definition snapshot :: "worker_state \<Rightarrow> worker_snapshot option" where
  "snapshot w = read_snapshot (ws_word w) (ws_predictor w)"

definition reset_batch_len :: "worker_state \<Rightarrow> worker_state" where
  "reset_batch_len w = w\<lparr>ws_word := 0\<rparr>"

definition increment_len :: "worker_state \<Rightarrow> worker_state" where
  "increment_len w = w\<lparr>ws_word := ws_word w + 1\<rparr>"

definition ws_batch_size :: "worker_state \<Rightarrow> u32" where
  "ws_batch_size w = ic_batch_size (ws_config w)"

definition ws_timeout :: "worker_state \<Rightarrow> duration" where
  "ws_timeout w = ic_timeout (ws_config w)"

text \<open>The admission tests, on a snapshot.\<close>

definition accepts_primary :: "u32 \<Rightarrow> worker_snapshot \<Rightarrow> bool" where
  "accepts_primary bsize snap \<longleftrightarrow>
     snap_worker_status snap = Waiting
     \<and> snap_predictor_status snap = Alive
     \<and> snap_batch_len snap < bsize"

definition accepts_secondary :: "worker_snapshot \<Rightarrow> bool" where
  "accepts_secondary snap \<longleftrightarrow>
     \<not> (snap_worker_status snap = Exit \<or> snap_worker_status snap = Crashed)
     \<and> snap_predictor_status snap = Alive"

definition snap_rebuilding :: "worker_snapshot \<Rightarrow> bool" where
  "snap_rebuilding snap \<longleftrightarrow> snap_predictor_status snap = Rebuilding"

definition can_accept_primary :: "worker_state \<Rightarrow> bool option" where
  "can_accept_primary w = map_option (accepts_primary (ws_batch_size w)) (snapshot w)"

definition can_accept_secondary :: "worker_state \<Rightarrow> bool option" where
  "can_accept_secondary w = map_option accepts_secondary (snapshot w)"

definition is_rebuilding :: "worker_state \<Rightarrow> bool option" where
  "is_rebuilding w = map_option snap_rebuilding (snapshot w)"

subsection \<open>The two fields of the packed word\<close>

definition status_code :: "u64 \<Rightarrow> nat" where "status_code w = unat w div 2 ^ 62"
definition len_field :: "u64 \<Rightarrow> nat" where "len_field w = unat w mod 2 ^ 62"

fun code_nat :: "worker_status \<Rightarrow> nat" where
  "code_nat Waiting = 0" | "code_nat Exit = 1" | "code_nat Running = 2" | "code_nat Crashed = 3"

text \<open>The status the two top bits encode; the arms cover every value of two bits.\<close>

definition word_status :: "u64 \<Rightarrow> worker_status" where
  "word_status w = (if status_code w = 0 then Waiting else if status_code w = 1 then Exit
     else if status_code w = 2 then Running else Crashed)"

lemma status_code_less: "status_code w < 4"
proof -
  have "unat w < 2 ^ 64" using unsigned_less [of w] by simp
  then show ?thesis by (simp add: status_code_def less_mult_imp_div_less)
qed

lemma len_field_less: "len_field w < 2 ^ 62"
  by (simp add: len_field_def)

lemma word_of_fields: "unat w = status_code w * 2 ^ 62 + len_field w"
  by (simp add: status_code_def len_field_def)

lemma BATCH_LEN_MASK_eq: "BATCH_LEN_MASK = mask 62"
  by (simp add: BATCH_LEN_MASK_def mask_eq_exp_minus_1)

lemma unat_masked: "unat (w AND BATCH_LEN_MASK) = len_field w"
  by (simp add: BATCH_LEN_MASK_eq take_bit_eq_mask [symmetric] unsigned_take_bit_eq take_bit_eq_mod unat_mod len_field_def)

lemma unat_status_bits: "unat (push_bit 62 (ucast (worker_status_to_u8 st) :: u64)) = code_nat st * 2 ^ 62"
  by (cases st) (simp_all add: WAITING_def EXIT_def RUNNING_INFERENCE_def CRASHED_def)

text \<open>Each operation on the two fields. The three stores:\<close>

lemma pack_status_nat: "unat (pack_status st w) = code_nat st * 2 ^ 62 + len_field w"
proof -
  let ?low = "w AND BATCH_LEN_MASK"
  let ?high = "push_bit 62 (ucast (worker_status_to_u8 st) :: u64)"
  have "?low AND ?high = 0"
    by (rule bit_word_eqI) (auto simp: BATCH_LEN_MASK_eq bit_simps)
  then have "?low OR ?high = ?low + ?high"
    by (simp add: disjunctive_add_eq_or)
  moreover have "unat ?low + unat ?high < 2 ^ 64"
    unfolding unat_masked unat_status_bits
    using len_field_less [of w] by (cases st) simp_all
  ultimately show ?thesis
    by (simp add: pack_status_def Let_def unat_word_ariths unat_masked unat_status_bits)
qed

lemma code_nat_less: "code_nat st < 4"
  by (cases st) simp_all

lemma fields_of:
  assumes "unat w = c * 2 ^ 62 + n" and "n < 2 ^ 62"
  shows "status_code w = c" and "len_field w = n"
  using assms by (simp_all add: status_code_def len_field_def div_add1_eq)

lemma pack_status_fields [status_simps]:
  "status_code (pack_status st w) = code_nat st" "len_field (pack_status st w) = len_field w"
  using fields_of [OF pack_status_nat len_field_less] by simp_all

lemma zero_fields [status_simps]: "status_code 0 = 0" "len_field 0 = 0"
  by (simp_all add: status_code_def len_field_def)

lemma incr_nat:
  assumes "len_field w + 1 < 2 ^ 62"
  shows "unat (w + 1) = status_code w * 2 ^ 62 + (len_field w + 1)"
proof -
  have "unat w + 1 < 2 ^ 64"
    using assms status_code_less [of w] word_of_fields [of w] by simp
  then have "unat (w + 1) = unat w + 1"
    by (simp add: unat_word_ariths)
  then show ?thesis
    by (simp add: word_of_fields [of w])
qed

lemma incr_fields [status_simps]:
  assumes "len_field w + 1 < 2 ^ 62"
  shows "status_code (w + 1) = status_code w" and "len_field (w + 1) = len_field w + 1"
  using fields_of [OF incr_nat [OF assms]] assms by simp_all

lemma word_status_pack [status_simps]: "word_status (pack_status st w) = st"
  by (cases st) (simp_all add: word_status_def status_simps)

lemma word_status_0 [status_simps]: "word_status 0 = Waiting"
  by (simp add: word_status_def status_simps)

lemma word_status_incr [status_simps]:
  "len_field w + 1 < 2 ^ 62 \<Longrightarrow> word_status (w + 1) = word_status w"
  by (simp add: word_status_def status_simps)

text \<open>What a reader sees of the two loads.\<close>

lemma unat_drop_62: "unat (ucast (drop_bit 62 w) :: u8) = status_code w" for w :: u64
proof -
  have "status_code w < 256"
    using status_code_less [of w] by simp
  then show ?thesis
    by (simp add: unsigned_ucast_eq unsigned_drop_bit_eq drop_bit_eq_div status_code_def unat_div
      take_bit_nat_eq_self)
qed

lemma worker_status_of_word:
  "worker_status_from_u8 (ucast (drop_bit 62 w)) = Some (word_status w)" for w :: u64
  using unat_drop_62 [of w] status_code_less [of w]
  by (auto simp: worker_status_from_u8_def word_status_def WAITING_def EXIT_def
      RUNNING_INFERENCE_def CRASHED_def word_unat_eq_iff)

text \<open>The predictor byte holds a code of the enum: every store writes one.\<close>

definition ws_ok :: "worker_state \<Rightarrow> bool" where
  "ws_ok w \<longleftrightarrow> ws_predictor w \<in> {0, 1, 2}"

text \<open>The readings of a well-formed status.\<close>

definition the_status :: "worker_state \<Rightarrow> worker_status" where
  "the_status w = word_status (ws_word w)"

definition the_len :: "worker_state \<Rightarrow> nat" where
  "the_len w = len_field (ws_word w)"

definition the_predictor :: "worker_state \<Rightarrow> predictor_status" where
  "the_predictor w = (if ws_predictor w = 0 then Alive else if ws_predictor w = 1 then Rebuilding else Dead)"

definition the_snapshot :: "worker_state \<Rightarrow> worker_snapshot" where
  "the_snapshot w = \<lparr>snap_worker_status = the_status w, snap_predictor_status = the_predictor w,
     snap_batch_len = of_nat (the_len w)\<rparr>"

lemma get_predictor_state_eq [status_simps]: "ws_ok w \<Longrightarrow> get_predictor_state w = Some (the_predictor w)"
  by (auto simp: ws_ok_def get_predictor_state_def predictor_status_from_u8_def the_predictor_def
      ALIVE_def REBUILDING_def DEAD_def)

lemma ucast_masked: "(ucast (w AND BATCH_LEN_MASK) :: u32) = of_nat (len_field w)"
  by (metis unat_masked of_nat_unat)

lemma snapshot_eq [status_simps]: "ws_ok w \<Longrightarrow> snapshot w = Some (the_snapshot w)"
  using get_predictor_state_eq [of w]
  by (simp add: snapshot_def read_snapshot_def worker_status_of_word get_predictor_state_def
      the_snapshot_def the_status_def the_len_def ucast_masked)

lemma predictor_code_cases [simp]:
  "predictor_status_to_u8 p = 0 \<longleftrightarrow> p = Alive"
  "predictor_status_to_u8 p = 1 \<longleftrightarrow> p = Rebuilding"
  "predictor_status_to_u8 p = 2 \<longleftrightarrow> p = Dead"
  by (cases p; simp)+

lemma ws_ok_ops [status_simps, simp]:
  "ws_ok (new_worker_state c)"
  "ws_ok (set_predictor_state p w)"
  "ws_ok (set_worker_state st w) = ws_ok w"
  "ws_ok (increment_len w) = ws_ok w"
  "ws_ok (reset_batch_len w) = ws_ok w"
  by (simp_all add: ws_ok_def new_worker_state_def set_predictor_state_def
      set_worker_state_def increment_len_def reset_batch_len_def) (cases p; simp)

lemma ws_config_ops [status_simps]:
  "ws_config (set_predictor_state p w) = ws_config w"
  "ws_config (set_worker_state st w) = ws_config w"
  "ws_config (increment_len w) = ws_config w"
  "ws_config (reset_batch_len w) = ws_config w"
  "ws_config (new_worker_state c) = c"
  by (simp_all add: set_predictor_state_def set_worker_state_def increment_len_def
      reset_batch_len_def new_worker_state_def)

lemma the_predictor_ops [status_simps]:
  "the_predictor (new_worker_state c) = Alive"
  "the_predictor (set_predictor_state p w) = p"
  "the_predictor (set_worker_state st w) = the_predictor w"
  "the_predictor (increment_len w) = the_predictor w"
  "the_predictor (reset_batch_len w) = the_predictor w"
  by (simp_all add: the_predictor_def new_worker_state_def set_predictor_state_def
      set_worker_state_def increment_len_def reset_batch_len_def) (cases p; simp)

lemma the_status_ops [status_simps]:
  "the_status (new_worker_state c) = Waiting"
  "the_status (set_predictor_state p w) = the_status w"
  "the_status (set_worker_state st w) = st"
  "the_status (reset_batch_len w) = Waiting"
  "the_len w + 1 < 2 ^ 62 \<Longrightarrow> the_status (increment_len w) = the_status w"
  by (simp_all add: the_status_def the_len_def new_worker_state_def set_predictor_state_def
      set_worker_state_def increment_len_def reset_batch_len_def word_status_pack word_status_0
      word_status_incr)

lemma the_len_ops [status_simps]:
  "the_len (new_worker_state c) = 0"
  "the_len (set_predictor_state p w) = the_len w"
  "the_len (set_worker_state st w) = the_len w"
  "the_len (reset_batch_len w) = 0"
  "the_len w + 1 < 2 ^ 62 \<Longrightarrow> the_len (increment_len w) = the_len w + 1"
  by (simp_all add: the_len_def new_worker_state_def set_predictor_state_def
      set_worker_state_def increment_len_def reset_batch_len_def pack_status_fields zero_fields
      incr_fields)

subsection \<open>The status register as an interface\<close>

text \<open>
  What the accumulator relies on when it drives the shared status: a status and a batch length,
  set, counted up and cleared independently of each other, as long as the length stays below the
  register's limit. The register is interpreted on the packed word, whose limit is \<open>2 ^ 62\<close>.
\<close>

datatype status_op = SetStatus worker_status | IncrementLen | ResetBatchLen

fun abs_status_op :: "status_op \<Rightarrow> worker_status \<times> nat \<Rightarrow> worker_status \<times> nat" where
  "abs_status_op (SetStatus st) (_, n) = (st, n)"
| "abs_status_op IncrementLen (st, n) = (st, n + 1)"
| "abs_status_op ResetBatchLen _ = (Waiting, 0)"

fun run_status_ops ::
  "(worker_status \<Rightarrow> 's \<Rightarrow> 's) \<Rightarrow> ('s \<Rightarrow> 's) \<Rightarrow> ('s \<Rightarrow> 's) \<Rightarrow> status_op list \<Rightarrow> 's \<Rightarrow> 's" where
  "run_status_ops setst incr reset [] s = s"
| "run_status_ops setst incr reset (SetStatus st # ops) s = run_status_ops setst incr reset ops (setst st s)"
| "run_status_ops setst incr reset (IncrementLen # ops) s = run_status_ops setst incr reset ops (incr s)"
| "run_status_ops setst incr reset (ResetBatchLen # ops) s = run_status_ops setst incr reset ops (reset s)"

locale status_register =
  fixes status :: "'s \<Rightarrow> worker_status" and len :: "'s \<Rightarrow> nat"
    and setst :: "worker_status \<Rightarrow> 's \<Rightarrow> 's" and incr :: "'s \<Rightarrow> 's" and reset :: "'s \<Rightarrow> 's"
    and limit :: nat
  assumes status_set: "status (setst st s) = st" and len_set: "len (setst st s) = len s"
    and status_reset: "status (reset s) = Waiting" and len_reset: "len (reset s) = 0"
    and status_incr: "len s + 1 < limit \<Longrightarrow> status (incr s) = status s"
    and len_incr: "len s + 1 < limit \<Longrightarrow> len (incr s) = len s + 1"
begin

lemma run_refines:
  "len s + length ops < limit \<Longrightarrow>
     (status (run_status_ops setst incr reset ops s), len (run_status_ops setst incr reset ops s))
       = fold abs_status_op ops (status s, len s)"
proof (induction ops arbitrary: s)
  case (Cons op ops)
  then show ?case
    by (cases op) (simp_all add: status_set len_set status_reset len_reset status_incr len_incr)
qed simp

lemma fill:
  "n < limit \<Longrightarrow> status ((incr ^^ n) (reset s)) = Waiting \<and> len ((incr ^^ n) (reset s)) = n"
  by (induction n) (simp_all add: status_reset len_reset status_incr len_incr)

end

interpretation packed: status_register the_status the_len set_worker_state increment_len
    reset_batch_len "2 ^ 62"
  by unfold_locales (simp_all add: status_simps)

lemma run_status_ops_frame [status_simps]:
  "the_predictor (run_status_ops set_worker_state increment_len reset_batch_len ops w) = the_predictor w"
  "ws_ok (run_status_ops set_worker_state increment_len reset_batch_len ops w) = ws_ok w"
proof (induction ops arbitrary: w)
  case (Cons op ops)
  {
    case 1
    with Cons show ?case by (cases op) (simp_all add: status_simps)
  next
    case 2
    with Cons show ?case by (cases op) simp_all
  }
qed simp_all

lemma increment_frame [status_simps]:
  "the_predictor ((increment_len ^^ n) w) = the_predictor w"
  "ws_ok ((increment_len ^^ n) w) = ws_ok w"
  "ws_config ((increment_len ^^ n) w) = ws_config w"
  by (induction n) (simp_all add: status_simps)

lemma batch_size_bound: "unat (ws_batch_size w) < 2 ^ 32"
  using unsigned_less [of "ws_batch_size w"] by simp

lemma unat_len_u32: "n < 2 ^ 32 \<Longrightarrow> unat (of_nat n :: u32) = n"
  by (simp add: unsigned_of_nat take_bit_nat_eq_self)

subsection \<open>Properties\<close>

text \<open>C26: The packed status word implements the pair of a status and a length: after any sequence
  of the accumulator's status operations that cannot push the length to 2^62, a snapshot reads
  exactly the status and (as a u32) the length the abstract pair machine computes, next to the
  predictor status no such operation touches. Setting the status never disturbs the length, and
  counting up never disturbs the status bits.\<close>

theorem packed_word_refines_status_pair:
  assumes "ws_ok w" and "the_len w + length ops < 2 ^ 62"
  shows "snapshot (run_status_ops set_worker_state increment_len reset_batch_len ops w) =
    Some \<lparr>snap_worker_status = fst (fold abs_status_op ops (the_status w, the_len w)),
          snap_predictor_status = the_predictor w,
          snap_batch_len = of_nat (snd (fold abs_status_op ops (the_status w, the_len w)))\<rparr>"
  using packed.run_refines [OF assms(2)] assms(1)
  by (simp add: status_simps the_snapshot_def prod_eq_iff)

theorem packed_word_refines_status_pair_witness:
  "snapshot (run_status_ops set_worker_state increment_len reset_batch_len
      [IncrementLen, IncrementLen, SetStatus Running]
      (new_worker_state \<lparr>ic_timeout = from_millis 5, ic_batch_size = 8\<rparr>)) =
    Some \<lparr>snap_worker_status = Running, snap_predictor_status = Alive, snap_batch_len = 2\<rparr>"
  using packed_word_refines_status_pair
    [of "new_worker_state \<lparr>ic_timeout = from_millis 5, ic_batch_size = 8\<rparr>"
        "[IncrementLen, IncrementLen, SetStatus Running]"]
  by (simp add: status_simps)

text \<open>While a batch fills, the router reads its exact size: after a reset and \<open>n\<close> increments,
  with \<open>n\<close> at most the configured batch size (any u32), the snapshot does not panic, shows
  \<open>Waiting\<close> and the length \<open>n\<close> without truncation, and the primary admission test holds
  exactly when the predictor is alive and the batch still has room.\<close>

theorem filling_batch_snapshot:
  assumes "ws_ok w" and "n \<le> unat (ws_batch_size w)"
  defines "v \<equiv> (increment_len ^^ n) (reset_batch_len w)"
  shows "\<exists>snap. snapshot v = Some snap \<and> snap_worker_status snap = Waiting
      \<and> unat (snap_batch_len snap) = n
      \<and> can_accept_primary v = Some (the_predictor w = Alive \<and> n < unat (ws_batch_size w))"
proof -
  have n: "n < 2 ^ 32"
    using assms(2) batch_size_bound [of w] by linarith
  have "the_status v = Waiting \<and> the_len v = n"
    unfolding v_def using n packed.fill by simp
  then show ?thesis
    using assms(1) n unat_len_u32 [OF n]
    by (simp add: v_def status_simps the_snapshot_def can_accept_primary_def accepts_primary_def
        ws_batch_size_def word_less_nat_alt)
qed

theorem filling_batch_snapshot_witness:
  "\<exists>snap. snapshot ((increment_len ^^ 2) (reset_batch_len
        (new_worker_state \<lparr>ic_timeout = from_millis 5, ic_batch_size = 2\<rparr>))) = Some snap
      \<and> unat (snap_batch_len snap) = 2"
  using filling_batch_snapshot
    [of "new_worker_state \<lparr>ic_timeout = from_millis 5, ic_batch_size = 2\<rparr>" 2]
  by (auto simp: status_simps ws_batch_size_def)

end
