(* ===== verification/Worker_Pool.thy ===== *)
theory Worker_Pool
  imports Channels Worker_State "HOL-Library.Monad_Syntax"
begin

text \<open>
  The router: \<open>WorkerRef\<close> (\<open>src/state/mod.rs\<close>, lines 306-372) and \<open>WorkerPool\<close>
  (\<open>src/pool/mod.rs\<close>).

  The router runs on the callers' threads and shares every worker's status and queue with the
  worker's own threads. Each atomic load and each \<open>try_send\<close> is one access to a worker, and what
  other threads did to that worker since its previous access is a parameter: \<open>env k\<close> is applied
  to the worker at the \<open>k\<close>-th access of the call. \<open>quiet\<close> is the interference of nobody. The state
  threaded through a call is the number of accesses so far and the workers.

  \<open>None\<close> is a panic: an index out of range, a remainder by zero, an unreachable status code.
\<close>

record 'q worker_ref =
  wr_state :: worker_state
  wr_queue :: 'q

record 'q worker_pool =
  wp_pool :: "'q worker_ref list"
  wp_start :: usize

datatype 'm queue_push_result = Success | QueueFull 'm | QueueClosed 'm

type_synonym 'q interference = "nat \<Rightarrow> 'q worker_ref \<Rightarrow> 'q worker_ref"
type_synonym 'q shared = "nat \<times> 'q worker_ref list"

definition quiet :: "'q interference" where "quiet k w = w"

definition access :: "'q interference \<Rightarrow> nat \<Rightarrow> 'q shared \<Rightarrow> ('q worker_ref \<times> 'q shared) option" where
  "access env i s = (case s of (k, ws) \<Rightarrow>
     if i < length ws then (let w = env k (ws ! i) in Some (w, (Suc k, ws[i := w]))) else None)"

text \<open>\<open>WorkerRef::snapshot\<close>: two loads of one worker.\<close>

definition snapshot_at :: "'q interference \<Rightarrow> nat \<Rightarrow> 'q shared \<Rightarrow> (worker_snapshot \<times> 'q shared) option" where
  "snapshot_at env i s = do {
     (w1, s1) \<leftarrow> access env i s;
     (w2, s2) \<leftarrow> access env i s1;
     snap \<leftarrow> read_snapshot (ws_word (wr_state w1)) (ws_predictor (wr_state w2));
     Some (snap, s2)
   }"

definition can_accept_primary_at :: "'q interference \<Rightarrow> nat \<Rightarrow> 'q shared \<Rightarrow> (bool \<times> 'q shared) option" where
  "can_accept_primary_at env i s = do {
     (snap, s1) \<leftarrow> snapshot_at env i s;
     Some (accepts_primary (ws_batch_size (wr_state (snd s1 ! i))) snap, s1)
   }"

definition can_accept_secondary_at :: "'q interference \<Rightarrow> nat \<Rightarrow> 'q shared \<Rightarrow> (bool \<times> 'q shared) option" where
  "can_accept_secondary_at env i s = do {
     (snap, s1) \<leftarrow> snapshot_at env i s;
     Some (accepts_secondary snap, s1)
   }"

definition is_rebuilding_at :: "'q interference \<Rightarrow> nat \<Rightarrow> 'q shared \<Rightarrow> (bool \<times> 'q shared) option" where
  "is_rebuilding_at env i s = do {
     (snap, s1) \<leftarrow> snapshot_at env i s;
     Some (snap_rebuilding snap, s1)
   }"

definition push_at ::
  "('q, 'm) mpsc \<Rightarrow> 'q interference \<Rightarrow> nat \<Rightarrow> 'm \<Rightarrow> 'q shared \<Rightarrow> ('m queue_push_result \<times> 'q shared) option" where
  "push_at Q env i msg s = do {
     (snap, s1) \<leftarrow> snapshot_at env i s;
     if snap_worker_status snap = Exit \<or> snap_worker_status snap = Crashed
     then Some (QueueClosed msg, s1)
     else do {
       (w, s2) \<leftarrow> access env i s1;
       (case mp_try_send Q msg (wr_queue w) of (r, q) \<Rightarrow>
          let s3 = (fst s2, (snd s2)[i := w\<lparr>wr_queue := q\<rparr>]) in
          Some (case r of SendOk \<Rightarrow> (Success, s3)
             | SendFull m \<Rightarrow> (QueueFull m, s3)
             | SendClosed m \<Rightarrow> (QueueClosed m, s3)))
     }
   }"

subsection \<open>The pool\<close>

definition new_worker_pool :: "'q worker_ref list \<Rightarrow> 'q worker_pool" where
  "new_worker_pool pool = \<lparr>wp_pool = pool, wp_start = 0\<rparr>"

definition pool_len :: "'q worker_pool \<Rightarrow> nat" where
  "pool_len p = length (wp_pool p)"

definition is_single_worker :: "'q worker_pool \<Rightarrow> bool" where
  "is_single_worker p \<longleftrightarrow> pool_len p = 1"

definition get_and_increment :: "'q worker_pool \<Rightarrow> (nat \<times> 'q worker_pool) option" where
  "get_and_increment p =
     (if pool_len p = 0 then None
      else Some (unat (wp_start p) mod pool_len p, p\<lparr>wp_start := wp_start p + 1\<rparr>))"

text \<open>Pass 1 over \<open>n\<close> workers from \<open>sink\<close>: \<open>Inl ()\<close> once the message is queued, otherwise the
  message handed back and the next sink.\<close>

fun route_pass1 ::
  "('q, 'm) mpsc \<Rightarrow> 'q interference \<Rightarrow> nat \<Rightarrow> nat \<Rightarrow> nat \<Rightarrow> 'm \<Rightarrow> 'q shared
     \<Rightarrow> ((unit + 'm \<times> nat) \<times> 'q shared) option" where
  "route_pass1 Q env sz 0 sink msg s = Some (Inr (msg, sink), s)"
| "route_pass1 Q env sz (Suc n) sink msg s = do {
     (ok, s1) \<leftarrow> can_accept_primary_at env sink s;
     if ok then do {
       (r, s2) \<leftarrow> push_at Q env sink msg s1;
       (case r of
          Success \<Rightarrow> Some (Inl (), s2)
        | QueueClosed m \<Rightarrow> route_pass1 Q env sz n ((sink + 1) mod sz) m s2
        | QueueFull m \<Rightarrow> route_pass1 Q env sz n ((sink + 1) mod sz) m s2)
     }
     else route_pass1 Q env sz n ((sink + 1) mod sz) msg s1
   }"

text \<open>Pass 2, with the flags \<open>has_live_worker\<close> and \<open>has_rebuilding_worker\<close>.\<close>

fun route_pass2 ::
  "('q, 'm) mpsc \<Rightarrow> 'q interference \<Rightarrow> nat \<Rightarrow> nat \<Rightarrow> nat \<Rightarrow> bool \<Rightarrow> bool \<Rightarrow> 'm \<Rightarrow> 'q shared
     \<Rightarrow> ((unit + 'm \<times> bool \<times> bool) \<times> 'q shared) option" where
  "route_pass2 Q env sz 0 sink live rebuilding msg s = Some (Inr (msg, live, rebuilding), s)"
| "route_pass2 Q env sz (Suc n) sink live rebuilding msg s = do {
     (ok, s1) \<leftarrow> can_accept_secondary_at env sink s;
     if ok then do {
       (r, s2) \<leftarrow> push_at Q env sink msg s1;
       (case r of
          Success \<Rightarrow> Some (Inl (), s2)
        | QueueFull m \<Rightarrow> route_pass2 Q env sz n ((sink + 1) mod sz) True rebuilding m s2
        | QueueClosed m \<Rightarrow> route_pass2 Q env sz n ((sink + 1) mod sz) live rebuilding m s2)
     }
     else do {
       (rb, s2) \<leftarrow> is_rebuilding_at env sink s1;
       route_pass2 Q env sz n ((sink + 1) mod sz) live (rebuilding \<or> rb) msg s2
     }
   }"

type_synonym ('m, 'e) try_push_result = "('m \<times> 'e batchinf_error) + unit"

definition try_push_single ::
  "('q, 'm) mpsc \<Rightarrow> 'q interference \<Rightarrow> 'm \<Rightarrow> 'q shared \<Rightarrow> (('m, 'e) try_push_result \<times> 'q shared) option" where
  "try_push_single Q env msg s = do {
     (ok, s1) \<leftarrow> can_accept_secondary_at env 0 s;
     if \<not> ok then do {
       (rb, s2) \<leftarrow> is_rebuilding_at env 0 s1;
       Some (Inl (msg, if rb then QueueFullError else NoAvailableWorkersError), s2)
     }
     else do {
       (r, s2) \<leftarrow> push_at Q env 0 msg s1;
       Some (case r of
          Success \<Rightarrow> Inr ()
        | QueueFull m \<Rightarrow> Inl (m, QueueFullError)
        | QueueClosed m \<Rightarrow> Inl (m, NoAvailableWorkersError), s2)
     }
   }"

definition try_push_ring ::
  "('q, 'm) mpsc \<Rightarrow> 'q interference \<Rightarrow> nat \<Rightarrow> nat \<Rightarrow> 'm \<Rightarrow> 'q shared
     \<Rightarrow> (('m, 'e) try_push_result \<times> 'q shared) option" where
  "try_push_ring Q env sz sink msg s = do {
     (r1, s1) \<leftarrow> route_pass1 Q env sz sz sink msg s;
     (case r1 of
        Inl _ \<Rightarrow> Some (Inr (), s1)
      | Inr (m, sink') \<Rightarrow> do {
          (r2, s2) \<leftarrow> route_pass2 Q env sz sz sink' False False m s1;
          Some (case r2 of
             Inl _ \<Rightarrow> Inr ()
           | Inr (m', live, rebuilding) \<Rightarrow>
               Inl (m', if live \<or> rebuilding then QueueFullError else NoAvailableWorkersError), s2)
        })
   }"

definition try_push ::
  "('q, 'm) mpsc \<Rightarrow> 'q interference \<Rightarrow> 'q worker_pool \<Rightarrow> 'm
     \<Rightarrow> (('m, 'e) try_push_result \<times> 'q worker_pool) option" where
  "try_push Q env p msg =
     (if is_single_worker p then do {
        (r, s) \<leftarrow> try_push_single Q env msg (0, wp_pool p);
        Some (r, p\<lparr>wp_pool := snd s\<rparr>)
      }
      else do {
        (sink, p1) \<leftarrow> get_and_increment p;
        (r, s) \<leftarrow> try_push_ring Q env (pool_len p) sink msg (0, wp_pool p1);
        Some (r, p1\<lparr>wp_pool := snd s\<rparr>)
      })"

text \<open>\<open>push\<close> keeps the error and drops the message it came with.\<close>

definition pool_push ::
  "('q, 'm) mpsc \<Rightarrow> 'q interference \<Rightarrow> 'q worker_pool \<Rightarrow> 'm
     \<Rightarrow> (('e batchinf_error + unit) \<times> 'q worker_pool) option" where
  "pool_push Q env p msg =
     map_option (\<lambda>(r, p'). (case r of Inl (_, e) \<Rightarrow> Inl e | Inr u \<Rightarrow> Inr u, p')) (try_push Q env p msg)"

fun pool_status_from ::
  "'q interference \<Rightarrow> nat \<Rightarrow> nat \<Rightarrow> 'q shared \<Rightarrow> (worker_snapshot list \<times> 'q shared) option" where
  "pool_status_from env i 0 s = Some ([], s)"
| "pool_status_from env i (Suc n) s = do {
     (snap, s1) \<leftarrow> snapshot_at env i s;
     (rest, s2) \<leftarrow> pool_status_from env (Suc i) n s1;
     Some (snap # rest, s2)
   }"

definition pool_status :: "'q interference \<Rightarrow> 'q worker_pool \<Rightarrow> worker_snapshot list option" where
  "pool_status env p = map_option fst (pool_status_from env 0 (pool_len p) (0, wp_pool p))"

text \<open>\<open>worker_status\<close>: the outer \<open>option\<close> is a panic, the inner one the method's result.\<close>

definition pool_worker_status ::
  "'q interference \<Rightarrow> 'q worker_pool \<Rightarrow> nat \<Rightarrow> worker_snapshot option option" where
  "pool_worker_status env p idx =
     (if idx \<ge> pool_len p then Some None
      else map_option (\<lambda>(snap, _). Some snap) (snapshot_at env idx (0, wp_pool p)))"

subsection \<open>What routing means when nobody interferes\<close>

text \<open>The admission tests on a worker at rest, the ring of workers from a start index, and the
  worker a request goes to: the first in ring order that waits with room in its batch, else the
  first that is healthy, among those whose queue has room.\<close>

definition primary_ok :: "'q worker_ref \<Rightarrow> bool" where
  "primary_ok w = accepts_primary (ws_batch_size (wr_state w)) (the_snapshot (wr_state w))"

definition secondary_ok :: "'q worker_ref \<Rightarrow> bool" where
  "secondary_ok w = accepts_secondary (the_snapshot (wr_state w))"

definition rebuilding :: "'q worker_ref \<Rightarrow> bool" where
  "rebuilding w = snap_rebuilding (the_snapshot (wr_state w))"

fun ring :: "nat \<Rightarrow> nat \<Rightarrow> nat \<Rightarrow> nat list" where
  "ring sz 0 sink = []"
| "ring sz (Suc n) sink = sink # ring sz n ((sink + 1) mod sz)"

definition route_choice :: "('q worker_ref \<Rightarrow> bool) \<Rightarrow> nat \<Rightarrow> 'q worker_ref list \<Rightarrow> nat option" where
  "route_choice room sink ws =
     (case List.find (\<lambda>i. primary_ok (ws ! i) \<and> room (ws ! i)) (ring (length ws) (length ws) sink) of
        Some i \<Rightarrow> Some i
      | None \<Rightarrow> List.find (\<lambda>i. secondary_ok (ws ! i) \<and> room (ws ! i)) (ring (length ws) (length ws) sink))"

definition has_room ::
  "('q \<Rightarrow> 'm list) \<Rightarrow> ('q \<Rightarrow> nat) \<Rightarrow> ('q \<Rightarrow> bool) \<Rightarrow> 'q worker_ref \<Rightarrow> bool" where
  "has_room items cap rx w \<longleftrightarrow> rx (wr_queue w) \<and> length (items (wr_queue w)) < cap (wr_queue w)"

definition enqueued :: "('q, 'm) mpsc \<Rightarrow> 'm \<Rightarrow> nat \<Rightarrow> 'q worker_ref list \<Rightarrow> 'q worker_ref list" where
  "enqueued Q msg i ws = ws[i := (ws ! i)\<lparr>wr_queue := snd (mp_try_send Q msg (wr_queue (ws ! i)))\<rparr>]"

definition pool_ok :: "'q worker_ref list \<Rightarrow> bool" where
  "pool_ok ws \<longleftrightarrow> (\<forall>w \<in> set ws. ws_ok (wr_state w))"

lemma pool_okD: "pool_ok ws \<Longrightarrow> i < length ws \<Longrightarrow> ws_ok (wr_state (ws ! i))"
  by (simp add: pool_ok_def)

lemma primary_imp_secondary: "primary_ok w \<Longrightarrow> secondary_ok w"
  by (auto simp: primary_ok_def secondary_ok_def accepts_primary_def accepts_secondary_def)

lemma secondary_not_rebuilding: "secondary_ok w \<Longrightarrow> \<not> rebuilding w"
  by (simp add: secondary_ok_def rebuilding_def accepts_secondary_def snap_rebuilding_def)

lemma next_sink: "sink < sz \<Longrightarrow> (sink + 1) mod sz < (sz :: nat)"
  by (rule mod_less_divisor) linarith

lemma ring_end: "((sink + 1) mod sz + n) mod sz = (sink + Suc n) mod (sz :: nat)"
  by (simp add: mod_simps)

lemma ring_in_range: "sink < sz \<Longrightarrow> i \<in> set (ring sz n sink) \<Longrightarrow> i < sz"
proof (induction n arbitrary: sink)
  case (Suc n)
  then show ?case using Suc.IH [OF next_sink [OF Suc.prems(1)]] by auto
qed simp

lemma ring_nth: "sink < sz \<Longrightarrow> k < n \<Longrightarrow> ring sz n sink ! k = (sink + k) mod sz"
  by (induction n arbitrary: sink k) (auto simp: nth_Cons mod_simps split: nat.splits)

lemma length_ring [simp]: "length (ring sz n sink) = n"
  by (induction n arbitrary: sink) simp_all

lemma set_full_ring:
  assumes "sink < sz"
  shows "set (ring sz sz sink) = {..<sz}"
proof
  show "set (ring sz sz sink) \<subseteq> {..<sz}"
    using ring_in_range [OF assms] by auto
  show "{..<sz} \<subseteq> set (ring sz sz sink)"
  proof
    fix i assume "i \<in> {..<sz}"
    then have "i < sz" by simp
    let ?k = "(i + sz - sink) mod sz"
    have "?k < sz" using assms by simp
    moreover have "(sink + ?k) mod sz = i"
      using assms \<open>i < sz\<close> by (simp add: mod_add_right_eq)
    ultimately show "i \<in> set (ring sz sz sink)"
      using ring_nth [OF assms, of ?k sz] by (metis length_ring nth_mem)
  qed
qed

subsection \<open>One call on workers at rest\<close>

lemma access_quiet: "i < length ws \<Longrightarrow> access quiet i (k, ws) = Some (ws ! i, (Suc k, ws))"
  by (simp add: access_def quiet_def)

lemma snapshot_at_quiet:
  assumes "pool_ok ws" and "i < length ws"
  shows "snapshot_at quiet i (k, ws) = Some (the_snapshot (wr_state (ws ! i)), (k + 2, ws))"
  using snapshot_eq [OF pool_okD [OF assms]] assms
  by (simp add: snapshot_at_def access_quiet snapshot_def)

lemma tests_quiet:
  assumes "pool_ok ws" and "i < length ws"
  shows "can_accept_primary_at quiet i (k, ws) = Some (primary_ok (ws ! i), (k + 2, ws))"
    and "can_accept_secondary_at quiet i (k, ws) = Some (secondary_ok (ws ! i), (k + 2, ws))"
    and "is_rebuilding_at quiet i (k, ws) = Some (rebuilding (ws ! i), (k + 2, ws))"
  by (simp_all add: can_accept_primary_at_def can_accept_secondary_at_def is_rebuilding_at_def
      snapshot_at_quiet [OF assms] primary_ok_def secondary_ok_def rebuilding_def)

context mpsc_channel
begin

abbreviation room :: "'q worker_ref \<Rightarrow> bool" where
  "room \<equiv> has_room items cap rx"

lemma push_at_quiet:
  assumes "pool_ok ws" and "i < length ws" and "secondary_ok (ws ! i)"
  shows "push_at Q quiet i msg (k, ws) =
    Some (if room (ws ! i) then (Success, (k + 3, enqueued Q msg i ws))
      else (if rx (wr_queue (ws ! i)) then QueueFull msg else QueueClosed msg, (k + 3, ws)))"
proof -
  have is_open: "\<not> (snap_worker_status (the_snapshot (wr_state (ws ! i))) = Exit
      \<or> snap_worker_status (the_snapshot (wr_state (ws ! i))) = Crashed)"
    using assms(3) by (simp add: secondary_ok_def accepts_secondary_def)
  show ?thesis
    using assms(2) is_open
    by (cases rule: try_send_cases [of "wr_queue (ws ! i)" msg])
      (simp_all add: push_at_def snapshot_at_quiet [OF assms(1,2)] access_quiet has_room_def
        enqueued_def)
qed

lemma pass1_quiet:
  assumes "pool_ok ws" and "sink < length ws"
  shows "\<exists>k'. route_pass1 Q quiet (length ws) n sink msg (k, ws) =
    Some (case List.find (\<lambda>i. primary_ok (ws ! i) \<and> room (ws ! i)) (ring (length ws) n sink) of
       Some i \<Rightarrow> (Inl (), (k', enqueued Q msg i ws))
     | None \<Rightarrow> (Inr (msg, (sink + n) mod length ws), (k', ws)))"
  using assms(2)
proof (induction n arbitrary: sink k)
  case (Suc n)
  have next_sink: "(sink + 1) mod length ws < length ws"
    using Suc.prems by (rule next_sink)
  note step = tests_quiet [OF assms(1) Suc.prems] push_at_quiet [OF assms(1) Suc.prems]
  show ?case
  proof (cases "primary_ok (ws ! sink) \<and> room (ws ! sink)")
    case True
    then have "secondary_ok (ws ! sink)" by (simp add: primary_imp_secondary)
    with True show ?thesis by (simp add: step)
  next
    case False
    have "\<exists>k''. route_pass1 Q quiet (length ws) (Suc n) sink msg (k, ws) =
        route_pass1 Q quiet (length ws) n ((sink + 1) mod length ws) msg (k'', ws)"
    proof (cases "primary_ok (ws ! sink)")
      case True
      then have "secondary_ok (ws ! sink)" by (simp add: primary_imp_secondary)
      with True False show ?thesis by (auto simp: step)
    qed (auto simp: step)
    then obtain k'' where "route_pass1 Q quiet (length ws) (Suc n) sink msg (k, ws) =
        route_pass1 Q quiet (length ws) n ((sink + 1) mod length ws) msg (k'', ws)" ..
    with Suc.IH [OF next_sink, of k''] False show ?thesis
      by (cases "List.find (\<lambda>i. primary_ok (ws ! i) \<and> room (ws ! i))
          (ring (length ws) n ((sink + 1) mod length ws))")
        (auto simp del: route_pass1.simps simp add: ring_end [simplified])
  qed
qed simp

lemma pass2_quiet:
  assumes "pool_ok ws" and "sink < length ws"
  shows "\<exists>k'. route_pass2 Q quiet (length ws) n sink live rb msg (k, ws) =
    Some (case List.find (\<lambda>i. secondary_ok (ws ! i) \<and> room (ws ! i)) (ring (length ws) n sink) of
       Some i \<Rightarrow> (Inl (), (k', enqueued Q msg i ws))
     | None \<Rightarrow> (Inr (msg,
         live \<or> (\<exists>i \<in> set (ring (length ws) n sink). secondary_ok (ws ! i) \<and> rx (wr_queue (ws ! i))),
         rb \<or> (\<exists>i \<in> set (ring (length ws) n sink). rebuilding (ws ! i))), (k', ws)))"
  using assms(2)
proof (induction n arbitrary: sink k live rb)
  case (Suc n)
  have next_sink: "(sink + 1) mod length ws < length ws"
    using Suc.prems by (rule next_sink)
  note step = tests_quiet [OF assms(1) Suc.prems] push_at_quiet [OF assms(1) Suc.prems]
  show ?case
  proof (cases "secondary_ok (ws ! sink) \<and> room (ws ! sink)")
    case True
    then show ?thesis by (simp add: step)
  next
    case False
    have "\<exists>k''. route_pass2 Q quiet (length ws) (Suc n) sink live rb msg (k, ws) =
        route_pass2 Q quiet (length ws) n ((sink + 1) mod length ws)
          (live \<or> secondary_ok (ws ! sink) \<and> rx (wr_queue (ws ! sink)))
          (rb \<or> rebuilding (ws ! sink)) msg (k'', ws)"
      using False secondary_not_rebuilding [of "ws ! sink"]
      by (cases "secondary_ok (ws ! sink)"; cases "rx (wr_queue (ws ! sink))") (auto simp: step)
    then obtain k'' where "route_pass2 Q quiet (length ws) (Suc n) sink live rb msg (k, ws) =
        route_pass2 Q quiet (length ws) n ((sink + 1) mod length ws)
          (live \<or> secondary_ok (ws ! sink) \<and> rx (wr_queue (ws ! sink)))
          (rb \<or> rebuilding (ws ! sink)) msg (k'', ws)" ..
    with False Suc.IH [OF next_sink, of "live \<or> secondary_ok (ws ! sink) \<and> rx (wr_queue (ws ! sink))"
        "rb \<or> rebuilding (ws ! sink)" k''] show ?thesis
      by (cases "List.find (\<lambda>i. secondary_ok (ws ! i) \<and> room (ws ! i))
          (ring (length ws) n ((sink + 1) mod length ws))")
        (auto simp del: route_pass2.simps)
  qed
qed simp

lemma try_push_quiet:
  fixes p :: "'q worker_pool"
  assumes ok: "pool_ok (wp_pool p)" and ne: "wp_pool p \<noteq> []"
  defines "ws \<equiv> wp_pool p"
  defines "p' \<equiv> (if is_single_worker p then p else p\<lparr>wp_start := wp_start p + 1\<rparr>)"
  shows "try_push Q quiet p msg =
    Some (case route_choice room (unat (wp_start p) mod length ws) ws of
       Some i \<Rightarrow> (Inr (), p'\<lparr>wp_pool := enqueued Q msg i ws\<rparr>)
     | None \<Rightarrow> (Inl (msg, if \<exists>w \<in> set ws. secondary_ok w \<and> rx (wr_queue w) \<or> rebuilding w
                        then QueueFullError else NoAvailableWorkersError), p'))"
proof (cases "is_single_worker p")
  case True
  then obtain w where w: "ws = [w]"
    by (auto simp: is_single_worker_def pool_len_def ws_def length_Suc_conv)
  have wsp: "wp_pool p = ws" and okw: "pool_ok ws" using ok by (simp_all add: ws_def)
  show ?thesis
    using True w okw tests_quiet [OF okw, of 0] push_at_quiet [OF okw, of 0]
      primary_imp_secondary [of w] secondary_not_rebuilding [of w]
    by (cases "secondary_ok w") (auto simp: try_push_def try_push_single_def wsp p'_def
        route_choice_def has_room_def)
next
  case False
  let ?sink = "unat (wp_start p) mod length ws"
  have okw: "pool_ok ws" and sink: "?sink < length ws"
    using ok ne by (simp_all add: ws_def)
  let ?p1 = "List.find (\<lambda>i. primary_ok (ws ! i) \<and> room (ws ! i)) (ring (length ws) (length ws) ?sink)"
  let ?p2 = "List.find (\<lambda>i. secondary_ok (ws ! i) \<and> room (ws ! i)) (ring (length ws) (length ws) ?sink)"
  have wrap: "(?sink + length ws) mod length ws = ?sink"
    using sink by simp
  from pass1_quiet [OF okw sink, of "length ws" msg 0, unfolded wrap] obtain k1 where
    one: "route_pass1 Q quiet (length ws) (length ws) ?sink msg (0, ws) =
      Some (case ?p1 of Some i \<Rightarrow> (Inl (), (k1, enqueued Q msg i ws))
        | None \<Rightarrow> (Inr (msg, ?sink), (k1, ws)))"
    by blast
  have all: "(\<exists>i \<in> set (ring (length ws) (length ws) ?sink). P i) \<longleftrightarrow> (\<exists>i<length ws. P i)" for P
    by (auto simp: set_full_ring [OF sink])
  from pass2_quiet [OF okw sink, of "length ws" False False msg k1, unfolded all] obtain k2 where
    two: "route_pass2 Q quiet (length ws) (length ws) ?sink False False msg (k1, ws) =
      Some (case ?p2 of Some i \<Rightarrow> (Inl (), (k2, enqueued Q msg i ws))
        | None \<Rightarrow> (Inr (msg, \<exists>i<length ws. secondary_ok (ws ! i) \<and> rx (wr_queue (ws ! i)),
            \<exists>i<length ws. rebuilding (ws ! i)), (k2, ws)))"
    unfolding simp_thms by blast
  have ex: "(\<exists>w \<in> set ws. secondary_ok w \<and> rx (wr_queue w) \<or> rebuilding w) \<longleftrightarrow>
      (\<exists>i<length ws. secondary_ok (ws ! i) \<and> rx (wr_queue (ws ! i))) \<or> (\<exists>i<length ws. rebuilding (ws ! i))"
    by (auto simp: Bex_def in_set_conv_nth)
  have "get_and_increment p = Some (?sink, p')"
    using ne False by (simp add: get_and_increment_def pool_len_def ws_def p'_def)
  moreover have "wp_pool p' = ws" "pool_len p = length ws"
    by (simp_all add: p'_def ws_def pool_len_def)
  ultimately show ?thesis
    using False one two
    by (cases ?p1; cases ?p2) (simp_all add: try_push_def try_push_ring_def route_choice_def ex)
qed

end

subsection \<open>One call under interference\<close>

text \<open>Whatever other threads do between the router's accesses, short of storing a byte that is no
  predictor status, the call does not panic, the pool keeps its size, and the message is either
  queued or handed back unchanged with one of the two routing errors.\<close>

definition env_ok :: "'q interference \<Rightarrow> bool" where
  "env_ok env \<longleftrightarrow> (\<forall>k w. ws_ok (wr_state w) \<longrightarrow> ws_ok (wr_state (env k w)))"

definition shared_ok :: "nat \<Rightarrow> 'q shared \<Rightarrow> bool" where
  "shared_ok n s \<longleftrightarrow> pool_ok (snd s) \<and> length (snd s) = n"

lemma shared_ok_update:
  "shared_ok n s \<Longrightarrow> ws_ok (wr_state w) \<Longrightarrow> shared_ok n (k, (snd s)[i := w])"
  unfolding shared_ok_def pool_ok_def using set_update_subset_insert [of "snd s" i w] by auto

lemma access_safe:
  assumes "env_ok env" and "shared_ok n s" and "i < n"
  obtains w s' where "access env i s = Some (w, s')" "ws_ok (wr_state w)" "shared_ok n s'"
proof -
  obtain k ws where s: "s = (k, ws)" by (cases s)
  have "ws_ok (wr_state (ws ! i))"
    using assms(2,3) by (simp add: s shared_ok_def pool_okD)
  then have w: "ws_ok (wr_state (env k (ws ! i)))"
    using assms(1) by (simp add: env_ok_def)
  show thesis
    using that [of "env k (ws ! i)" "(Suc k, ws[i := env k (ws ! i)])"] w assms(2,3)
      shared_ok_update [OF assms(2) w, of "Suc k" i]
    by (simp add: access_def s shared_ok_def Let_def)
qed

lemma snapshot_at_safe:
  assumes "env_ok env" and "shared_ok n s" and "i < n"
  obtains snap s' where "snapshot_at env i s = Some (snap, s')" "shared_ok n s'"
proof -
  obtain w1 s1 where 1: "access env i s = Some (w1, s1)" "shared_ok n s1"
    using access_safe [OF assms] by blast
  obtain w2 s2 where 2: "access env i s1 = Some (w2, s2)" "ws_ok (wr_state w2)" "shared_ok n s2"
    using access_safe [OF assms(1) 1(2) assms(3)] by blast
  obtain snap where "read_snapshot (ws_word (wr_state w1)) (ws_predictor (wr_state w2)) = Some snap"
    using get_predictor_state_eq [OF 2(2)]
    by (simp add: read_snapshot_def worker_status_of_word get_predictor_state_def)
  with 1 2 show thesis
    by (intro that [of snap s2]) (simp_all add: snapshot_at_def)
qed

lemma tests_safe:
  assumes "env_ok env" and "shared_ok n s" and "i < n"
  shows "\<exists>b s'. can_accept_primary_at env i s = Some (b, s') \<and> shared_ok n s'"
    and "\<exists>b s'. can_accept_secondary_at env i s = Some (b, s') \<and> shared_ok n s'"
    and "\<exists>b s'. is_rebuilding_at env i s = Some (b, s') \<and> shared_ok n s'"
proof -
  obtain snap s' where "snapshot_at env i s = Some (snap, s')" "shared_ok n s'"
    using snapshot_at_safe [OF assms] by blast
  then show "\<exists>b s'. can_accept_primary_at env i s = Some (b, s') \<and> shared_ok n s'"
    and "\<exists>b s'. can_accept_secondary_at env i s = Some (b, s') \<and> shared_ok n s'"
    and "\<exists>b s'. is_rebuilding_at env i s = Some (b, s') \<and> shared_ok n s'"
    by (auto simp: can_accept_primary_at_def can_accept_secondary_at_def is_rebuilding_at_def)
qed

context mpsc_channel
begin

lemma push_at_safe:
  assumes "env_ok env" and "shared_ok n s" and "i < n"
  obtains (Success) s' where "push_at Q env i msg s = Some (Success, s')" "shared_ok n s'"
    | (Full) s' where "push_at Q env i msg s = Some (QueueFull msg, s')" "shared_ok n s'"
    | (Closed) s' where "push_at Q env i msg s = Some (QueueClosed msg, s')" "shared_ok n s'"
proof -
  obtain snap s1 where 1: "snapshot_at env i s = Some (snap, s1)" "shared_ok n s1"
    using snapshot_at_safe [OF assms] by blast
  obtain w s2 where 2: "access env i s1 = Some (w, s2)" "ws_ok (wr_state w)" "shared_ok n s2"
    using access_safe [OF assms(1) 1(2) assms(3)] by blast
  show thesis
  proof (cases "snap_worker_status snap = Exit \<or> snap_worker_status snap = Crashed")
    case True
    with 1 show thesis using Closed by (simp add: push_at_def)
  next
    case False
    have upd: "shared_ok n (fst s2, (snd s2)[i := w\<lparr>wr_queue := q\<rparr>])" for q
      using shared_ok_update [OF 2(3)] 2(2) by simp
    moreover have "shared_ok n (fst s2, (snd s2)[i := w])"
      by (rule shared_ok_update [OF 2(3,2)])
    ultimately show thesis
      using False 1 2 Success Full Closed
      by (cases rule: try_send_cases [of "wr_queue w" msg]) (simp_all add: push_at_def Let_def)
  qed
qed

lemma pass1_safe:
  assumes "env_ok env" and "shared_ok n s" and "sink < n"
  shows "\<exists>r s'. route_pass1 Q env n m sink msg s = Some (r, s') \<and> shared_ok n s'
    \<and> (r = Inl () \<or> (\<exists>sink'<n. r = Inr (msg, sink')))"
  using assms(2,3)
proof (induction m arbitrary: sink s)
  case (Suc m)
  note IH = Suc.IH [OF _ next_sink [OF Suc.prems(2)]]
  obtain b s1 where 1: "can_accept_primary_at env sink s = Some (b, s1)" "shared_ok n s1"
    using tests_safe(1) [OF assms(1) Suc.prems] by blast
  show ?case
    using 1 IH
    by (cases rule: push_at_safe [OF assms(1) 1(2) Suc.prems(2), of msg]) (auto simp del: One_nat_def)
qed auto

lemma pass2_safe:
  assumes "env_ok env" and "shared_ok n s" and "sink < n"
  shows "\<exists>r s'. route_pass2 Q env n m sink live rb msg s = Some (r, s') \<and> shared_ok n s'
    \<and> (r = Inl () \<or> (\<exists>live' rb'. r = Inr (msg, live', rb')))"
  using assms(2,3)
proof (induction m arbitrary: sink s live rb)
  case (Suc m)
  note IH = Suc.IH [OF _ next_sink [OF Suc.prems(2)]]
  obtain b s1 where 1: "can_accept_secondary_at env sink s = Some (b, s1)" "shared_ok n s1"
    using tests_safe(2) [OF assms(1) Suc.prems] by blast
  obtain b' s2 where 2: "is_rebuilding_at env sink s1 = Some (b', s2)" "shared_ok n s2"
    using tests_safe(3) [OF assms(1) 1(2) Suc.prems(2)] by blast
  show ?case
    using 1 2 IH
    by (cases rule: push_at_safe [OF assms(1) 1(2) Suc.prems(2), of msg]) (auto simp del: One_nat_def)
qed auto

lemma try_push_safe:
  fixes p :: "'q worker_pool"
  assumes "env_ok env" and "pool_ok (wp_pool p)" and "wp_pool p \<noteq> []"
  shows "\<exists>r p'. try_push Q env p msg = Some (r, p') \<and> pool_ok (wp_pool p')
    \<and> length (wp_pool p') = length (wp_pool p)
    \<and> (r = Inr () \<or> r = Inl (msg, QueueFullError) \<or> r = Inl (msg, NoAvailableWorkersError))"
proof -
  let ?n = "length (wp_pool p)"
  have s: "shared_ok ?n (0, wp_pool p)" and n: "0 < ?n"
    using assms(2,3) by (simp_all add: shared_ok_def)
  show ?thesis
  proof (cases "is_single_worker p")
    case True
    obtain b s1 where 1: "can_accept_secondary_at env 0 (0, wp_pool p) = Some (b, s1)" "shared_ok ?n s1"
      using tests_safe(2) [OF assms(1) s n] by blast
    obtain b' s2 where 2: "is_rebuilding_at env 0 s1 = Some (b', s2)" "shared_ok ?n s2"
      using tests_safe(3) [OF assms(1) 1(2) n] by blast
    show ?thesis
      using True 1 2
      by (cases rule: push_at_safe [OF assms(1) 1(2) n, of msg])
        (auto simp: try_push_def try_push_single_def shared_ok_def)
  next
    case False
    let ?sink = "unat (wp_start p) mod ?n"
    have sink: "?sink < ?n" using n by simp
    obtain r1 s1 where 1: "route_pass1 Q env ?n ?n ?sink msg (0, wp_pool p) = Some (r1, s1)"
        "shared_ok ?n s1" "r1 = Inl () \<or> (\<exists>sink'<?n. r1 = Inr (msg, sink'))"
      using pass1_safe [OF assms(1) s sink] by blast
    have 2: "\<exists>r2 s2. route_pass2 Q env ?n ?n sink' False False msg s1 = Some (r2, s2)
        \<and> shared_ok ?n s2 \<and> (r2 = Inl () \<or> (\<exists>live' rb'. r2 = Inr (msg, live', rb')))"
      if "sink' < ?n" for sink'
      using pass2_safe [OF assms(1) 1(2) that] by blast
    show ?thesis
      using False assms(3) 1 2
      by (fastforce simp: try_push_def try_push_ring_def get_and_increment_def pool_len_def shared_ok_def)
  qed
qed

end

subsection \<open>Consecutive calls\<close>

text \<open>The start indices of \<open>n\<close> consecutive routing calls.\<close>

fun start_indices :: "nat \<Rightarrow> 'q worker_pool \<Rightarrow> nat list option" where
  "start_indices 0 p = Some []"
| "start_indices (Suc n) p = do {
     (sink, p') \<leftarrow> get_and_increment p;
     sinks \<leftarrow> start_indices n p';
     Some (sink # sinks)
   }"

lemma start_indices_eq:
  assumes "wp_pool p \<noteq> []" and "unat (wp_start p) + n \<le> 2 ^ 64"
  shows "start_indices n p = Some (map (\<lambda>k. (unat (wp_start p) + k) mod pool_len p) [0..<n])"
  using assms
proof (induction n arbitrary: p)
  case (Suc n)
  let ?p = "p\<lparr>wp_start := wp_start p + 1\<rparr>"
  have "n = 0 \<or> unat (wp_start p + 1) = unat (wp_start p) + 1"
    using Suc.prems(2) by (cases n) (simp_all add: unat_word_ariths)
  then have "start_indices n ?p = Some (map (\<lambda>k. (unat (wp_start p) + Suc k) mod pool_len p) [0..<n])"
    using Suc.IH [of ?p] Suc.prems by (auto simp: pool_len_def)
  moreover have "map (\<lambda>k. (unat (wp_start p) + k) mod pool_len p) [0..<Suc n] =
      unat (wp_start p) mod pool_len p # map (\<lambda>k. (unat (wp_start p) + Suc k) mod pool_len p) [0..<n]"
    by (simp add: upt_conv_Cons map_Suc_upt [symmetric] del: upt_Suc)
  ultimately show ?case
    using Suc.prems(1) by (simp add: get_and_increment_def pool_len_def)
qed simp

lemma shifted_residues:
  assumes "0 < (n :: nat)"
  shows "set (map (\<lambda>k. (a + k) mod n) [0..<n]) = {..<n}"
proof -
  have "(a + k) mod n = (a mod n + k) mod n" for k
    by (simp add: mod_simps)
  then have "map (\<lambda>k. (a + k) mod n) [0..<n] = ring n n (a mod n)"
    using assms by (intro nth_equalityI) (simp_all add: ring_nth)
  then show ?thesis
    using set_full_ring [of "a mod n" n] assms by simp
qed

lemma pool_status_from_quiet:
  assumes "pool_ok ws" and "i + n \<le> length ws"
  shows "\<exists>k'. pool_status_from quiet i n (k, ws) =
    Some (map (\<lambda>w. the_snapshot (wr_state w)) (take n (drop i ws)), (k', ws))"
  using assms(2)
proof (induction n arbitrary: i k)
  case (Suc n)
  then have "i < length ws" by simp
  with Suc.IH [of "Suc i" "k + 2"] Suc.prems show ?case
    by (auto simp: snapshot_at_quiet [OF assms(1)] Cons_nth_drop_Suc [symmetric])
qed simp

subsection \<open>Properties\<close>

text \<open>C21: Load-aware round robin. When no other thread interferes during the call, \<open>try_push\<close>
  does not panic and puts the request at the end of exactly one queue: that of the first worker, in
  ring order from the round-robin start, which waits with an alive predictor and room in its batch
  and whose queue has room, and if there is none, of the first which has not exited or crashed, has an
  alive predictor and room in its queue. If no worker takes it, the request comes back unchanged, with
  \<open>QueueFullError\<close> exactly when some worker is alive with an open queue or is rebuilding, and with
  \<open>NoAvailableWorkersError\<close> otherwise. Every other worker is untouched.\<close>

theorem try_push_routes:
  assumes "mpsc_channel Q items cap rx tx" and "pool_ok (wp_pool p)" and "wp_pool p \<noteq> []"
  shows "try_push Q quiet p msg =
    Some (let ws = wp_pool p;
              p' = (if is_single_worker p then p else p\<lparr>wp_start := wp_start p + 1\<rparr>)
          in case route_choice (has_room items cap rx) (unat (wp_start p) mod length ws) ws of
               Some i \<Rightarrow> (Inr (), p'\<lparr>wp_pool := enqueued Q msg i ws\<rparr>)
             | None \<Rightarrow> (Inl (msg, if \<exists>w \<in> set ws. secondary_ok w \<and> rx (wr_queue w) \<or> rebuilding w
                                then QueueFullError else NoAvailableWorkersError), p'))"
  unfolding Let_def by (rule mpsc_channel.try_push_quiet [OF assms])

definition demo_worker :: "predictor_status \<Rightarrow> nat list \<Rightarrow> nat fifo worker_ref" where
  "demo_worker st queued =
     \<lparr>wr_state = set_predictor_state st (new_worker_state \<lparr>ic_timeout = from_millis 5, ic_batch_size = 2\<rparr>),
      wr_queue = \<lparr>ff_items = queued, ff_cap = 2, ff_rx = True, ff_tx = True\<rparr>\<rparr>"

lemma demo_worker_tests [status_simps]:
  "primary_ok (demo_worker st q) \<longleftrightarrow> st = Alive"
  "secondary_ok (demo_worker st q) \<longleftrightarrow> st = Alive"
  "rebuilding (demo_worker st q) \<longleftrightarrow> st = Rebuilding"
  "ws_ok (wr_state (demo_worker st q))"
  "has_room ff_items ff_cap ff_rx (demo_worker st q) \<longleftrightarrow> length q < 2"
  by (simp_all add: primary_ok_def secondary_ok_def rebuilding_def demo_worker_def status_simps
      the_snapshot_def accepts_primary_def accepts_secondary_def snap_rebuilding_def
      ws_batch_size_def has_room_def)

theorem try_push_routes_witness:
  "try_push fifo_mpsc quiet \<lparr>wp_pool = [demo_worker Rebuilding [], demo_worker Alive [7]], wp_start = 4\<rparr> 9
    = Some (Inr (), \<lparr>wp_pool = [demo_worker Rebuilding [], demo_worker Alive [7, 9]], wp_start = 5\<rparr>)"
proof -
  let ?ws = "[demo_worker Rebuilding [], demo_worker Alive [7]]"
  have ok: "pool_ok ?ws" by (simp add: pool_ok_def status_simps)
  have "enqueued fifo_mpsc 9 1 ?ws = [demo_worker Rebuilding [], demo_worker Alive [7, 9]]"
    by (simp add: enqueued_def fifo_mpsc_def demo_worker_def)
  moreover have "route_choice (has_room ff_items ff_cap ff_rx) 0 ?ws = Some 1"
    by (simp add: route_choice_def status_simps)
  moreover have "unat (4 :: usize) mod length ?ws = 0" by (simp flip: numeral_2_eq_2)
  ultimately show ?thesis
    using try_push_routes [OF fifo.mpsc_channel_axioms, of "\<lparr>wp_pool = ?ws, wp_start = 4\<rparr>" 9] ok
    by (simp add: is_single_worker_def pool_len_def Let_def)
qed

text \<open>C34: The two status reads of a single-worker pool are not atomic together. If the worker's
  rebuild finishes between them, the first read says "not alive" and the second "not rebuilding":
  \<open>try_push\<close> answers \<open>NoAvailableWorkersError\<close> although the worker was never dead, is healthy when
  the call returns, and would have been answered \<open>QueueFullError\<close> before the change and accepted
  after it.\<close>

theorem rebuild_finishing_during_try_push:
  assumes "is_single_worker p" and "ws_ok (wr_state (hd (wp_pool p)))"
    and "the_status (wr_state (hd (wp_pool p))) = Waiting"
    and "the_predictor (wr_state (hd (wp_pool p))) = Rebuilding"
  defines "finish_rebuild \<equiv>
    (\<lambda>k w. if k = 2 then w\<lparr>wr_state := set_predictor_state Alive (wr_state w)\<rparr> else w)"
  shows "\<exists>p'. try_push Q finish_rebuild p msg = Some (Inl (msg, NoAvailableWorkersError), p')
    \<and> the_predictor (wr_state (hd (wp_pool p'))) = Alive
    \<and> can_accept_secondary (wr_state (hd (wp_pool p'))) = Some True"
proof -
  obtain w where w: "wp_pool p = [w]"
    using assms(1) by (auto simp: is_single_worker_def pool_len_def length_Suc_conv)
  let ?w = "w\<lparr>wr_state := set_predictor_state Alive (wr_state w)\<rparr>"
  have ok: "ws_ok (wr_state w)" "ws_ok (wr_state ?w)"
    using assms(2) w by simp_all
  have snaps: "read_snapshot (ws_word (wr_state v)) (ws_predictor (wr_state v)) =
      Some (the_snapshot (wr_state v))" if "ws_ok (wr_state v)" for v :: "'a worker_ref"
    using snapshot_eq [OF that] by (simp add: snapshot_def)
  have "can_accept_secondary_at finish_rebuild 0 (0, [w]) = Some (False, (2, [w]))"
    using snaps [OF ok(1)] assms(4) w
    by (simp add: can_accept_secondary_at_def snapshot_at_def access_def finish_rebuild_def
        accepts_secondary_def the_snapshot_def)
  moreover have "is_rebuilding_at finish_rebuild 0 (2, [w]) = Some (False, (4, [?w]))"
    using snaps [OF ok(2)]
    by (simp add: is_rebuilding_at_def snapshot_at_def access_def finish_rebuild_def
        snap_rebuilding_def the_snapshot_def status_simps Let_def)
  moreover have "can_accept_secondary (wr_state ?w) = Some True"
    using ok(2) assms(3) w
    by (simp add: can_accept_secondary_def snapshot_eq accepts_secondary_def the_snapshot_def status_simps)
  ultimately show ?thesis
    using assms(1) w by (simp add: try_push_def try_push_single_def status_simps)
qed

theorem rebuild_finishing_during_try_push_witness:
  "\<exists>p'. try_push fifo_mpsc
      (\<lambda>k w. if k = 2 then w\<lparr>wr_state := set_predictor_state Alive (wr_state w)\<rparr> else w)
      \<lparr>wp_pool = [demo_worker Rebuilding []], wp_start = 0\<rparr> 9
    = Some (Inl (9, NoAvailableWorkersError), p') \<and> the_predictor (wr_state (hd (wp_pool p'))) = Alive"
  using rebuild_finishing_during_try_push
    [of "\<lparr>wp_pool = [demo_worker Rebuilding []], wp_start = 0\<rparr>" fifo_mpsc 9]
  by (auto simp: is_single_worker_def pool_len_def status_simps)
    (auto simp: demo_worker_def status_simps)

text \<open>Round robin is fair: as long as the shared start counter does not wrap around, any
  \<open>pool_size\<close> consecutive routing calls start their search at \<open>pool_size\<close> different workers, in ring
  order, so each worker is tried first exactly once.\<close>

theorem round_robin_visits_every_worker:
  assumes "wp_pool p \<noteq> []" and "unat (wp_start p) + pool_len p \<le> 2 ^ 64"
  shows "\<exists>sinks. start_indices (pool_len p) p = Some sinks
    \<and> sinks = map (\<lambda>k. (unat (wp_start p) + k) mod pool_len p) [0..<pool_len p]
    \<and> set sinks = {..<pool_len p} \<and> distinct sinks"
proof -
  have pos: "0 < pool_len p" using assms(1) by (simp add: pool_len_def)
  let ?sinks = "map (\<lambda>k. (unat (wp_start p) + k) mod pool_len p) [0..<pool_len p]"
  have "set ?sinks = {..<pool_len p}"
    by (rule shifted_residues [OF pos])
  moreover from this have "distinct ?sinks"
    by (intro card_distinct) simp
  ultimately show ?thesis
    using start_indices_eq [OF assms] by simp
qed

theorem round_robin_visits_every_worker_witness:
  "\<exists>sinks. start_indices 3 \<lparr>wp_pool = replicate 3 (demo_worker Alive []), wp_start = 7\<rparr> = Some sinks
    \<and> set sinks = {..<3} \<and> distinct sinks"
  using round_robin_visits_every_worker
    [of "\<lparr>wp_pool = replicate 3 (demo_worker Alive []), wp_start = 7\<rparr>"]
  by (auto simp: pool_len_def)

text \<open>The status methods read the workers: with no interference \<open>pool_status\<close> lists the snapshot of
  every worker in order, without a panic, and \<open>worker_status\<close> is the entry at its index or nothing
  out of bounds.\<close>

theorem pool_status_lists_workers:
  assumes "pool_ok (wp_pool p)"
  shows "\<exists>snaps. pool_status quiet p = Some snaps \<and> length snaps = pool_len p
    \<and> snaps = map (\<lambda>w. the_snapshot (wr_state w)) (wp_pool p)
    \<and> pool_worker_status quiet p idx = Some (if idx < pool_len p then Some (snaps ! idx) else None)"
proof -
  have "pool_status quiet p = Some (map (\<lambda>w. the_snapshot (wr_state w)) (wp_pool p))"
    using pool_status_from_quiet [OF assms, of 0 "pool_len p" 0] by (auto simp: pool_status_def pool_len_def)
  then show ?thesis
    by (auto simp: pool_worker_status_def pool_len_def snapshot_at_quiet [OF assms])
qed

theorem pool_status_lists_workers_witness:
  "\<exists>snaps. pool_status quiet \<lparr>wp_pool = [demo_worker Rebuilding [], demo_worker Alive [7]], wp_start = 0\<rparr> = Some snaps
    \<and> map snap_predictor_status snaps = [Rebuilding, Alive]"
proof -
  have "pool_ok [demo_worker Rebuilding [], demo_worker Alive [7]]"
    by (simp add: pool_ok_def status_simps)
  with pool_status_lists_workers [of "\<lparr>wp_pool = [demo_worker Rebuilding [], demo_worker Alive [7]], wp_start = 0\<rparr>" 0]
  show ?thesis
    by (auto simp: the_snapshot_def demo_worker_def status_simps)
qed

end
