(* ===== verification/Router_Steps.thy ===== *)
theory Router_Steps
  imports Worker_Pool
begin

text \<open>
  The router as a machine. \<open>try_push\<close> of \<open>Worker_Pool\<close> runs a whole call; to interleave it with the
  workers, \<open>route_step\<close> executes it from one access of a worker to the next. A point (\<open>route_pc\<close>)
  names the access that comes next, with what is known so far: the message, the place in the search
  (the only worker of the pool, or pass one or two with the number of workers after this one) and
  the index of the worker. \<open>Check\<close>, \<open>Recheck\<close> and \<open>Push\<close> are about to load the status word for
  \<open>can_accept\<close>, \<open>is_rebuilding\<close> and \<open>push\<close>, the points with \<open>Byte\<close> have loaded it, and \<open>Send\<close> is about
  to call \<open>try_send\<close>.

  \<open>route_run\<close> runs the machine under interference, and is proved equal to \<open>try_push\<close>.
\<close>

datatype route_place = Only | First nat | Second nat bool bool

datatype ('m, 'e) route_pc =
    Check 'm route_place nat
  | CheckByte 'm route_place nat u64
  | Recheck 'm route_place nat
  | RecheckByte 'm route_place nat u64
  | Push 'm route_place nat
  | PushByte 'm route_place nat u64
  | Send 'm route_place nat
  | Routed "('m, 'e) try_push_result"
  | RoutePanic

text \<open>The result of the search when both passes have failed, and the step to the next worker.\<close>

definition route_verdict :: "bool \<Rightarrow> bool \<Rightarrow> 'e batchinf_error" where
  "route_verdict live rb = (if live \<or> rb then QueueFullError else NoAvailableWorkersError)"

fun route_next :: "nat \<Rightarrow> 'm \<Rightarrow> route_place \<Rightarrow> nat \<Rightarrow> ('m, 'e) route_pc" where
  "route_next sz msg Only sink = Routed (Inl (msg, NoAvailableWorkersError))"
| "route_next sz msg (First (Suc n)) sink = Check msg (First n) ((sink + 1) mod sz)"
| "route_next sz msg (First 0) sink = Check msg (Second (sz - 1) False False) ((sink + 1) mod sz)"
| "route_next sz msg (Second (Suc n) live rb) sink = Check msg (Second n live rb) ((sink + 1) mod sz)"
| "route_next sz msg (Second 0 live rb) sink = Routed (Inl (msg, route_verdict live rb))"

text \<open>After a failed \<open>can_accept\<close>, after \<open>is_rebuilding\<close>, and after a push.\<close>

fun route_rejected :: "nat \<Rightarrow> 'm \<Rightarrow> route_place \<Rightarrow> nat \<Rightarrow> ('m, 'e) route_pc" where
  "route_rejected sz msg (First n) sink = route_next sz msg (First n) sink"
| "route_rejected sz msg place sink = Recheck msg place sink"

fun route_rechecked :: "nat \<Rightarrow> bool \<Rightarrow> 'm \<Rightarrow> route_place \<Rightarrow> nat \<Rightarrow> ('m, 'e) route_pc" where
  "route_rechecked sz rb msg Only sink = Routed (Inl (msg, if rb then QueueFullError else NoAvailableWorkersError))"
| "route_rechecked sz rb msg (First n) sink = route_next sz msg (First n) sink"
| "route_rechecked sz rb msg (Second n live rb') sink = route_next sz msg (Second n live (rb' \<or> rb)) sink"

fun route_pushed :: "nat \<Rightarrow> route_place \<Rightarrow> nat \<Rightarrow> 'm queue_push_result \<Rightarrow> ('m, 'e) route_pc" where
  "route_pushed sz place sink Success = Routed (Inr ())"
| "route_pushed sz Only sink (QueueFull m) = Routed (Inl (m, QueueFullError))"
| "route_pushed sz (Second n live rb) sink (QueueFull m) = route_next sz m (Second n True rb) sink"
| "route_pushed sz place sink (QueueFull m) = route_next sz m place sink"
| "route_pushed sz place sink (QueueClosed m) = route_next sz m place sink"

fun route_accepts :: "route_place \<Rightarrow> worker_state \<Rightarrow> worker_snapshot \<Rightarrow> bool" where
  "route_accepts (First n) st snap = accepts_primary (ws_batch_size st) snap"
| "route_accepts place st snap = accepts_secondary snap"

text \<open>One access of the worker: the next point, and the worker as the access leaves it.\<close>

fun route_step ::
  "('q, 'm) mpsc \<Rightarrow> nat \<Rightarrow> 'q worker_ref \<Rightarrow> ('m, 'e) route_pc \<Rightarrow> ('m, 'e) route_pc \<times> 'q worker_ref" where
  "route_step Q sz w (Check msg place sink) = (CheckByte msg place sink (ws_word (wr_state w)), w)"
| "route_step Q sz w (CheckByte msg place sink word) =
     (case read_snapshot word (ws_predictor (wr_state w)) of
        None \<Rightarrow> (RoutePanic, w)
      | Some snap \<Rightarrow>
          (if route_accepts place (wr_state w) snap then Push msg place sink
           else route_rejected sz msg place sink, w))"
| "route_step Q sz w (Recheck msg place sink) = (RecheckByte msg place sink (ws_word (wr_state w)), w)"
| "route_step Q sz w (RecheckByte msg place sink word) =
     (case read_snapshot word (ws_predictor (wr_state w)) of
        None \<Rightarrow> (RoutePanic, w)
      | Some snap \<Rightarrow> (route_rechecked sz (snap_rebuilding snap) msg place sink, w))"
| "route_step Q sz w (Push msg place sink) = (PushByte msg place sink (ws_word (wr_state w)), w)"
| "route_step Q sz w (PushByte msg place sink word) =
     (case read_snapshot word (ws_predictor (wr_state w)) of
        None \<Rightarrow> (RoutePanic, w)
      | Some snap \<Rightarrow>
          (if snap_worker_status snap = Exit \<or> snap_worker_status snap = Crashed
           then route_pushed sz place sink (QueueClosed msg) else Send msg place sink, w))"
| "route_step Q sz w (Send msg place sink) =
     (case mp_try_send Q msg (wr_queue w) of (r, q) \<Rightarrow>
        (route_pushed sz place sink
           (case r of SendOk \<Rightarrow> Success | SendFull m \<Rightarrow> QueueFull m | SendClosed m \<Rightarrow> QueueClosed m),
         w\<lparr>wr_queue := q\<rparr>))"
| "route_step Q sz w pc = (pc, w)"

text \<open>The worker the next access goes to; none once the call is over.\<close>

fun route_target :: "('m, 'e) route_pc \<Rightarrow> nat option" where
  "route_target (Check msg place sink) = Some sink"
| "route_target (CheckByte msg place sink word) = Some sink"
| "route_target (Recheck msg place sink) = Some sink"
| "route_target (RecheckByte msg place sink word) = Some sink"
| "route_target (Push msg place sink) = Some sink"
| "route_target (PushByte msg place sink word) = Some sink"
| "route_target (Send msg place sink) = Some sink"
| "route_target (Routed r) = None"
| "route_target RoutePanic = None"

text \<open>The first point of a call, from the pool's size and the start counter, with the counter after it.\<close>

definition route_start :: "nat \<Rightarrow> usize \<Rightarrow> 'm \<Rightarrow> ('m, 'e) route_pc \<times> usize" where
  "route_start sz start msg =
     (if sz = 1 then (Check msg Only 0, start)
      else if sz = 0 then (RoutePanic, start)
      else (Check msg (First (sz - 1)) (unat start mod sz), start + 1))"

subsection \<open>The machine stops\<close>

fun places_left :: "nat \<Rightarrow> route_place \<Rightarrow> nat" where
  "places_left sz Only = 0"
| "places_left sz (First n) = Suc n + (sz - 1)"
| "places_left sz (Second n live rb) = n"

fun route_rank :: "nat \<Rightarrow> ('m, 'e) route_pc \<Rightarrow> nat" where
  "route_rank sz (Check msg place sink) = 6 * places_left sz place + 5"
| "route_rank sz (CheckByte msg place sink word) = 6 * places_left sz place + 4"
| "route_rank sz (Push msg place sink) = 6 * places_left sz place + 3"
| "route_rank sz (PushByte msg place sink word) = 6 * places_left sz place + 2"
| "route_rank sz (Send msg place sink) = 6 * places_left sz place + 1"
| "route_rank sz (Recheck msg place sink) = 6 * places_left sz place + 2"
| "route_rank sz (RecheckByte msg place sink word) = 6 * places_left sz place + 1"
| "route_rank sz (Routed r) = 0"
| "route_rank sz RoutePanic = 0"

lemma route_next_rank: "6 * places_left sz place < n \<Longrightarrow> route_rank sz (route_next sz msg place sink) < n"
  by (cases "(sz, msg, place, sink)" rule: route_next.cases) simp_all

lemma route_rejected_rank:
  "6 * places_left sz place + 2 < n \<Longrightarrow> route_rank sz (route_rejected sz msg place sink) < n"
  by (cases place) (auto intro!: route_next_rank)

lemma route_rechecked_rank:
  "6 * places_left sz place < n \<Longrightarrow> route_rank sz (route_rechecked sz rb msg place sink) < n"
  by (cases place) (auto intro!: route_next_rank)

lemma route_pushed_rank:
  "6 * places_left sz place < n \<Longrightarrow> route_rank sz (route_pushed sz place sink r) < n"
  by (cases "(sz, place, sink, r)" rule: route_pushed.cases) (auto intro!: route_next_rank)

lemma route_step_rank:
  assumes "route_target pc = Some i" and "route_step Q sz w pc = (pc', w')"
  shows "route_rank sz pc' < route_rank sz pc"
  using assms
  by (cases pc)
    (auto split: option.splits prod.splits if_splits simp del: route_pushed.simps
      intro!: route_rejected_rank route_rechecked_rank route_pushed_rank)

function route_run ::
  "('q, 'm) mpsc \<Rightarrow> 'q interference \<Rightarrow> nat \<Rightarrow> ('m, 'e) route_pc \<Rightarrow> 'q shared
     \<Rightarrow> (('m, 'e) try_push_result \<times> 'q shared) option" where
  "route_run Q env sz pc s =
     (case route_target pc of
        None \<Rightarrow> (case pc of Routed r \<Rightarrow> Some (r, s) | _ \<Rightarrow> None)
      | Some i \<Rightarrow>
          (case access env i s of
             None \<Rightarrow> None
           | Some (w, s1) \<Rightarrow>
               (case route_step Q sz w pc of (pc', w') \<Rightarrow>
                  route_run Q env sz pc' (fst s1, (snd s1)[i := w']))))"
  by pat_completeness auto
termination
  by (relation "measure (\<lambda>(Q, env, sz, pc, s). route_rank sz pc)") (auto dest: route_step_rank [OF _ sym])

declare route_run.simps [simp del]

subsection \<open>Running it is calling \<open>try_push\<close>\<close>

lemma route_run_Routed [simp]:
  "route_run Q env sz (Routed r) s = Some (r, s)" "route_run Q env sz RoutePanic s = None"
  by (simp_all add: route_run.simps)

lemma route_run_check:
  "route_run Q env sz (Check msg place i) s = do {
     (snap, s1) \<leftarrow> snapshot_at env i s;
     route_run Q env sz (if route_accepts place (wr_state (snd s1 ! i)) snap then Push msg place i
       else route_rejected sz msg place i) s1
   }"
  by (auto simp: route_run.simps [of Q env sz "Check msg place i"] route_run.simps [of Q env sz "CheckByte msg place i w" for w]
      snapshot_at_def access_def Let_def split: option.splits prod.splits)

lemma route_run_recheck:
  "route_run Q env sz (Recheck msg place i) s = do {
     (rb, s1) \<leftarrow> is_rebuilding_at env i s;
     route_run Q env sz (route_rechecked sz rb msg place i) s1
   }"
  by (auto simp: route_run.simps [of Q env sz "Recheck msg place i"]
      route_run.simps [of Q env sz "RecheckByte msg place i w" for w]
      is_rebuilding_at_def snapshot_at_def access_def Let_def split: option.splits prod.splits)

lemma route_run_push:
  "route_run Q env sz (Push msg place i) s = do {
     (r, s1) \<leftarrow> push_at Q env i msg s;
     route_run Q env sz (route_pushed sz place i r) s1
   }"
  by (auto simp: route_run.simps [of Q env sz "Push msg place i"]
      route_run.simps [of Q env sz "PushByte msg place i w" for w]
      route_run.simps [of Q env sz "Send msg place i"]
      push_at_def snapshot_at_def access_def Let_def simp del: route_pushed.simps
      split: option.splits prod.splits send_outcome.splits)

lemmas route_run_calls = route_run_check route_run_recheck route_run_push

lemma route_run_pass2:
  "route_run Q env sz (Check msg (Second n live rb) sink) s = do {
     (r, s1) \<leftarrow> route_pass2 Q env sz (Suc n) sink live rb msg s;
     Some (case r of Inl _ \<Rightarrow> Inr () | Inr (m, l, b) \<Rightarrow> Inl (m, route_verdict l b), s1)
   }"
proof (induction n arbitrary: sink live rb msg s)
  case 0
  show ?case
    by (auto simp: route_run_calls can_accept_secondary_at_def
        split: Option.bind_splits queue_push_result.splits)
next
  case (Suc n)
  show ?case
    by (subst route_run_check, subst route_pass2.simps)
      (auto simp: route_run_recheck route_run_push can_accept_secondary_at_def Suc.IH simp del: route_pass2.simps
        split: Option.bind_splits queue_push_result.splits)
qed

lemma route_run_pass1:
  "route_run Q env sz (Check msg (First n) sink) s = do {
     (r, s1) \<leftarrow> route_pass1 Q env sz (Suc n) sink msg s;
     (case r of
        Inl _ \<Rightarrow> Some (Inr (), s1)
      | Inr (m, sink') \<Rightarrow> route_run Q env sz (Check m (Second (sz - 1) False False) sink') s1)
   }"
proof (induction n arbitrary: sink msg s)
  case 0
  show ?case
    by (subst route_run_check)
      (auto simp: route_run_push can_accept_primary_at_def
        split: Option.bind_splits queue_push_result.splits)
next
  case (Suc n)
  show ?case
    by (subst route_run_check, subst route_pass1.simps)
      (auto simp: route_run_push can_accept_primary_at_def Suc.IH simp del: route_pass1.simps
        split: Option.bind_splits queue_push_result.splits)
qed

lemma route_run_single:
  "route_run Q env sz (Check msg Only 0) s = try_push_single Q env msg s"
  by (subst route_run_check)
    (auto simp: route_run_calls try_push_single_def can_accept_secondary_at_def
      split: Option.bind_splits queue_push_result.splits)

lemma route_run_ring:
  "0 < sz \<Longrightarrow> route_run Q env sz (Check msg (First (sz - 1)) sink) s = try_push_ring Q env sz sink msg s"
  by (auto simp: route_run_pass1 route_run_pass2 try_push_ring_def route_verdict_def
      simp del: route_pass1.simps route_pass2.simps split: Option.bind_splits sum.splits)

text \<open>The machine is the code. For every pool, message and interference of other threads, running
  the router from one access to the next, from the first point of a call, takes finitely many
  accesses and gives exactly what the call of \<open>try_push\<close> gives: the same panic or result, the same
  workers and the same start counter.\<close>

theorem route_machine_is_try_push:
  "try_push Q env p msg =
     (case route_start (pool_len p) (wp_start p) msg of (pc, start) \<Rightarrow>
        map_option (\<lambda>(r, s). (r, p\<lparr>wp_pool := snd s, wp_start := start\<rparr>))
          (route_run Q env (pool_len p) pc (0, wp_pool p)))"
proof (cases "is_single_worker p")
  case True
  then show ?thesis
    by (auto simp: try_push_def route_start_def is_single_worker_def route_run_single
        split: Option.bind_splits)
next
  case False
  then show ?thesis
    by (auto simp: try_push_def route_start_def is_single_worker_def get_and_increment_def pool_len_def
        route_run_ring [simplified] split: Option.bind_splits)
qed

end
