(* ===== verification/Notify.thy ===== *)
theory Notify
  imports Prelude "HOL-Library.AList"
begin

text \<open>
  The signal by which workers wake callers that wait for room is a \<open>tokio::sync::Notify\<close>, which is
  not part of the repository. Like the channels it is a parameter: the record \<open>notify\<close> holds the
  operations the code performs on it and the locale \<open>notify_signal\<close> states what tokio documents of
  them. A caller is named by a number and has at most one \<open>Notified\<close> future at a time; \<open>nt_enable\<close>
  is \<open>notified()\<close> followed by \<open>enable()\<close>, \<open>nt_finish\<close> the end of an \<open>await\<close> that was ready, and
  \<open>nt_drop\<close> the drop of a future that was not awaited to its end.

  \<open>fifo_notify\<close>, which wakes the caller that registered first, meets the contract and runs the
  witnesses.
\<close>

text \<open>A future that waits, one woken by \<open>notify_one\<close>, one woken by \<open>notify_waiters\<close>, and one that
  took the stored permit when it was enabled.\<close>

datatype notified = Armed | WokenOne | WokenAll | HadPermit

record 'n notify =
  nt_new :: 'n
  nt_enable :: "nat \<Rightarrow> 'n \<Rightarrow> 'n"
  nt_ready :: "nat \<Rightarrow> 'n \<Rightarrow> bool"
  nt_finish :: "nat \<Rightarrow> 'n \<Rightarrow> 'n"
  nt_drop :: "nat \<Rightarrow> 'n \<Rightarrow> 'n"
  nt_notify_one :: "'n \<Rightarrow> 'n"
  nt_notify_waiters :: "'n \<Rightarrow> 'n"

text \<open>One notification: a waiting future gets it, or it is stored as the permit if none waits.\<close>

definition wakes_one ::
  "bool \<times> (nat \<Rightarrow> notified option) \<Rightarrow> bool \<times> (nat \<Rightarrow> notified option) \<Rightarrow> bool" where
  "wakes_one n n' \<longleftrightarrow>
     (if \<exists>c. snd n c = Some Armed
      then \<exists>c. snd n c = Some Armed \<and> n' = (fst n, (snd n)(c \<mapsto> WokenOne))
      else n' = (True, snd n))"

locale notify_signal =
  fixes N :: "'n notify"
    and permit :: "'n \<Rightarrow> bool"
    and fut :: "'n \<Rightarrow> nat \<Rightarrow> notified option"
  assumes notify_new: "\<not> permit (nt_new N)" "fut (nt_new N) c = None"
    and enable: "fut n c = None \<Longrightarrow> fut (nt_enable N c n) = (fut n)(c \<mapsto> if permit n then HadPermit else Armed)"
    and enable_permit: "fut n c = None \<Longrightarrow> \<not> permit (nt_enable N c n)"
    and ready: "nt_ready N c n \<longleftrightarrow> (\<exists>f. fut n c = Some f \<and> f \<noteq> Armed)"
    and finish: "nt_ready N c n \<Longrightarrow> fut (nt_finish N c n) = (fut n)(c := None)"
    and finish_permit: "nt_ready N c n \<Longrightarrow> permit (nt_finish N c n) = permit n"
    and drop_plain: "fut n c \<noteq> Some WokenOne \<Longrightarrow> fut (nt_drop N c n) = (fut n)(c := None)"
    and drop_permit: "fut n c \<noteq> Some WokenOne \<Longrightarrow> permit (nt_drop N c n) = permit n"
    and drop_forwards: "fut n c = Some WokenOne \<Longrightarrow>
      wakes_one (permit n, (fut n)(c := None)) (permit (nt_drop N c n), fut (nt_drop N c n))"
    and notify_one: "wakes_one (permit n, fut n) (permit (nt_notify_one N n), fut (nt_notify_one N n))"
    and notify_waiters: "fut (nt_notify_waiters N n) =
      (\<lambda>c. if fut n c = Some Armed then Some WokenAll else fut n c)"
    and notify_waiters_permit: "permit (nt_notify_waiters N n) = permit n"
begin

text \<open>After a notification either somebody has been woken or nobody waits.\<close>

lemma wakes_one_cases:
  assumes "wakes_one (p, f) (p', f')"
  obtains (Woken) c where "f c = Some Armed" "f' = f(c \<mapsto> WokenOne)"
    | (Nobody) "\<And>c. f c \<noteq> Some Armed" "f' = f"
  using assms by (cases "\<exists>c. f c = Some Armed") (auto simp: wakes_one_def)

lemma notify_one_keys: "fut (nt_notify_one N n) c = None \<longleftrightarrow> fut n c = None"
  using notify_one [of n] by (cases rule: wakes_one_cases) (auto split: if_splits)

lemma notify_waiters_keys: "fut (nt_notify_waiters N n) c = None \<longleftrightarrow> fut n c = None"
  by (simp add: notify_waiters)

lemma drop_keys: "fut (nt_drop N c n) d = None \<longleftrightarrow> fut n d = None \<or> d = c"
proof (cases "fut n c = Some WokenOne")
  case True
  from drop_forwards [OF this] show ?thesis
    by (cases rule: wakes_one_cases) (auto split: if_splits)
qed (simp add: drop_plain)

end

subsection \<open>A signal that meets the contract\<close>

record fifo_signal =
  fs_permit :: bool
  fs_futures :: "(nat \<times> notified) list"

definition fs_wake :: "fifo_signal \<Rightarrow> fifo_signal" where
  "fs_wake n =
     (case filter (\<lambda>c. map_of (fs_futures n) c = Some Armed) (map fst (fs_futures n)) of
        [] \<Rightarrow> n\<lparr>fs_permit := True\<rparr>
      | c # _ \<Rightarrow> n\<lparr>fs_futures := AList.update c WokenOne (fs_futures n)\<rparr>)"

definition fs_forget :: "nat \<Rightarrow> fifo_signal \<Rightarrow> fifo_signal" where
  "fs_forget c n = n\<lparr>fs_futures := AList.delete c (fs_futures n)\<rparr>"

definition fifo_notify :: "fifo_signal notify" where
  "fifo_notify =
     \<lparr>nt_new = \<lparr>fs_permit = False, fs_futures = []\<rparr>,
      nt_enable = (\<lambda>c n. \<lparr>fs_permit = False,
        fs_futures = fs_futures n @ [(c, if fs_permit n then HadPermit else Armed)]\<rparr>),
      nt_ready = (\<lambda>c n. case map_of (fs_futures n) c of None \<Rightarrow> False | Some f \<Rightarrow> f \<noteq> Armed),
      nt_finish = fs_forget,
      nt_drop = (\<lambda>c n. if map_of (fs_futures n) c = Some WokenOne then fs_wake (fs_forget c n)
        else fs_forget c n),
      nt_notify_one = fs_wake,
      nt_notify_waiters = (\<lambda>n. n\<lparr>fs_futures :=
        map (\<lambda>(c, f). (c, if f = Armed then WokenAll else f)) (fs_futures n)\<rparr>)\<rparr>"

lemma fs_forget_simps [simp]:
  "map_of (fs_futures (fs_forget c n)) = (map_of (fs_futures n))(c := None)"
  "fs_permit (fs_forget c n) = fs_permit n"
  by (simp_all add: fs_forget_def delete_conv')

lemma fs_wake_wakes_one:
  "wakes_one (fs_permit n, map_of (fs_futures n)) (fs_permit (fs_wake n), map_of (fs_futures (fs_wake n)))"
proof (cases "filter (\<lambda>c. map_of (fs_futures n) c = Some Armed) (map fst (fs_futures n))")
  case Nil
  then have "map_of (fs_futures n) c \<noteq> Some Armed" for c
    using map_of_SomeD [of "fs_futures n" c Armed] by (force simp: filter_empty_conv)
  with Nil show ?thesis
    by (simp add: wakes_one_def fs_wake_def)
next
  case (Cons c cs)
  then have "map_of (fs_futures n) c = Some Armed"
    by (auto simp: filter_eq_Cons_iff)
  moreover have "map_of (AList.update c WokenOne (fs_futures n)) = (map_of (fs_futures n))(c \<mapsto> WokenOne)"
    by (rule update_conv')
  ultimately show ?thesis
    using Cons by (auto simp: wakes_one_def fs_wake_def)
qed

interpretation fifo_sig: notify_signal fifo_notify fs_permit "\<lambda>n. map_of (fs_futures n)"
proof unfold_locales
  fix n :: fifo_signal
  have "map_of (fs_futures (nt_notify_waiters fifo_notify n)) =
      map_option (\<lambda>f. if f = Armed then WokenAll else f) \<circ> map_of (fs_futures n)"
    by (simp add: fifo_notify_def map_of_map)
  then show "map_of (fs_futures (nt_notify_waiters fifo_notify n)) =
      (\<lambda>c. if map_of (fs_futures n) c = Some Armed then Some WokenAll else map_of (fs_futures n) c)"
    by (auto simp: fun_eq_iff map_option_case split: option.split)
qed (auto simp: fifo_notify_def fs_wake_wakes_one fun_eq_iff map_add_def
      intro: fs_wake_wakes_one [of "fs_forget c n" for c n, simplified] split: option.splits)

end
