(* ===== verification/Worker_Buffer.thy ===== *)
theory Worker_Buffer
  imports Observability
begin

text \<open>
  The request buffer of a worker (\<open>src/worker/buffer.rs\<close>): the inputs of a batch and the senders
  their results go to, in two vectors that must stay element-wise pairs. Capacities are an
  allocation detail and are left out (with them the debug assertions comparing capacities). An
  index out of range panics: \<open>None\<close>.
\<close>

record ('i, 's) worker_buffer =
  sender_buffer :: "'s list"
  input_buffer :: "'i list"

definition new_buffer :: "('i, 's) worker_buffer" where
  "new_buffer = \<lparr>sender_buffer = [], input_buffer = []\<rparr>"

text \<open>\<open>swap_replace\<close>: the old buffer, and the fresh one left in its place.\<close>

definition swap_replace :: "('i, 's) worker_buffer \<Rightarrow> ('i, 's) worker_buffer \<times> ('i, 's) worker_buffer" where
  "swap_replace b = (b, new_buffer)"

definition buffer_push :: "'i \<Rightarrow> 's \<Rightarrow> ('i, 's) worker_buffer \<Rightarrow> ('i, 's) worker_buffer" where
  "buffer_push request sender b =
     b\<lparr>sender_buffer := sender_buffer b @ [sender], input_buffer := input_buffer b @ [request]\<rparr>"

definition buffer_len :: "('i, 's) worker_buffer \<Rightarrow> nat" where
  "buffer_len b = length (input_buffer b)"

definition buffer_is_empty :: "('i, 's) worker_buffer \<Rightarrow> bool" where
  "buffer_is_empty b \<longleftrightarrow> input_buffer b = []"

definition split_buffer :: "('i, 's) worker_buffer \<Rightarrow> 'i list \<times> 's list" where
  "split_buffer b = (input_buffer b, sender_buffer b)"

definition buffer_swap_remove :: "nat \<Rightarrow> ('i, 's) worker_buffer \<Rightarrow> ('i, 's) worker_buffer option" where
  "buffer_swap_remove idx b =
     (case vec_swap_remove idx (input_buffer b) of
        None \<Rightarrow> None
      | Some ins \<Rightarrow>
          (case vec_swap_remove idx (sender_buffer b) of
             None \<Rightarrow> None
           | Some outs \<Rightarrow> Some (b\<lparr>input_buffer := ins, sender_buffer := outs\<rparr>)))"

lemma buffer_swap_remove_len:
  "buffer_swap_remove idx b = Some b' \<Longrightarrow> buffer_len b' = buffer_len b - 1"
  by (auto simp: buffer_swap_remove_def buffer_len_def length_vec_swap_remove split: option.splits)

text \<open>The loop of \<open>filter_canceled\<close>. \<open>closed s\<close> is what \<open>is_closed\<close> returns for the sender \<open>s\<close> when
  the loop looks at it, which it does once for every sender.\<close>

function filter_loop :: "('s \<Rightarrow> bool) \<Rightarrow> nat \<Rightarrow> ('i, 's) worker_buffer \<Rightarrow> ('i, 's) worker_buffer option" where
  "filter_loop closed i b =
     (if i < buffer_len b then
        (if i < length (sender_buffer b) then
           (if closed (sender_buffer b ! i) then
              (case buffer_swap_remove i b of None \<Rightarrow> None | Some b' \<Rightarrow> filter_loop closed i b')
            else filter_loop closed (i + 1) b)
         else None)
      else Some b)"
  by pat_completeness auto
termination
  by (relation "measure (\<lambda>(closed, i, b). buffer_len b - i)") (auto dest: buffer_swap_remove_len)

declare filter_loop.simps [simp del]

definition filter_canceled :: "('s \<Rightarrow> bool) \<Rightarrow> ('i, 's) worker_buffer \<Rightarrow> ('i, 's) worker_buffer option" where
  "filter_canceled closed b = filter_loop closed 0 b"

subsection \<open>The pairs of a buffer\<close>

definition aligned :: "('i, 's) worker_buffer \<Rightarrow> bool" where
  "aligned b \<longleftrightarrow> length (input_buffer b) = length (sender_buffer b)"

definition pairs :: "('i, 's) worker_buffer \<Rightarrow> ('i \<times> 's) list" where
  "pairs b = zip (input_buffer b) (sender_buffer b)"

text \<open>What the accumulator and the inference thread rely on: a buffer is a list of pairs that grows
  at its end and comes apart into its two columns.\<close>

locale paired_buffer =
  fixes wf :: "'b \<Rightarrow> bool" and contents :: "'b \<Rightarrow> ('i \<times> 's) list"
    and empty :: 'b and push :: "'i \<Rightarrow> 's \<Rightarrow> 'b \<Rightarrow> 'b"
    and len :: "'b \<Rightarrow> nat" and split :: "'b \<Rightarrow> 'i list \<times> 's list"
  assumes wf_empty: "wf empty" and contents_empty: "contents empty = []"
    and wf_push: "wf b \<Longrightarrow> wf (push i s b)"
    and contents_push: "wf b \<Longrightarrow> contents (push i s b) = contents b @ [(i, s)]"
    and len_contents: "wf b \<Longrightarrow> len b = length (contents b)"
    and split_contents: "wf b \<Longrightarrow> split b = (map fst (contents b), map snd (contents b))"
begin

lemma push_all:
  "wf b \<Longrightarrow> wf (fold (\<lambda>(i, s). push i s) ms b)
     \<and> contents (fold (\<lambda>(i, s). push i s) ms b) = contents b @ ms"
  by (induction ms arbitrary: b) (auto simp: wf_push contents_push)

lemma push_all_split:
  "split (fold (\<lambda>(i, s). push i s) ms empty) = (map fst ms, map snd ms)"
  using push_all [OF wf_empty, of ms] by (simp add: split_contents contents_empty)

end

interpretation wbuf: paired_buffer aligned pairs new_buffer buffer_push buffer_len split_buffer
  by unfold_locales (simp_all add: aligned_def pairs_def new_buffer_def buffer_push_def buffer_len_def
      split_buffer_def)

lemmas buffer_facts [buffer_simps] = wbuf.wf_empty wbuf.contents_empty wbuf.wf_push wbuf.contents_push

lemma buffer_empty_iff [buffer_simps]: "aligned b \<Longrightarrow> buffer_is_empty b \<longleftrightarrow> pairs b = []"
  using wbuf.len_contents [of b] by (auto simp: buffer_is_empty_def buffer_len_def)

lemma sender_buffer_pairs [buffer_simps]: "aligned b \<Longrightarrow> sender_buffer b = map snd (pairs b)"
  by (simp add: aligned_def pairs_def)

lemma input_buffer_pairs [buffer_simps]: "aligned b \<Longrightarrow> input_buffer b = map fst (pairs b)"
  by (simp add: aligned_def pairs_def)

lemma pairs_swap_remove:
  assumes "aligned b" and "i < buffer_len b"
  obtains b' where "buffer_swap_remove i b = Some b'" "aligned b'"
    "pairs b' = butlast ((pairs b)[i := last (pairs b)])"
proof -
  let ?xs = "input_buffer b" and ?ys = "sender_buffer b"
  have len: "length ?xs = length ?ys" "i < length ?xs" "i < length ?ys" "?xs \<noteq> []" "?ys \<noteq> []"
    using assms by (auto simp: aligned_def buffer_len_def)
  let ?b = "b\<lparr>input_buffer := butlast (?xs[i := last ?xs]), sender_buffer := butlast (?ys[i := last ?ys])\<rparr>"
  have "buffer_swap_remove i b = Some ?b"
    using len by (simp add: buffer_swap_remove_def vec_swap_remove_def)
  moreover have "aligned ?b"
    using len by (simp add: aligned_def)
  moreover have "pairs ?b = butlast ((pairs b)[i := last (pairs b)])"
    using len by (simp add: pairs_def update_zip last_zip butlast_conv_take take_zip)
  ultimately show thesis by (rule that)
qed

lemma filter_loop_correct:
  assumes "aligned b" and "\<forall>j<i. j < length (pairs b) \<longrightarrow> \<not> closed (snd (pairs b ! j))"
  shows "\<exists>b'. filter_loop closed i b = Some b' \<and> aligned b'
    \<and> mset (pairs b') = filter_mset (\<lambda>p. \<not> closed (snd p)) (mset (pairs b))"
  using assms
proof (induction closed i b rule: filter_loop.induct)
  case (1 closed i b)
  have len: "buffer_len b = length (pairs b)" "length (sender_buffer b) = length (pairs b)"
    using "1.prems"(1) by (auto simp: wbuf.len_contents buffer_simps)
  show ?case
  proof (cases "i < buffer_len b")
    case False
    have "\<forall>p \<in> set (pairs b). \<not> closed (snd p)"
    proof
      fix p assume "p \<in> set (pairs b)"
      then obtain j where "j < length (pairs b)" "p = pairs b ! j"
        by (auto simp: in_set_conv_nth)
      with False "1.prems"(2) len show "\<not> closed (snd p)" by simp
    qed
    then have "filter_mset (\<lambda>p. \<not> closed (snd p)) (mset (pairs b)) = mset (pairs b)"
      by (auto intro: multiset_eqI simp: filter_mset_eq_conv)
    with False "1.prems"(1) show ?thesis
      by (simp add: filter_loop.simps [of closed i b])
  next
    case True
    have nth: "sender_buffer b ! i = snd (pairs b ! i)"
      using True "1.prems"(1) len by (simp add: buffer_simps)
    show ?thesis
    proof (cases "closed (sender_buffer b ! i)")
      case closed: True
      obtain b' where b': "buffer_swap_remove i b = Some b'" "aligned b'"
          "pairs b' = butlast ((pairs b)[i := last (pairs b)])"
        using pairs_swap_remove [OF "1.prems"(1) True] .
      have "\<forall>j<i. j < length (pairs b') \<longrightarrow> \<not> closed (snd (pairs b' ! j))"
        using "1.prems"(2) by (auto simp: b'(3) nth_butlast)
      with "1.IH"(1) [OF True _ closed b'(1,2)] True len obtain r where
        r: "filter_loop closed i b' = Some r" "aligned r"
          "mset (pairs r) = filter_mset (\<lambda>p. \<not> closed (snd p)) (mset (pairs b'))"
        by auto
      have "mset (pairs b) = add_mset (pairs b ! i) (mset (pairs b'))"
        using mset_butlast_swap [of i "pairs b"] True len b'(3) by simp
      with r closed nth b'(1) True len show ?thesis
        by (auto simp: filter_loop.simps [of closed i b])
    next
      case open_sender: False
      have "\<forall>j<i + 1. j < length (pairs b) \<longrightarrow> \<not> closed (snd (pairs b ! j))"
        using "1.prems"(2) open_sender nth by (auto simp: less_Suc_eq)
      with "1.IH"(2) [OF True _ open_sender "1.prems"(1)] True len open_sender show ?thesis
        by (auto simp: filter_loop.simps [of closed i b])
    qed
  qed
qed

lemma filter_loop_none_closed:
  assumes "aligned b" and "\<forall>s \<in> set (sender_buffer b). \<not> closed s"
  shows "filter_loop closed i b = Some b"
  using assms
proof (induction closed i b rule: filter_loop.induct)
  case (1 closed i b)
  then show ?case
    by (auto simp: filter_loop.simps [of closed i b] aligned_def buffer_len_def)
qed

lemma filter_canceled_correct:
  assumes "aligned b"
  obtains b' where "filter_canceled closed b = Some b'" "aligned b'"
    "mset (pairs b') = filter_mset (\<lambda>p. \<not> closed (snd p)) (mset (pairs b))"
  using filter_loop_correct [OF assms, of 0 closed] by (auto simp: filter_canceled_def)

subsection \<open>Properties\<close>

text \<open>C29: Removing cancelled requests from a batch terminates without an index panic, keeps the inputs and
  their senders in element-wise pairs, and keeps exactly the requests whose caller is still there:
  as a multiset, the pairs left are the pairs whose sender was not closed when it was looked at. When
  no caller has gone the batch is unchanged, order included.\<close>

theorem filter_canceled_keeps_live_pairs:
  assumes "aligned b"
  shows "\<exists>b'. filter_canceled closed b = Some b' \<and> aligned b'
    \<and> mset (pairs b') = filter_mset (\<lambda>(_, s). \<not> closed s) (mset (pairs b))
    \<and> ((\<forall>s \<in> set (sender_buffer b). \<not> closed s) \<longrightarrow> b' = b)"
proof -
  obtain b' where "filter_canceled closed b = Some b'" "aligned b'"
    "mset (pairs b') = filter_mset (\<lambda>p. \<not> closed (snd p)) (mset (pairs b))"
    by (rule filter_canceled_correct [OF assms])
  then show ?thesis
    using filter_loop_none_closed [OF assms, of closed 0]
    by (auto simp: filter_canceled_def case_prod_unfold)
qed

theorem filter_canceled_keeps_live_pairs_witness:
  "\<exists>b'. filter_canceled (\<lambda>s. s = 1 \<or> s = (4::nat))
      \<lparr>sender_buffer = [1, 2, 3, 4], input_buffer = ''abcd''\<rparr> = Some b'
    \<and> mset (pairs b') = {#(CHR ''b'', 2), (CHR ''c'', 3)#}"
  using filter_canceled_keeps_live_pairs
    [of "\<lparr>sender_buffer = [1, 2, 3, 4::nat], input_buffer = ''abcd''\<rparr>" "\<lambda>s. s = 1 \<or> s = 4"]
  by (auto simp: aligned_def pairs_def)

end
