(* ===== verification/Dispatch.thy ===== *)
theory Dispatch
  imports Worker_Buffer
begin

text \<open>
  Sending results back to the callers (\<open>src/worker/dispatch.rs\<close>). Each function emits effects and
  may unwind out of a metrics hook, and the senders it still owns are then dropped. A send ignores whether its
  receiver still exists, so a send is just the reply.
\<close>

definition send_errors ::
  "'e batchinf_error \<Rightarrow> 's list \<Rightarrow> inf_batch_metrics \<Rightarrow> metrics_hook \<Rightarrow> ('s, 'o, 'e, unit) run" where
  "send_errors error senders m obs =
     (case emit_inference_err obs m of
        (es, Returned _) \<Rightarrow> (es @ map (\<lambda>s. Reply s (Inl (clone_error error))) senders, Returned ())
      | (es, Panicked) \<Rightarrow> (es @ map Dropped senders, Panicked))"

definition send_errors_on_crash :: "'s list \<Rightarrow> ('s, 'o, 'e) effect list" where
  "send_errors_on_crash senders = (let error = InternalError
     in map (\<lambda>s. Reply s (Inl (clone_error error))) senders)"

text \<open>\<open>output\<close> is the predictor's \<open>Result\<close>.\<close>

definition send_output ::
  "'e + 'o list \<Rightarrow> 's list \<Rightarrow> inf_batch_metrics \<Rightarrow> metrics_hook \<Rightarrow> ('s, 'o, 'e, unit) run" where
  "send_output output senders m obs =
     (case output of
        Inr batch \<Rightarrow>
          (if length batch \<noteq> length senders then send_errors InvalidPredictorOutput senders m obs
           else (case emit_inference_ok obs m of
               (es, Returned _) \<Rightarrow> (es @ map (\<lambda>(res, s). Reply s (Inr res)) (zip batch senders), Returned ())
             | (es, Panicked) \<Rightarrow> (es @ map Dropped senders, Panicked)))
      | Inl e \<Rightarrow> send_errors (InferenceError e) senders m obs)"

lemma settled_zip_Reply [effect_simps]:
  "length xs = length ss \<Longrightarrow> settled (map (\<lambda>(res, s). Reply s (Inr res)) (zip xs ss)) = ss"
  "replies (map (\<lambda>(res, s). Reply s (Inr res)) (zip xs ss)) = map (\<lambda>(res, s). (s, Inr res)) (zip xs ss)"
  by (induction xs ss rule: list_induct2') simp_all

lemma settled_send_errors_on_crash [effect_simps]:
  "settled (send_errors_on_crash ss) = ss"
  "replies (send_errors_on_crash ss) = map (\<lambda>s. (s, Inl InternalError)) ss"
  by (simp_all add: send_errors_on_crash_def effect_simps)

lemma settled_send_errors [effect_simps]:
  "settled (fst (send_errors err ss m obs)) = ss"
  by (auto simp: send_errors_def emit_defs effect_simps split: option.splits)

lemma settled_send_output [effect_simps]:
  "settled (fst (send_output out ss m obs)) = ss"
  by (auto simp: send_output_def emit_defs effect_simps split: option.splits sum.splits)

text \<open>The reply each sender gets: its own output, or the batch's error.\<close>

definition batch_replies :: "'e + 'o list \<Rightarrow> 's list \<Rightarrow> ('s \<times> ('o, 'e) reply) list" where
  "batch_replies output senders =
     (case output of
        Inl e \<Rightarrow> map (\<lambda>s. (s, Inl (InferenceError e))) senders
      | Inr outs \<Rightarrow> if length outs = length senders then zip senders (map Inr outs)
          else map (\<lambda>s. (s, Inl InvalidPredictorOutput)) senders)"

lemma zip_swap_map: "map (\<lambda>(res, s). (s, Inr res)) (zip xs ss) = zip ss (map Inr xs)"
  by (induction xs ss rule: list_induct2') simp_all

lemma replies_send_output:
  "snd (send_output out ss m obs) = Returned () \<Longrightarrow> replies (fst (send_output out ss m obs)) = batch_replies out ss"
  by (auto simp: send_output_def send_errors_def batch_replies_def emit_defs effect_simps zip_swap_map
      split: option.splits sum.splits if_splits)

lemma send_output_panic_silent:
  "snd (send_output out ss m obs) = Panicked \<Longrightarrow> replies (fst (send_output out ss m obs)) = []"
  by (auto simp: send_output_def send_errors_def emit_defs effect_simps
      split: option.splits sum.splits if_splits)

text \<open>C25: Result delivery. Whatever the predictor returned and whether or not a metrics hook panics,
  \<open>send_output\<close> settles every sender of the batch exactly once, in batch order. If no hook panics,
  each caller gets a reply: the i-th caller the i-th output when the number of outputs matches, the
  predictor's own error for all when it returned one, and \<open>InvalidPredictorOutput\<close> for all when the
  count is wrong; exactly one completion metric is reported, the \<open>ok\<close> one only in the first case. If
  a hook panics, no caller gets a reply.\<close>

theorem send_output_answers_batch:
  fixes out :: "'e + 'o list" and senders :: "'s list" and m obs
  defines "r \<equiv> send_output out senders m obs"
  shows "settled (fst r) = senders
    \<and> (case snd r of
         Returned _ \<Rightarrow> replies (fst r) = batch_replies out senders
       | Panicked \<Rightarrow> replies (fst r) = [])
    \<and> (obs \<noteq> None \<longrightarrow> metrics_of (fst r) =
         [if \<exists>outs. out = Inr outs \<and> length outs = length senders
          then on_batch_complete_ok (im_size m) (im_latency m)
          else on_batch_complete_err (im_size m) (im_latency m)])"
proof -
  have "metrics_of (fst r) =
         [if \<exists>outs. out = Inr outs \<and> length outs = length senders
          then on_batch_complete_ok (im_size m) (im_latency m)
          else on_batch_complete_err (im_size m) (im_latency m)]" if "obs \<noteq> None"
  proof -
    have [simp]: "metrics_of (map (\<lambda>(res, s). Reply s (Inr res)) ps) = []" for ps :: "('o \<times> 's) list"
      by (induction ps) auto
    show ?thesis
      using that by (auto simp: r_def send_output_def send_errors_def emit_defs effect_simps
          split: sum.splits)
  qed
  then show ?thesis
    using replies_send_output [of out senders m obs] send_output_panic_silent [of out senders m obs]
    by (auto simp: r_def settled_send_output split: unwind.splits)
qed

theorem send_output_answers_batch_witness:
  "metrics_of (fst (send_output (Inr [10, 20] :: nat + nat list) [1, 2 :: nat]
      \<lparr>im_size = 2, im_latency = from_millis 3\<rparr> (Some (\<lambda>_. False))))
    = [on_batch_complete_ok 2 (from_millis 3)]"
  using send_output_answers_batch [of "Inr [10, 20] :: nat + nat list" "[1, 2 :: nat]"
      "\<lparr>im_size = 2, im_latency = from_millis 3\<rparr>" "Some (\<lambda>_. False)"]
  by simp

end
