(* ===== verification/Worker_Shared.thy ===== *)
theory Worker_Shared
  imports Worker_State Channels Dispatch
begin

text \<open>
  What the two halves of a worker share: the status atomics, the request channel the router writes
  and the accumulator reads, the job channel between the two, and the effects seen so far, in
  order. Every store and every send goes through the helpers here, which change the state and
  record the effect. The panic guard of both halves (\<open>src/worker/panic_guard.rs\<close>) is here too.
\<close>

record ('q, 'j, 's, 'o, 'e) worker_shared =
  sh_state :: worker_state
  sh_requests :: 'q
  sh_jobs :: 'j
  sh_log :: "('s, 'o, 'e) effect list"

definition log_effects ::
  "('s, 'o, 'e) effect list \<Rightarrow> ('q, 'j, 's, 'o, 'e) worker_shared \<Rightarrow> ('q, 'j, 's, 'o, 'e) worker_shared" where
  "log_effects es sh = sh\<lparr>sh_log := sh_log sh @ es\<rparr>"

definition store_worker ::
  "worker_status \<Rightarrow> ('q, 'j, 's, 'o, 'e) worker_shared \<Rightarrow> ('q, 'j, 's, 'o, 'e) worker_shared" where
  "store_worker st sh = log_effects [StoreWorker st] (sh\<lparr>sh_state := set_worker_state st (sh_state sh)\<rparr>)"

definition store_predictor ::
  "predictor_status \<Rightarrow> ('q, 'j, 's, 'o, 'e) worker_shared \<Rightarrow> ('q, 'j, 's, 'o, 'e) worker_shared" where
  "store_predictor st sh =
     log_effects [StorePredictor st] (sh\<lparr>sh_state := set_predictor_state st (sh_state sh)\<rparr>)"

definition store_dead :: "('q, 'j, 's, 'o, 'e) worker_shared \<Rightarrow> ('q, 'j, 's, 'o, 'e) worker_shared" where
  "store_dead sh = log_effects [StorePredictor Dead] (sh\<lparr>sh_state := set_dead (sh_state sh)\<rparr>)"

definition update_len ::
  "(worker_state \<Rightarrow> worker_state) \<Rightarrow> ('q, 'j, 's, 'o, 'e) worker_shared \<Rightarrow> ('q, 'j, 's, 'o, 'e) worker_shared" where
  "update_len f sh = sh\<lparr>sh_state := f (sh_state sh)\<rparr>"

text \<open>The \<open>Drop\<close> of the panic guard.\<close>

definition panic_guard_drop ::
  "bool \<Rightarrow> ('q, 'j, 's, 'o, 'e) worker_shared \<Rightarrow> ('q, 'j, 's, 'o, 'e) worker_shared" where
  "panic_guard_drop panicking sh = (if panicking then log_effects [NotifyWaiters] (store_dead sh) else sh)"

subsection \<open>The helpers field by field\<close>

lemma shared_helpers [simp]:
  "sh_requests (log_effects es sh) = sh_requests sh" "sh_jobs (log_effects es sh) = sh_jobs sh"
  "sh_state (log_effects es sh) = sh_state sh" "sh_log (log_effects es sh) = sh_log sh @ es"
  "sh_requests (store_worker st sh) = sh_requests sh" "sh_jobs (store_worker st sh) = sh_jobs sh"
  "sh_state (store_worker st sh) = set_worker_state st (sh_state sh)"
  "sh_log (store_worker st sh) = sh_log sh @ [StoreWorker st]"
  "sh_requests (store_predictor ps sh) = sh_requests sh" "sh_jobs (store_predictor ps sh) = sh_jobs sh"
  "sh_state (store_predictor ps sh) = set_predictor_state ps (sh_state sh)"
  "sh_log (store_predictor ps sh) = sh_log sh @ [StorePredictor ps]"
  "sh_requests (store_dead sh) = sh_requests sh" "sh_jobs (store_dead sh) = sh_jobs sh"
  "sh_state (store_dead sh) = set_predictor_state Dead (sh_state sh)"
  "sh_log (store_dead sh) = sh_log sh @ [StorePredictor Dead]"
  "sh_requests (update_len f sh) = sh_requests sh" "sh_jobs (update_len f sh) = sh_jobs sh"
  "sh_state (update_len f sh) = f (sh_state sh)" "sh_log (update_len f sh) = sh_log sh"
  by (simp_all add: log_effects_def store_worker_def store_predictor_def store_dead_def update_len_def
      set_dead_def)

lemma panic_guard_fields [simp]:
  "sh_requests (panic_guard_drop pk sh) = sh_requests sh" "sh_jobs (panic_guard_drop pk sh) = sh_jobs sh"
  "sh_state (panic_guard_drop True sh) = set_predictor_state Dead (sh_state sh)"
  "sh_log (panic_guard_drop True sh) = sh_log sh @ [StorePredictor Dead, NotifyWaiters]"
  "panic_guard_drop False sh = sh"
  by (simp_all add: panic_guard_drop_def)

text \<open>The predictors a trace brings into existence and the ones it drops.\<close>

fun built_count :: "('s, 'o, 'e) effect list \<Rightarrow> nat" where
  "built_count [] = 0"
| "built_count (BuiltPredictor # es) = Suc (built_count es)"
| "built_count (_ # es) = built_count es"

fun drop_count :: "('s, 'o, 'e) effect list \<Rightarrow> nat" where
  "drop_count [] = 0"
| "drop_count (DropPredictor # es) = Suc (drop_count es)"
| "drop_count (_ # es) = drop_count es"

lemma built_count_append [simp]: "built_count (xs @ ys) = built_count xs + built_count ys"
  by (induction xs rule: built_count.induct) simp_all

lemma drop_count_append [simp]: "drop_count (xs @ ys) = drop_count xs + drop_count ys"
  by (induction xs rule: drop_count.induct) simp_all

lemma counts_map [effect_simps]:
  "built_count (map (\<lambda>s. Reply s r) ss) = 0" "drop_count (map (\<lambda>s. Reply s r) ss) = 0"
  "built_count (map Dropped ss) = 0" "drop_count (map Dropped ss) = 0"
  "built_count (map (\<lambda>(res, s). Reply s (Inr res)) ps) = 0"
  "drop_count (map (\<lambda>(res, s). Reply s (Inr res)) ps) = 0"
  by (induction ss; simp)+ (induction ps; auto)+

lemma trace_map_Dropped_comp [effect_simps]:
  "settled (map (Dropped \<circ> f) xs) = map f xs" "replies (map (Dropped \<circ> f) xs) = []"
  "built_count (map (Dropped \<circ> f) xs) = 0" "drop_count (map (Dropped \<circ> f) xs) = 0"
  by (induction xs) simp_all

lemma counts_emit [effect_simps]:
  "built_count (fst (emit_batch_start obs t n)) = 0" "drop_count (fst (emit_batch_start obs t n)) = 0"
  "built_count (fst (emit_worker_panic obs)) = 0" "drop_count (fst (emit_worker_panic obs)) = 0"
  "built_count (fst (emit_queue_depth obs i n)) = 0" "drop_count (fst (emit_queue_depth obs i n)) = 0"
  by (auto simp: emit_defs split: option.splits)

lemma counts_dispatch [effect_simps]:
  "built_count (send_errors_on_crash ss) = 0" "drop_count (send_errors_on_crash ss) = 0"
  "built_count (fst (send_output out ss m obs)) = 0" "drop_count (fst (send_output out ss m obs)) = 0"
  by (auto simp: send_errors_on_crash_def send_output_def send_errors_def emit_defs effect_simps
      split: option.splits sum.splits)

text \<open>An emitter's trace settles nobody and touches no predictor, whether or not its hook panics.\<close>

definition neutral :: "('s, 'o, 'e) effect list \<Rightarrow> bool" where
  "neutral es \<longleftrightarrow> settled es = [] \<and> replies es = [] \<and> built_count es = 0 \<and> drop_count es = 0"

lemma neutral_emit [simp]:
  "neutral (fst (emit_queue_depth obs i n))" "neutral (fst (emit_batch_start obs t n))"
  "neutral (fst (emit_worker_panic obs))"
  by (simp_all add: neutral_def effect_simps)

lemma neutral_run_cases:
  fixes r :: "('s, 'o, 'e, unit) run"
  assumes "neutral (fst r)"
  obtains (Fine) es where "r = (es, Returned ())" "neutral es"
    | (Panic) es where "r = (es, Panicked)" "neutral es"
  using assms by (cases r; cases "snd r") auto

end
