(* ===== verification/Accumulator.thy ===== *)
theory Accumulator
  imports Worker_Shared
begin

text \<open>
  The accumulator task of a worker (\<open>src/worker/mod.rs\<close>): it fills a batch from the request channel
  until the batch is full, its timer fires or the inference thread is gone, and hands it to the
  inference thread through a channel of depth one.

  Like the inference thread it is a machine whose program points lie between two accesses to what
  other threads can change. \<open>AwaitFirst\<close> and \<open>Selecting\<close> are the two waits of
  \<open>accumulate_next_batch\<close>, \<open>CheckAlive\<close> is the load in \<open>check_predictor_alive\<close>, \<open>DrainFlush\<close> and
  \<open>DrainHandoff\<close> are the loop of \<open>handle_crashed_inf\<close> in its two callers, \<open>Handoff\<close> is the \<open>Ready\<close> arm
  of \<open>worker_loop\<close>, and \<open>AwaitPermit\<close>, \<open>HavePermit\<close> and \<open>SendJob\<close> are the points of \<open>run_inference\<close>. A
  batch moved out of the task's buffer is an argument of its point.
\<close>

definition JOB_QUEUE_DEPTH :: nat where "JOB_QUEUE_DEPTH = 1"

definition ONE_YEAR :: duration where "ONE_YEAR = from_secs (24 * 60 * 60 * 365)"

record inference_worker =
  iw_obs :: metrics_hook
  iw_worker_id :: u8

datatype ('i, 's) acc_pc =
    AwaitFirst
  | Selecting
  | CheckAlive batch_trigger
  | DrainFlush
  | Handoff "('i, 's) worker_buffer" batch_trigger
  | AwaitPermit "('i, 's) worker_buffer" batch_trigger
  | HavePermit "('i, 's) worker_buffer" batch_trigger
  | SendJob "('i, 's) worker_buffer" batch_trigger
  | DrainHandoff "('i, 's) worker_buffer"
  | AccExiting
  | AccExited

record ('i, 's) acc_task =
  ac_pc :: "('i, 's) acc_pc"
  ac_buffer :: "('i, 's) worker_buffer"
  ac_next_inf :: instant

datatype acc_choice =
    AccRecv instant
  | AccTimer instant
  | AccJobClosed
  | AccRun
  | AccDrop

definition new_acc_task :: "instant \<Rightarrow> ('i, 's) acc_task" where
  "new_acc_task now = \<lparr>ac_pc = AwaitFirst, ac_buffer = new_buffer, ac_next_inf = now\<rparr>"

text \<open>\<open>reset_next_inf\<close>. \<open>unwrap_or\<close> evaluates its argument first, so the sum with a year must not
  overflow either: \<open>None\<close> is its panic.\<close>

definition reset_next_inf :: "instant \<Rightarrow> worker_state \<Rightarrow> instant \<Rightarrow> instant option" where
  "reset_next_inf imax state now =
     (case instant_checked_add imax now ONE_YEAR of
        None \<Rightarrow> None
      | Some far \<Rightarrow> Some (case instant_checked_add imax now (ws_timeout state) of Some t \<Rightarrow> t | None \<Rightarrow> far))"

text \<open>Leaving \<open>worker_loop\<close>, by return or by unwinding: what is still local is dropped (\<open>batch\<close>, the
  job sender, the buffer), then the panic guard runs. The request receiver goes last, in \<open>AccDrop\<close>.\<close>

definition acc_leave ::
  "('j, ('i, 's) worker_buffer) mpsc \<Rightarrow> bool \<Rightarrow> 's list
     \<Rightarrow> ('i, 's) acc_task \<times> ('q, 'j, 's, 'o, 'e) worker_shared
     \<Rightarrow> ('i, 's) acc_task \<times> ('q, 'j, 's, 'o, 'e) worker_shared" where
  "acc_leave J panicking batch = (\<lambda>(ac, sh).
     let sh1 = sh\<lparr>sh_jobs := mp_drop_senders J (sh_jobs sh)\<rparr>;
         sh2 = log_effects (map Dropped (batch @ sender_buffer (ac_buffer ac))) sh1
     in (ac\<lparr>ac_pc := AccExiting, ac_buffer := new_buffer\<rparr>, panic_guard_drop panicking sh2))"

text \<open>What both waits do with a request: wake one waiting caller, push, count.\<close>

definition take_request ::
  "'i \<times> 's \<Rightarrow> ('i, 's) acc_task \<times> ('q, 'j, 's, 'o, 'e) worker_shared
     \<Rightarrow> ('i, 's) acc_task \<times> ('q, 'j, 's, 'o, 'e) worker_shared" where
  "take_request = (\<lambda>(request, sender) (ac, sh).
     (ac\<lparr>ac_buffer := buffer_push request sender (ac_buffer ac)\<rparr>,
      update_len increment_len (log_effects [NotifyOne] sh)))"

text \<open>\<open>receiver.recv()\<close> for the first request of a batch.\<close>

definition recv_first ::
  "('q, 'i \<times> 's) mpsc \<Rightarrow> ('j, ('i, 's) worker_buffer) mpsc \<Rightarrow> instant \<Rightarrow> instant
     \<Rightarrow> ('i, 's) acc_task \<times> ('q, 'j, 's, 'o, 'e) worker_shared
     \<Rightarrow> (('i, 's) acc_task \<times> ('q, 'j, 's, 'o, 'e) worker_shared) option" where
  "recv_first Q J imax now = (\<lambda>(ac, sh).
     case mp_poll_recv Q (sh_requests sh) of
       (RecvEmpty, _) \<Rightarrow> None
     | (RecvClosed, q) \<Rightarrow> Some (acc_leave J False [] (ac, store_worker Exit (sh\<lparr>sh_requests := q\<rparr>)))
     | (RecvMsg msg, q) \<Rightarrow>
         (case take_request msg (ac, sh\<lparr>sh_requests := q\<rparr>) of (ac1, sh1) \<Rightarrow>
            Some (case reset_next_inf imax (sh_state sh1) now of
                None \<Rightarrow> acc_leave J True [] (ac1, sh1)
              | Some t \<Rightarrow>
                  (ac1\<lparr>ac_next_inf := t,
                       ac_pc := if ws_batch_size (sh_state sh1) = 1 then CheckAlive Capacity else Selecting\<rparr>,
                   sh1))))"

text \<open>The \<open>receiver.recv()\<close> branch of the \<open>select!\<close>.\<close>

definition recv_more ::
  "('q, 'i \<times> 's) mpsc \<Rightarrow> ('j, ('i, 's) worker_buffer) mpsc
     \<Rightarrow> ('i, 's) acc_task \<times> ('q, 'j, 's, 'o, 'e) worker_shared
     \<Rightarrow> (('i, 's) acc_task \<times> ('q, 'j, 's, 'o, 'e) worker_shared) option" where
  "recv_more Q J = (\<lambda>(ac, sh).
     case mp_poll_recv Q (sh_requests sh) of
       (RecvEmpty, _) \<Rightarrow> None
     | (RecvClosed, q) \<Rightarrow> Some (acc_leave J False [] (ac, store_worker Exit (sh\<lparr>sh_requests := q\<rparr>)))
     | (RecvMsg msg, q) \<Rightarrow>
         (case take_request msg (ac, sh\<lparr>sh_requests := q\<rparr>) of (ac1, sh1) \<Rightarrow>
            Some (ac1\<lparr>ac_pc :=
                if buffer_len (ac_buffer ac1) = unat (ws_batch_size (sh_state sh1))
                then CheckAlive Capacity else Selecting\<rparr>, sh1)))"

text \<open>\<open>check_predictor_alive\<close>: on \<open>Alive\<close> the batch is moved out; otherwise the drain starts. A status
  byte that is no code panics.\<close>

definition check_predictor_alive ::
  "('j, ('i, 's) worker_buffer) mpsc \<Rightarrow> batch_trigger
     \<Rightarrow> ('i, 's) acc_task \<times> ('q, 'j, 's, 'o, 'e) worker_shared
     \<Rightarrow> ('i, 's) acc_task \<times> ('q, 'j, 's, 'o, 'e) worker_shared" where
  "check_predictor_alive J trigger = (\<lambda>(ac, sh).
     case get_predictor_state (sh_state sh) of
       None \<Rightarrow> acc_leave J True [] (ac, sh)
     | Some Alive \<Rightarrow>
         (case swap_replace (ac_buffer ac) of (live_buffer, fresh) \<Rightarrow>
            (ac\<lparr>ac_buffer := fresh, ac_pc := Handoff live_buffer trigger\<rparr>, sh))
     | Some _ \<Rightarrow> (ac\<lparr>ac_pc := DrainFlush\<rparr>, sh))"

text \<open>The end of \<open>handle_crashed_inf\<close>: the drained batch is answered with errors.\<close>

definition flush_buffer ::
  "('i, 's) worker_buffer \<Rightarrow> ('q, 'j, 's, 'o, 'e) worker_shared \<Rightarrow> ('q, 'j, 's, 'o, 'e) worker_shared" where
  "flush_buffer batch sh =
     (case split_buffer batch of (_, senders) \<Rightarrow> log_effects (send_errors_on_crash senders) sh)"

text \<open>One turn of the drain started by \<open>check_predictor_alive\<close>, whose caller then returns \<open>Flushed\<close>.\<close>

definition drain_flush ::
  "('q, 'i \<times> 's) mpsc \<Rightarrow> ('i, 's) acc_task \<times> ('q, 'j, 's, 'o, 'e) worker_shared
     \<Rightarrow> ('i, 's) acc_task \<times> ('q, 'j, 's, 'o, 'e) worker_shared" where
  "drain_flush Q = (\<lambda>(ac, sh).
     case mp_poll_recv Q (sh_requests sh) of
       (RecvMsg (inp, sender), q) \<Rightarrow>
         (ac\<lparr>ac_buffer := buffer_push inp sender (ac_buffer ac)\<rparr>, sh\<lparr>sh_requests := q\<rparr>)
     | (_, q) \<Rightarrow>
         (case swap_replace (ac_buffer ac) of (batch, fresh) \<Rightarrow>
            (ac\<lparr>ac_buffer := fresh, ac_pc := AwaitFirst\<rparr>,
             update_len reset_batch_len (flush_buffer batch (sh\<lparr>sh_requests := q\<rparr>)))))"

text \<open>One turn of the drain started by \<open>run_inference\<close>, whose caller then reports the queue depth.\<close>

definition drain_handoff ::
  "inference_worker \<Rightarrow> ('q, 'i \<times> 's) mpsc \<Rightarrow> ('j, ('i, 's) worker_buffer) mpsc \<Rightarrow> ('i, 's) worker_buffer
     \<Rightarrow> ('i, 's) acc_task \<times> ('q, 'j, 's, 'o, 'e) worker_shared
     \<Rightarrow> ('i, 's) acc_task \<times> ('q, 'j, 's, 'o, 'e) worker_shared" where
  "drain_handoff worker Q J batch = (\<lambda>(ac, sh).
     case mp_poll_recv Q (sh_requests sh) of
       (RecvMsg (inp, sender), q) \<Rightarrow>
         (ac\<lparr>ac_pc := DrainHandoff (buffer_push inp sender batch)\<rparr>, sh\<lparr>sh_requests := q\<rparr>)
     | (_, q) \<Rightarrow>
         (let sh1 = flush_buffer batch (sh\<lparr>sh_requests := q\<rparr>)
          in case emit_queue_depth (iw_obs worker) (iw_worker_id worker) (mp_len Q (sh_requests sh1)) of
               (es, Panicked) \<Rightarrow> acc_leave J True [] (ac, log_effects es sh1)
             | (es, Returned _) \<Rightarrow>
                 (ac\<lparr>ac_pc := AwaitFirst\<rparr>, update_len reset_batch_len (log_effects es sh1))))"

text \<open>The \<open>Sent\<close> arm of \<open>worker_loop\<close> and what follows the match.\<close>

definition finish_sent ::
  "inference_worker \<Rightarrow> ('j, ('i, 's) worker_buffer) mpsc \<Rightarrow> batch_trigger \<Rightarrow> nat
     \<Rightarrow> ('i, 's) acc_task \<times> ('q, 'j, 's, 'o, 'e) worker_shared
     \<Rightarrow> ('i, 's) acc_task \<times> ('q, 'j, 's, 'o, 'e) worker_shared" where
  "finish_sent worker J trigger sent_len = (\<lambda>(ac, sh).
     let sh1 = store_worker Running sh
     in case emit_batch_start (iw_obs worker) trigger sent_len of
          (es, Panicked) \<Rightarrow> acc_leave J True [] (ac, log_effects es sh1)
        | (es, Returned _) \<Rightarrow>
            (ac\<lparr>ac_pc := AwaitFirst\<rparr>, update_len reset_batch_len (log_effects es sh1)))"

text \<open>The \<open>Ready\<close> arm up to the first wait of \<open>run_inference\<close>.\<close>

definition start_handoff ::
  "inference_worker \<Rightarrow> ('q, 'i \<times> 's) mpsc \<Rightarrow> ('j, ('i, 's) worker_buffer) mpsc
     \<Rightarrow> ('i, 's) worker_buffer \<Rightarrow> batch_trigger
     \<Rightarrow> ('i, 's) acc_task \<times> ('q, 'j, 's, 'o, 'e) worker_shared
     \<Rightarrow> ('i, 's) acc_task \<times> ('q, 'j, 's, 'o, 'e) worker_shared" where
  "start_handoff worker Q J batch trigger = (\<lambda>(ac, sh).
     let sh1 = store_worker Running sh
     in case emit_queue_depth (iw_obs worker) (iw_worker_id worker) (mp_len Q (sh_requests sh1)) of
          (es, Panicked) \<Rightarrow> acc_leave J True (sender_buffer batch) (ac, log_effects es sh1)
        | (es, Returned _) \<Rightarrow>
            (if buffer_is_empty batch
             then finish_sent worker J trigger (buffer_len batch) (ac, log_effects es sh1)
             else (ac\<lparr>ac_pc := AwaitPermit batch trigger\<rparr>, log_effects es sh1)))"

text \<open>\<open>job_sender.reserve()\<close>. Without a receiver the result is \<open>Dead\<close>: the batch is dropped, an empty
  queue is reported, and the task ends.\<close>

definition reserve_job ::
  "inference_worker \<Rightarrow> ('j, ('i, 's) worker_buffer) mpsc \<Rightarrow> ('i, 's) worker_buffer \<Rightarrow> batch_trigger
     \<Rightarrow> ('i, 's) acc_task \<times> ('q, 'j, 's, 'o, 'e) worker_shared
     \<Rightarrow> (('i, 's) acc_task \<times> ('q, 'j, 's, 'o, 'e) worker_shared) option" where
  "reserve_job worker J batch trigger = (\<lambda>(ac, sh).
     case mp_reserve J (sh_jobs sh) of
       NoCapacity \<Rightarrow> None
     | Permit \<Rightarrow> Some (ac\<lparr>ac_pc := HavePermit batch trigger\<rparr>, sh)
     | ReserveClosed \<Rightarrow>
         (let sh1 = log_effects (map Dropped (sender_buffer batch)) sh
          in Some (case emit_queue_depth (iw_obs worker) (iw_worker_id worker) 0 of
               (es, Panicked) \<Rightarrow> acc_leave J True [] (ac, log_effects es sh1)
             | (es, Returned _) \<Rightarrow> acc_leave J False [] (ac, store_worker Crashed (log_effects es sh1)))))"

text \<open>With a permit: the predictor's status decides between sending and flushing.\<close>

definition use_permit ::
  "('j, ('i, 's) worker_buffer) mpsc \<Rightarrow> ('i, 's) worker_buffer \<Rightarrow> batch_trigger
     \<Rightarrow> ('i, 's) acc_task \<times> ('q, 'j, 's, 'o, 'e) worker_shared
     \<Rightarrow> ('i, 's) acc_task \<times> ('q, 'j, 's, 'o, 'e) worker_shared" where
  "use_permit J batch trigger = (\<lambda>(ac, sh).
     case get_predictor_state (sh_state sh) of
       None \<Rightarrow> acc_leave J True (sender_buffer batch) (ac, sh)
     | Some st \<Rightarrow>
         (if st \<noteq> Alive then (ac\<lparr>ac_pc := DrainHandoff batch\<rparr>, sh)
          else (ac\<lparr>ac_pc := SendJob batch trigger\<rparr>, sh)))"

definition send_job ::
  "inference_worker \<Rightarrow> ('j, ('i, 's) worker_buffer) mpsc \<Rightarrow> ('i, 's) worker_buffer \<Rightarrow> batch_trigger
     \<Rightarrow> ('i, 's) acc_task \<times> ('q, 'j, 's, 'o, 'e) worker_shared
     \<Rightarrow> ('i, 's) acc_task \<times> ('q, 'j, 's, 'o, 'e) worker_shared" where
  "send_job worker J batch trigger = (\<lambda>(ac, sh).
     case mp_permit_send J batch (sh_jobs sh) of (lost, j) \<Rightarrow>
       finish_sent worker J trigger (buffer_len batch)
         (ac, log_effects (map Dropped (concat (map sender_buffer lost))) (sh\<lparr>sh_jobs := j\<rparr>)))"

definition acc_drop ::
  "('q, 'i \<times> 's) mpsc \<Rightarrow> ('i, 's) acc_task \<times> ('q, 'j, 's, 'o, 'e) worker_shared
     \<Rightarrow> ('i, 's) acc_task \<times> ('q, 'j, 's, 'o, 'e) worker_shared" where
  "acc_drop Q = (\<lambda>(ac, sh).
     case mp_drop_receiver Q (sh_requests sh) of (msgs, q) \<Rightarrow>
       (ac\<lparr>ac_pc := AccExited\<rparr>, log_effects (map Dropped (map snd msgs)) (sh\<lparr>sh_requests := q\<rparr>)))"

text \<open>One step of the task. The timer can fire once its deadline has passed, and the job channel's
  \<open>closed()\<close> resolves once its receiver is gone.\<close>

fun acc_step ::
  "inference_worker \<Rightarrow> instant \<Rightarrow> ('q, 'i \<times> 's) mpsc \<Rightarrow> ('j, ('i, 's) worker_buffer) mpsc \<Rightarrow> acc_choice
     \<Rightarrow> ('i, 's) acc_task \<times> ('q, 'j, 's, 'o, 'e) worker_shared
     \<Rightarrow> (('i, 's) acc_task \<times> ('q, 'j, 's, 'o, 'e) worker_shared) option" where
  "acc_step worker imax Q J (AccRecv now) (ac, sh) =
     (case ac_pc ac of
        AwaitFirst \<Rightarrow> recv_first Q J imax now (ac, sh)
      | Selecting \<Rightarrow> recv_more Q J (ac, sh)
      | _ \<Rightarrow> None)"
| "acc_step worker imax Q J (AccTimer now) (ac, sh) =
     (case ac_pc ac of
        Selecting \<Rightarrow>
          if ac_next_inf ac \<le> now then Some (ac\<lparr>ac_pc := CheckAlive BatchTimeout\<rparr>, sh) else None
      | _ \<Rightarrow> None)"
| "acc_step worker imax Q J AccJobClosed (ac, sh) =
     (case ac_pc ac of
        Selecting \<Rightarrow>
          if mp_receiver_gone J (sh_jobs sh) then Some (ac\<lparr>ac_pc := CheckAlive Capacity\<rparr>, sh) else None
      | _ \<Rightarrow> None)"
| "acc_step worker imax Q J AccRun (ac, sh) =
     (case ac_pc ac of
        CheckAlive trigger \<Rightarrow> Some (check_predictor_alive J trigger (ac, sh))
      | DrainFlush \<Rightarrow> Some (drain_flush Q (ac, sh))
      | Handoff batch trigger \<Rightarrow> Some (start_handoff worker Q J batch trigger (ac, sh))
      | AwaitPermit batch trigger \<Rightarrow> reserve_job worker J batch trigger (ac, sh)
      | HavePermit batch trigger \<Rightarrow> Some (use_permit J batch trigger (ac, sh))
      | SendJob batch trigger \<Rightarrow> Some (send_job worker J batch trigger (ac, sh))
      | DrainHandoff batch \<Rightarrow> Some (drain_handoff worker Q J batch (ac, sh))
      | _ \<Rightarrow> None)"
| "acc_step worker imax Q J AccDrop (ac, sh) =
     (case ac_pc ac of AccExiting \<Rightarrow> Some (acc_drop Q (ac, sh)) | _ \<Rightarrow> None)"

end
