(* ===== verification/Predictor_Build.thy ===== *)
theory Predictor_Build
  imports Durations
begin

text \<open>
  Building a predictor (\<open>src/worker/inf.rs\<close>, lines 42-141): the back-off schedule, the cancellable
  sleep, one factory call, and the retry loop.

  The factory is user code with side effects: \<open>f n\<close> is what its \<open>n\<close>-th call since the thread
  started does, applied to the worker id: return a predictor or an error, or panic. The exit
  condition reads a channel other threads close, so \<open>exit_cond k\<close> is what its \<open>k\<close>-th evaluation
  says. The trace counts both and records how long the thread slept.
\<close>

fun backoff_from :: "nat \<Rightarrow> nat \<Rightarrow> nat \<Rightarrow> duration \<Rightarrow> duration \<Rightarrow> duration list" where
  "backoff_from 0 i attempts next max_wait = []"
| "backoff_from (Suc n) i attempts next max_wait =
     (let wait = next;
          next' = min (saturating_mul next 2) max_wait
      in (if i = attempts - 1 then DURATION_ZERO else wait) # backoff_from n (Suc i) attempts next' max_wait)"

definition backoff_schedule :: "u8 \<Rightarrow> duration \<Rightarrow> duration \<Rightarrow> duration list" where
  "backoff_schedule attempts base_backoff max_wait =
     backoff_from (unat attempts) 0 (unat attempts) (min base_backoff max_wait) max_wait"

datatype 'f build_failure = BuildError 'f | BuildPanic | Cancelled

record build_trace =
  bt_calls :: nat
  bt_polls :: nat
  bt_slept :: "duration list"

definition EXIT_POLL_SLICE :: duration where
  "EXIT_POLL_SLICE = from_millis 20"

text \<open>\<open>sleep_with_exit\<close>: whether the whole wait passed, the number of the next evaluation of the exit
  condition, and the sleeps.\<close>

function sleep_with_exit :: "(nat \<Rightarrow> bool) \<Rightarrow> nat \<Rightarrow> duration \<Rightarrow> bool \<times> nat \<times> duration list" where
  "sleep_with_exit exit_cond k wait =
     (if DURATION_ZERO < wait then
        (let d = min EXIT_POLL_SLICE wait
         in if exit_cond k then (False, Suc k, [d])
            else (case checked_sub wait EXIT_POLL_SLICE of
                None \<Rightarrow> (True, Suc k, [d])
              | Some new_wait \<Rightarrow>
                  (case sleep_with_exit exit_cond (Suc k) new_wait of
                     (r, k', ds) \<Rightarrow> (r, k', d # ds))))
      else (True, k, []))"
  by pat_completeness auto
termination
  by (relation "measure (\<lambda>(e, k, w). as_nanos w)")
    (auto simp: checked_sub_Some duration_order_defs EXIT_POLL_SLICE_def duration_simps)

declare sleep_with_exit.simps [simp del]

definition try_make_predictor ::
  "(nat \<Rightarrow> u8 \<Rightarrow> ('f + 'p) unwind) \<Rightarrow> u8 \<Rightarrow> duration \<Rightarrow> (nat \<Rightarrow> bool) \<Rightarrow> build_trace
     \<Rightarrow> ('f build_failure + 'p) \<times> build_trace" where
  "try_make_predictor f worker_id wait exit_cond t =
     (let t1 = t\<lparr>bt_calls := bt_calls t + 1\<rparr>;
          fail = (\<lambda>failure. case sleep_with_exit exit_cond (bt_polls t1) wait of
            (cont, k, ds) \<Rightarrow>
              (Inl (if \<not> cont then Cancelled else failure),
               t1\<lparr>bt_polls := k, bt_slept := bt_slept t1 @ ds\<rparr>))
      in case f (bt_calls t) worker_id of
           Returned (Inr predictor) \<Rightarrow> (Inr predictor, t1)
         | Returned (Inl e) \<Rightarrow> fail (BuildError e)
         | Panicked \<Rightarrow> fail BuildPanic)"

fun spawn_loop ::
  "(nat \<Rightarrow> u8 \<Rightarrow> ('f + 'p) unwind) \<Rightarrow> u8 \<Rightarrow> (nat \<Rightarrow> bool) \<Rightarrow> 'f build_failure \<Rightarrow> duration list \<Rightarrow> build_trace
     \<Rightarrow> ('f build_failure + 'p) \<times> build_trace" where
  "spawn_loop f worker_id exit_cond last_failure [] t = (Inl last_failure, t)"
| "spawn_loop f worker_id exit_cond last_failure (wait # waits) t =
     (let t1 = t\<lparr>bt_polls := bt_polls t + 1\<rparr>
      in if exit_cond (bt_polls t) then (Inl Cancelled, t1)
         else (case try_make_predictor f worker_id wait exit_cond t1 of
             (Inr predictor, t2) \<Rightarrow> (Inr predictor, t2)
           | (Inl failure, t2) \<Rightarrow> spawn_loop f worker_id exit_cond failure waits t2))"

definition spawn_predictor ::
  "(nat \<Rightarrow> u8 \<Rightarrow> ('f + 'p) unwind) \<Rightarrow> u8 \<Rightarrow> u8 \<Rightarrow> duration \<Rightarrow> duration \<Rightarrow> (nat \<Rightarrow> bool) \<Rightarrow> build_trace
     \<Rightarrow> ('f build_failure + 'p) \<times> build_trace" where
  "spawn_predictor factory worker_id total_attempts backoff max_wait exit_cond t =
     spawn_loop factory worker_id exit_cond Cancelled (backoff_schedule total_attempts backoff max_wait) t"

subsection \<open>The schedule\<close>

lemma length_backoff_from [simp]: "length (backoff_from n i a next m) = n"
  by (induction n arbitrary: i "next") (simp_all add: Let_def)

lemma doubled_cap:
  "m \<le> DURATION_MAX \<Longrightarrow>
     min (saturating_mul (min (Duration x) m) 2) m = min (Duration (x * 2)) m"
  by (rule duration.expand)
    (auto simp: duration_simps duration_order_defs min_def split: if_splits)

lemma backoff_from_nth:
  assumes "m \<le> DURATION_MAX" and "k < n" and "i + n = a"
  shows "backoff_from n i a (min (Duration x) m) m ! k =
    (if i + k = a - 1 then DURATION_ZERO else min (Duration (x * 2 ^ k)) m)"
  using assms(2,3)
proof (induction n arbitrary: i x k)
  case (Suc n)
  show ?case
  proof (cases k)
    case (Suc k')
    with Suc.prems Suc.IH [of k' "Suc i" "x * 2"] show ?thesis
      by (simp add: Let_def doubled_cap [OF assms(1)] mult.assoc)
  qed (simp add: Let_def)
qed simp

lemma backoff_schedule_nth:
  assumes "m \<le> DURATION_MAX" and "k < unat n"
  shows "backoff_schedule n b m ! k =
    (if k = unat n - 1 then DURATION_ZERO else min (Duration (as_nanos b * 2 ^ k)) m)"
  using backoff_from_nth [OF assms, of 0 "unat n" "as_nanos b"] by (simp add: backoff_schedule_def)

lemma length_backoff_schedule [simp]: "length (backoff_schedule n b m) = unat n"
  by (simp add: backoff_schedule_def)

lemma backoff_schedule_le:
  assumes "m \<le> DURATION_MAX" and "d \<in> set (backoff_schedule n b m)"
  shows "d \<le> m"
  using assms backoff_schedule_nth [OF assms(1)] by (auto simp: in_set_conv_nth min.coboundedI2)

subsection \<open>The sleep\<close>

text \<open>A sleep that is not cut short lasts the whole wait; one that is ends with the first true
  evaluation; no single sleep is longer than a slice, and there is one evaluation after each.\<close>

definition slept_right :: "(nat \<Rightarrow> bool) \<Rightarrow> nat \<Rightarrow> duration \<Rightarrow> bool \<times> nat \<times> duration list \<Rightarrow> bool" where
  "slept_right exit_cond k wait res = (case res of (r, k', ds) \<Rightarrow>
     k' = k + length ds
     \<and> (\<forall>d \<in> set ds. d \<le> EXIT_POLL_SLICE)
     \<and> (\<forall>j. k \<le> j \<and> j + 1 < k' \<longrightarrow> \<not> exit_cond j)
     \<and> (if r then total_nanos ds = as_nanos wait \<and> (k < k' \<longrightarrow> \<not> exit_cond (k' - 1))
        else k < k' \<and> exit_cond (k' - 1) \<and> total_nanos ds \<le> as_nanos wait))"

lemma sleep_with_exit_right: "slept_right exit_cond k wait (sleep_with_exit exit_cond k wait)"
proof (induction exit_cond k wait rule: sleep_with_exit.induct)
  case (1 exit_cond k wait)
  let ?d = "min EXIT_POLL_SLICE wait"
  note unfold = sleep_with_exit.simps [of exit_cond k wait]
  consider (none) "\<not> DURATION_ZERO < wait" | (cut) "DURATION_ZERO < wait" "exit_cond k"
    | (last) "DURATION_ZERO < wait" "\<not> exit_cond k" "checked_sub wait EXIT_POLL_SLICE = None"
    | (more) w where "DURATION_ZERO < wait" "\<not> exit_cond k" "checked_sub wait EXIT_POLL_SLICE = Some w"
    by (cases "checked_sub wait EXIT_POLL_SLICE") auto
  then show ?case
  proof cases
    case none
    then show ?thesis
      by (auto simp: unfold slept_right_def duration_order_defs duration_simps)
  next
    case cut
    then show ?thesis
      by (auto simp: unfold slept_right_def Let_def duration_simps)
  next
    case last
    then have "sleep_with_exit exit_cond k wait = (True, Suc k, [?d])"
      by (simp add: unfold Let_def)
    moreover have "as_nanos ?d = as_nanos wait"
      using last(3) by (simp add: checked_sub_None duration_order_defs duration_simps)
    ultimately show ?thesis
      using last(2) by (auto simp: slept_right_def)
  next
    case more
    obtain r1 k1 ds1 where rec: "sleep_with_exit exit_cond (Suc k) w = (r1, k1, ds1)"
      using prod_cases3 by blast
    have eq: "sleep_with_exit exit_cond k wait = (r1, k1, ?d # ds1)"
      using more rec by (simp add: unfold Let_def)
    have w: "as_nanos wait = as_nanos EXIT_POLL_SLICE + as_nanos w" "as_nanos ?d = as_nanos EXIT_POLL_SLICE"
      using more(3) by (auto simp: checked_sub_Some duration_order_defs duration_simps)
    have IH: "slept_right exit_cond (Suc k) w (r1, k1, ds1)"
      using "1.IH" [OF more(1) refl more(2,3)] rec by simp
    have "\<not> exit_cond j" if "k \<le> j" "j + 1 < k1" for j
      using IH more(2) that by (cases "j = k") (auto simp: slept_right_def)
    moreover have "\<not> exit_cond (k1 - 1)" if r1
      using IH more(2) that by (cases ds1) (auto simp: slept_right_def)
    ultimately show ?thesis
      using IH w by (auto simp: slept_right_def eq)
  qed
qed

subsection \<open>The retry loop\<close>

text \<open>How a result relates to the factory calls and polls between two traces: a predictor is what
  the last call returned, an error or a panic is the last call's and every attempt was made, and a
  cancellation was seen by some poll.\<close>

definition factory_fails :: "('f + 'p) unwind \<Rightarrow> bool" where
  "factory_fails out \<longleftrightarrow> (\<forall>p. out \<noteq> Returned (Inr p))"

definition explains ::
  "(nat \<Rightarrow> u8 \<Rightarrow> ('f + 'p) unwind) \<Rightarrow> u8 \<Rightarrow> (nat \<Rightarrow> bool) \<Rightarrow> nat \<Rightarrow> build_trace \<Rightarrow> build_trace
     \<Rightarrow> 'f build_failure + 'p \<Rightarrow> bool" where
  "explains f w exit_cond n t t' r =
     (case r of
        Inr p \<Rightarrow> bt_calls t < bt_calls t' \<and> f (bt_calls t' - 1) w = Returned (Inr p)
      | Inl (BuildError e) \<Rightarrow> bt_calls t' = bt_calls t + n \<and> f (bt_calls t' - 1) w = Returned (Inl e)
      | Inl BuildPanic \<Rightarrow> bt_calls t' = bt_calls t + n \<and> f (bt_calls t' - 1) w = Panicked
      | Inl Cancelled \<Rightarrow> \<exists>k. bt_polls t \<le> k \<and> k < bt_polls t' \<and> exit_cond k)"

lemma try_make_predictor_explained:
  assumes "try_make_predictor f w wait exit_cond t = (r, t')"
  shows "bt_calls t' = bt_calls t + 1" and "bt_polls t \<le> bt_polls t'"
    and "explains f w exit_cond 1 t t' r"
    and "\<forall>failure. r = Inl failure \<longrightarrow> factory_fails (f (bt_calls t) w)"
    and "\<exists>ds. bt_slept t' = bt_slept t @ ds \<and> total_nanos ds \<le> as_nanos wait"
proof -
  obtain c k ds where sl: "sleep_with_exit exit_cond (bt_polls t) wait = (c, k, ds)"
    using prod_cases3 by blast
  then have right: "slept_right exit_cond (bt_polls t) wait (c, k, ds)"
    using sleep_with_exit_right [of exit_cond "bt_polls t" wait] by simp
  have cancelled: "\<exists>j. bt_polls t \<le> j \<and> j < k \<and> exit_cond j" if "\<not> c"
    using right that by (intro exI [of _ "k - 1"]; cases ds) (auto simp: slept_right_def)
  have len: "bt_polls t \<le> k" "total_nanos ds \<le> as_nanos wait"
    using right by (auto simp: slept_right_def split: if_splits)
  show "bt_calls t' = bt_calls t + 1" and "bt_polls t \<le> bt_polls t'"
    and "explains f w exit_cond 1 t t' r"
    and "\<forall>failure. r = Inl failure \<longrightarrow> factory_fails (f (bt_calls t) w)"
    and "\<exists>ds. bt_slept t' = bt_slept t @ ds \<and> total_nanos ds \<le> as_nanos wait"
    using assms sl cancelled len
    by (auto simp: try_make_predictor_def Let_def explains_def factory_fails_def
        split: unwind.splits sum.splits if_splits)
qed

lemma spawn_loop_explained:
  assumes "spawn_loop f w exit_cond last_failure waits t = (r, t')"
  shows "bt_calls t \<le> bt_calls t' \<and> bt_calls t' \<le> bt_calls t + length waits \<and> bt_polls t \<le> bt_polls t'
    \<and> (\<forall>j. bt_calls t \<le> j \<and> j < bt_calls t' \<and> \<not> (j = bt_calls t' - 1 \<and> \<not> isl r) \<longrightarrow> factory_fails (f j w))
    \<and> (\<exists>ds. bt_slept t' = bt_slept t @ ds \<and> total_nanos ds \<le> total_nanos waits)
    \<and> (if waits = [] then r = Inl last_failure \<and> t' = t
       else explains f w exit_cond (length waits) t t' r)"
  using assms
proof (induction waits arbitrary: last_failure t)
  case (Cons wait waits)
  let ?t1 = "t\<lparr>bt_polls := bt_polls t + 1\<rparr>"
  show ?case
  proof (cases "exit_cond (bt_polls t)")
    case True
    with Cons.prems show ?thesis
      by (auto simp: Let_def explains_def)
  next
    case False
    obtain r1 t2 where make: "try_make_predictor f w wait exit_cond ?t1 = (r1, t2)"
      by fastforce
    note made = try_make_predictor_explained [OF make]
    show ?thesis
    proof (cases r1)
      case (Inr p)
      with Cons.prems False make have "r = Inr p" "t' = t2"
        by (simp_all add: Let_def)
      with Inr made show ?thesis
        by (auto simp: explains_def less_Suc_eq dest!: le_antisym intro: trans_le_add1)
    next
      case (Inl failure)
      with Cons.prems False make have loop: "spawn_loop f w exit_cond failure waits t2 = (r, t')"
        by (simp add: Let_def)
      note IH = Cons.IH [OF loop]
      have calls: "bt_calls t2 = bt_calls t + 1" and polls: "bt_polls t < bt_polls t2"
        and fails: "factory_fails (f (bt_calls t) w)"
        using made Inl by auto
      have early: "factory_fails (f j w)"
        if "bt_calls t \<le> j" "j < bt_calls t'" "\<not> (j = bt_calls t' - 1 \<and> \<not> isl r)" for j
        using IH that calls fails by (cases "j = bt_calls t") auto
      have slept: "\<exists>ds. bt_slept t' = bt_slept t @ ds \<and> total_nanos ds \<le> total_nanos (wait # waits)"
      proof -
        obtain d1 d2 where "bt_slept t2 = bt_slept t @ d1" "total_nanos d1 \<le> as_nanos wait"
            "bt_slept t' = bt_slept t2 @ d2" "total_nanos d2 \<le> total_nanos waits"
          using made(5) IH by auto
        then show ?thesis by (intro exI [of _ "d1 @ d2"]) simp
      qed
      have "explains f w exit_cond (length (wait # waits)) t t' r"
      proof (cases "waits = []")
        case True
        with IH made(3) Inl calls show ?thesis
          by (auto simp: explains_def split: build_failure.splits dest: Suc_leD)
      next
        case waits: False
        with IH calls polls show ?thesis
          by (auto simp: explains_def split: build_failure.splits sum.splits intro: less_imp_le)
            (meson less_imp_le order_trans)+
      qed
      with IH early slept calls polls show ?thesis by auto
    qed
  qed
qed auto

text \<open>With nobody cancelling, the loop is a search for the first call that succeeds.\<close>

lemma sleep_uncancelled:
  assumes "\<forall>k. \<not> exit_cond k"
  obtains k' ds where "sleep_with_exit exit_cond k wait = (True, k', ds)" "total_nanos ds = as_nanos wait"
proof -
  obtain r k' ds where "sleep_with_exit exit_cond k wait = (r, k', ds)"
    using prod_cases3 by blast
  with sleep_with_exit_right [of exit_cond k wait] assms that show thesis
    by (auto simp: slept_right_def split: if_splits)
qed

lemma try_make_uncancelled:
  assumes "\<forall>k. \<not> exit_cond k" and "factory_fails (f (bt_calls t) w)"
  shows "\<exists>failure t'. try_make_predictor f w wait exit_cond t = (Inl failure, t')
    \<and> bt_calls t' = bt_calls t + 1 \<and> total_nanos (bt_slept t') = total_nanos (bt_slept t) + as_nanos wait"
proof -
  obtain k' ds where sl: "sleep_with_exit exit_cond (bt_polls t) wait = (True, k', ds)"
      "total_nanos ds = as_nanos wait"
    by (rule sleep_uncancelled [OF assms(1)])
  consider (err) e where "f (bt_calls t) w = Returned (Inl e)" | (panic) "f (bt_calls t) w = Panicked"
    using assms(2) by (metis factory_fails_def sumE unwind.exhaust)
  then show ?thesis
    using sl by cases (simp_all add: try_make_predictor_def Let_def)
qed

lemma spawn_loop_first_success:
  assumes "\<forall>k. \<not> exit_cond k" and "i < length waits" and "f (bt_calls t + i) w = Returned (Inr p)"
    and "\<forall>j<i. factory_fails (f (bt_calls t + j) w)"
  shows "\<exists>t'. spawn_loop f w exit_cond last_failure waits t = (Inr p, t')
    \<and> bt_calls t' = bt_calls t + i + 1
    \<and> total_nanos (bt_slept t') = total_nanos (bt_slept t) + total_nanos (take i waits)"
  using assms(2-4)
proof (induction waits arbitrary: i last_failure t)
  case (Cons wait waits)
  let ?t1 = "t\<lparr>bt_polls := bt_polls t + 1\<rparr>"
  have go: "\<not> exit_cond (bt_polls t)"
    using assms(1) by blast
  show ?case
  proof (cases i)
    case 0
    with Cons.prems go show ?thesis
      by (simp add: Let_def try_make_predictor_def)
  next
    case (Suc i')
    then have "factory_fails (f (bt_calls ?t1) w)"
      using Cons.prems(3) by (auto dest: spec [of _ 0])
    then obtain failure t2 where t2: "try_make_predictor f w wait exit_cond ?t1 = (Inl failure, t2)"
        "bt_calls t2 = bt_calls t + 1" "total_nanos (bt_slept t2) = total_nanos (bt_slept t) + as_nanos wait"
      using try_make_uncancelled [OF assms(1), of f ?t1 w wait] by auto
    have fails: "\<forall>j<i'. factory_fails (f (bt_calls t2 + j) w)"
      using Cons.prems(3) Suc t2(2) by (auto dest: spec [of _ "Suc _"])
    have "i' < length waits" "f (bt_calls t2 + i') w = Returned (Inr p)"
      using Cons.prems Suc t2(2) by simp_all
    from Cons.IH [OF this fails, of failure] go t2 Suc show ?thesis
      by (auto simp: Let_def)
  qed
qed simp

lemma total_nanos_le:
  assumes "\<forall>d \<in> set ds. as_nanos d \<le> b"
  shows "total_nanos ds \<le> length ds * b"
  using assms by (induction ds) auto

text \<open>The waits of a schedule add up to less than one maximal wait per retry.\<close>

lemma total_schedule:
  assumes "m \<le> DURATION_MAX" and "n \<noteq> 0"
  shows "total_nanos (backoff_schedule n b m) \<le> (unat n - 1) * as_nanos m"
proof -
  let ?s = "backoff_schedule n b m"
  have n: "0 < unat n" using assms(2) by (simp add: unat_gt_0)
  then have ne: "?s \<noteq> []"
    by (metis length_backoff_schedule length_greater_0_conv)
  have "last ?s = DURATION_ZERO"
    using n ne backoff_schedule_nth [OF assms(1), of "unat n - 1" n b]
    by (simp add: last_conv_nth)
  then have "?s = butlast ?s @ [DURATION_ZERO]"
    using ne append_butlast_last_id by metis
  then have "total_nanos ?s = total_nanos (butlast ?s)"
    by (metis total_nanos_simps(1,2,3) as_nanos_consts(1) add_0_right)
  also have "\<dots> \<le> length (butlast ?s) * as_nanos m"
    using backoff_schedule_le [OF assms(1)]
    by (intro total_nanos_le) (auto dest!: in_set_butlastD simp: duration_order_defs)
  finally show ?thesis by simp
qed

subsection \<open>Properties\<close>

text \<open>The back-off schedule in closed form: one wait per attempt, no wait after the last attempt,
  and before that the base back-off doubled once per failure, computed without wrap-around and capped
  at the configured maximum, for every number of attempts up to 255 and any maximum a Duration can
  hold (so saturation at Duration::MAX never shows).\<close>

theorem backoff_schedule_closed_form:
  assumes "max_wait \<le> DURATION_MAX"
  shows "backoff_schedule attempts base max_wait =
    map (\<lambda>k. if k = unat attempts - 1 then DURATION_ZERO else min (Duration (as_nanos base * 2 ^ k)) max_wait)
      [0..<unat attempts]"
  using backoff_schedule_nth [OF assms] by (intro nth_equalityI) simp_all

theorem backoff_schedule_closed_form_witness:
  "backoff_schedule 5 (from_millis 20) (from_millis 30) =
    [from_millis 20, from_millis 30, from_millis 30, from_millis 30, DURATION_ZERO]"
proof -
  have "from_millis 30 \<le> DURATION_MAX"
    by (simp add: duration_order_defs from_millis_def DURATION_MAX_def)
  from backoff_schedule_closed_form [OF this, of 5 "from_millis 20"] show ?thesis
    by (simp add: upt_rec from_millis_def min_def duration_order_defs)
qed

text \<open>The cancellable sleep always ends. It sleeps in slices of at most 20 ms and looks at the
  exit condition after every slice; if no look says exit it returns true after sleeping exactly the
  requested wait, otherwise it returns false right after the first look that says exit, having slept
  no longer than the wait.\<close>

theorem sleep_with_exit_slices:
  "\<exists>r ds. sleep_with_exit exit_cond k wait = (r, k + length ds, ds)
    \<and> (\<forall>d \<in> set ds. d \<le> from_millis 20)
    \<and> (\<forall>j. k \<le> j \<and> j + 1 < k + length ds \<longrightarrow> \<not> exit_cond j)
    \<and> (if r then total_nanos ds = as_nanos wait \<and> (ds \<noteq> [] \<longrightarrow> \<not> exit_cond (k + length ds - 1))
       else ds \<noteq> [] \<and> exit_cond (k + length ds - 1) \<and> total_nanos ds \<le> as_nanos wait)"
  using sleep_with_exit_right [of exit_cond k wait]
  by (cases "sleep_with_exit exit_cond k wait")
    (auto simp: slept_right_def EXIT_POLL_SLICE_def split: if_splits)

theorem sleep_with_exit_slices_witness:
  "\<exists>r ds. sleep_with_exit (\<lambda>k. k = 1) 0 (from_millis 50) = (r, length ds, ds)
    \<and> (\<forall>d \<in> set ds. d \<le> from_millis 20)"
  using sleep_with_exit_slices [of "\<lambda>k. k = 1" 0 "from_millis 50"] by auto

text \<open>C30: Building a predictor terminates and stays within its budget: the factory is called at most
  once per configured attempt, the thread sleeps at most (attempts - 1) maximal waits in total, every
  call before the last failed, and the result is explained by the calls: a predictor is the one the
  last call returned; the error (or panic) reported is that of the last of all the attempts; a
  cancellation was seen by some evaluation of the exit condition. The caller never gets the dummy
  initial failure.\<close>

theorem spawn_predictor_within_budget:
  assumes "total_attempts \<noteq> 0" and "max_wait \<le> DURATION_MAX"
  shows "\<exists>r t'. spawn_predictor f w total_attempts backoff max_wait exit_cond t = (r, t')
    \<and> bt_calls t' \<le> bt_calls t + unat total_attempts
    \<and> (\<forall>j. bt_calls t \<le> j \<and> j + 1 < bt_calls t' \<longrightarrow> factory_fails (f j w))
    \<and> (\<exists>ds. bt_slept t' = bt_slept t @ ds \<and> total_nanos ds \<le> (unat total_attempts - 1) * as_nanos max_wait)
    \<and> explains f w exit_cond (unat total_attempts) t t' r"
proof -
  let ?s = "backoff_schedule total_attempts backoff max_wait"
  obtain r t' where run: "spawn_loop f w exit_cond Cancelled ?s t = (r, t')"
    by fastforce
  have ne: "?s \<noteq> []"
    using assms(1) by (metis length_backoff_schedule list.size(3) unat_eq_zero)
  show ?thesis
    using spawn_loop_explained [OF run] ne total_schedule [OF assms(2,1), of backoff] run
    by (auto simp: spawn_predictor_def intro: order_trans)
qed

theorem spawn_predictor_within_budget_witness:
  "\<exists>r t'. spawn_predictor (\<lambda>n _. if n = 2 then Returned (Inr True) else Returned (Inl ''no model'')) 0 4
        (from_millis 100) (from_secs 5) (\<lambda>_. False) \<lparr>bt_calls = 0, bt_polls = 0, bt_slept = []\<rparr> = (r, t')
    \<and> bt_calls t' \<le> 4"
proof -
  have "(4 :: u8) \<noteq> 0" and "from_secs 5 \<le> DURATION_MAX"
    by (simp_all add: duration_order_defs from_secs_def DURATION_MAX_def)
  from spawn_predictor_within_budget [OF this,
      of "\<lambda>n _. if n = 2 then Returned (Inr True) else Returned (Inl ''no model'')" 0 "from_millis 100"
        "\<lambda>_. False" "\<lparr>bt_calls = 0, bt_polls = 0, bt_slept = []\<rparr>"]
  show ?thesis by auto
qed

text \<open>The retry loop finds the first success: when nobody cancels and call \<open>i\<close> (within the number
  of attempts) is the first to return a predictor, that predictor is the result after exactly
  \<open>i + 1\<close> calls, and the thread slept exactly the first \<open>i\<close> waits of the doubling schedule.\<close>

theorem spawn_predictor_first_success:
  assumes "\<forall>k. \<not> exit_cond k" and "i < unat total_attempts"
    and "f (bt_calls t + i) w = Returned (Inr p)" and "\<forall>j<i. factory_fails (f (bt_calls t + j) w)"
  shows "\<exists>t'. spawn_predictor f w total_attempts backoff max_wait exit_cond t = (Inr p, t')
    \<and> bt_calls t' = bt_calls t + i + 1
    \<and> total_nanos (bt_slept t') = total_nanos (bt_slept t)
        + total_nanos (take i (backoff_schedule total_attempts backoff max_wait))"
  unfolding spawn_predictor_def
  by (rule spawn_loop_first_success [of exit_cond i _ f t w p, OF assms(1) _ assms(3,4)])
    (simp add: assms(2))

theorem spawn_predictor_first_success_witness:
  "\<exists>t'. spawn_predictor (\<lambda>n _. if n = 2 then Returned (Inr True) else Returned (Inl ''no model'')) 0 4
        (from_millis 100) (from_secs 5) (\<lambda>_. False) \<lparr>bt_calls = 0, bt_polls = 0, bt_slept = []\<rparr> = (Inr True, t')
    \<and> bt_calls t' = 3"
  using spawn_predictor_first_success [of "\<lambda>_. False" 2 4
      "\<lambda>n _. if n = 2 then Returned (Inr True) else Returned (Inl ''no model'')"
      "\<lparr>bt_calls = 0, bt_polls = 0, bt_slept = []\<rparr>" 0 True "from_millis 100" "from_secs 5"]
  by (auto simp: factory_fails_def)

end
