(* ===== verification/Inference.thy ===== *)
theory Inference
  imports Worker_Shared Predictor_Build
begin

text \<open>
  The inference thread of a worker (\<open>src/worker/inf.rs\<close>, lines 143-354): its spawn, \<open>flush_batch\<close>, \<open>predict\<close>
  and \<open>inference_runner\<close>, which builds the predictor, reports the outcome, and then runs batches,
  rebuilding the predictor after a panic.

  The thread is a machine whose program points (\<open>inf_pc\<close>) lie between the accesses it makes to what
  it shares with the accumulator; \<open>inf_step\<close> executes the code from one point to the next. A choice
  names the step and carries what the environment answers during it: whether each caller of a batch
  has gone, the measured latency, what the polls of an exit condition see. \<open>None\<close> means the thread
  is blocked there.
\<close>

text \<open>User code: the factory, as in \<open>Predictor_Build\<close>; \<open>predict_batch\<close> returns the result and the
  predictor it has become, or panics.\<close>

record ('p, 'i, 'o, 'e, 'f) inf_args =
  ia_factory :: "nat \<Rightarrow> u8 \<Rightarrow> ('f + 'p) unwind"
  ia_predict_batch :: "'p \<Rightarrow> 'i list \<Rightarrow> (('e + 'o list) \<times> 'p) unwind"
  ia_worker_id :: u8
  ia_retries :: u8
  ia_backoff :: duration
  ia_max_wait :: duration
  ia_obs :: metrics_hook

type_synonym 'f start_ack = "'f startup_error + unit"

datatype ('p, 'i, 's) inf_pc =
    InfStarting
  | InfWaiting 'p
  | InfPredicting 'p "'i list" "'s list"
  | InfCrashing 'p "'s list"
  | InfRebuilding
  | InfFlushing 'p
  | InfReviving 'p
  | InfExiting
  | InfExited
  | InfReleased

record ('p, 'i, 's, 'f) inf_thread =
  it_pc :: "('p, 'i, 's) inf_pc"
  it_trace :: build_trace
  it_ack :: "'f start_ack option"
  it_shut :: bool

datatype 's inf_choice =
    InfStart "nat \<Rightarrow> bool" bool
  | InfSpawnFails
  | InfReceive "'s \<Rightarrow> bool"
  | InfPredict duration
  | InfHandlePanic
  | InfRebuild nat
  | InfFlush
  | InfRevive
  | InfDrop
  | InfRelease

definition new_inf_thread :: "('p, 'i, 's, 'f) inf_thread" where
  "new_inf_thread =
     \<lparr>it_pc = InfStarting, it_trace = \<lparr>bt_calls = 0, bt_polls = 0, bt_slept = []\<rparr>, it_ack = None, it_shut = False\<rparr>"

definition flush_batch ::
  "('j, ('i, 's) worker_buffer) mpsc \<Rightarrow> ('q, 'j, 's, 'o, 'e) worker_shared \<Rightarrow> ('q, 'j, 's, 'o, 'e) worker_shared" where
  "flush_batch J sh =
     (case mp_poll_recv J (sh_jobs sh) of
        (RecvMsg batch, j) \<Rightarrow>
          (case split_buffer batch of (_, senders) \<Rightarrow>
             log_effects (send_errors_on_crash senders) (sh\<lparr>sh_jobs := j\<rparr>))
      | (_, j) \<Rightarrow> sh\<lparr>sh_jobs := j\<rparr>)"

text \<open>\<open>predict\<close>, under the \<open>catch_unwind\<close> around its call.\<close>

definition predict_on_batch ::
  "('p \<Rightarrow> 'i list \<Rightarrow> (('e + 'o list) \<times> 'p) unwind) \<Rightarrow> duration \<Rightarrow> 'p \<Rightarrow> 'i list
     \<Rightarrow> ((inf_batch_metrics \<times> ('e + 'o list)) \<times> 'p) unwind" where
  "predict_on_batch predict_batch latency predictor input =
     (let sz = length input
      in case predict_batch predictor input of
           Returned (inf_results, predictor') \<Rightarrow>
             Returned ((\<lparr>im_size = sz, im_latency = latency\<rparr>, inf_results), predictor')
         | Panicked \<Rightarrow> Panicked)"

text \<open>The error a failed first build reports; a cancelled one reports nothing.\<close>

fun startup_failure :: "u8 \<Rightarrow> 'f build_failure \<Rightarrow> 'f startup_error option" where
  "startup_failure worker_id (BuildError err) = Some (WorkerStartFailure worker_id err)"
| "startup_failure worker_id BuildPanic = Some (WorkerStartPanic worker_id)"
| "startup_failure worker_id Cancelled = None"

text \<open>Unwinding out of a metrics hook: the predictor is dropped, then the guard runs.\<close>

definition inf_die ::
  "('p, 'i, 's, 'f) inf_thread \<times> ('q, 'j, 's, 'o, 'e) worker_shared
     \<Rightarrow> ('p, 'i, 's, 'f) inf_thread \<times> ('q, 'j, 's, 'o, 'e) worker_shared" where
  "inf_die = (\<lambda>(th, sh). (th\<lparr>it_pc := InfExiting\<rparr>, panic_guard_drop True (log_effects [DropPredictor] sh)))"

text \<open>The first build and its report. \<open>closed k\<close> is what the \<open>k\<close>-th look at the ack channel sees, and
  \<open>acked\<close> whether the send of \<open>Ok(())\<close> succeeds.\<close>

definition inf_start ::
  "('p, 'i, 'o, 'e, 'f) inf_args \<Rightarrow> (nat \<Rightarrow> bool) \<Rightarrow> bool
     \<Rightarrow> ('p, 'i, 's, 'f) inf_thread \<times> ('q, 'j, 's, 'o, 'e) worker_shared
     \<Rightarrow> ('p, 'i, 's, 'f) inf_thread \<times> ('q, 'j, 's, 'o, 'e) worker_shared" where
  "inf_start args closed acked = (\<lambda>(th, sh).
     let total_attempts = u8_saturating_add (ia_retries args) 1
     in case spawn_predictor (ia_factory args) (ia_worker_id args) total_attempts (ia_backoff args)
               (ia_max_wait args) closed (it_trace th) of
          (Inr predictor, t) \<Rightarrow>
            (if acked
             then (th\<lparr>it_pc := InfWaiting predictor, it_trace := t, it_ack := Some (Inr ())\<rparr>,
                   log_effects [BuiltPredictor] sh)
             else (th\<lparr>it_pc := InfExiting, it_trace := t\<rparr>, log_effects [BuiltPredictor, DropPredictor] sh))
        | (Inl failure, t) \<Rightarrow>
            (th\<lparr>it_pc := InfExiting, it_trace := t,
                it_ack := map_option Inl (startup_failure (ia_worker_id args) failure)\<rparr>,
             store_dead sh))"

text \<open>One turn of \<open>while let Some(mut buffer) = batch_recv.blocking_recv()\<close>, up to the call of the
  predictor. The cancelled requests are dropped by the filter.\<close>

definition inf_receive ::
  "('j, ('i, 's) worker_buffer) mpsc \<Rightarrow> ('s \<Rightarrow> bool) \<Rightarrow> 'p
     \<Rightarrow> ('p, 'i, 's, 'f) inf_thread \<times> ('q, 'j, 's, 'o, 'e) worker_shared
     \<Rightarrow> (('p, 'i, 's, 'f) inf_thread \<times> ('q, 'j, 's, 'o, 'e) worker_shared) option" where
  "inf_receive J gone predictor = (\<lambda>(th, sh).
     case mp_poll_recv J (sh_jobs sh) of
       (RecvEmpty, _) \<Rightarrow> None
     | (RecvClosed, j) \<Rightarrow>
         Some (th\<lparr>it_pc := InfExiting\<rparr>, log_effects [DropPredictor] (sh\<lparr>sh_jobs := j\<rparr>))
     | (RecvMsg buffer, j) \<Rightarrow>
         let sh1 = sh\<lparr>sh_jobs := j\<rparr>
         in Some (case filter_canceled gone buffer of
              None \<Rightarrow> inf_die (th, log_effects (map Dropped (sender_buffer buffer)) sh1)
            | Some live \<Rightarrow>
                let sh2 = log_effects (map Dropped (filter gone (sender_buffer buffer))) sh1
                in if buffer_is_empty live then (th\<lparr>it_pc := InfWaiting predictor\<rparr>, sh2)
                   else (case split_buffer live of (inf_input, senders) \<Rightarrow>
                     (th\<lparr>it_pc := InfPredicting predictor inf_input senders\<rparr>, sh2))))"

text \<open>The call of the predictor, and what follows it: the results go out, or the panic is noted.\<close>

definition inf_predict ::
  "('p, 'i, 'o, 'e, 'f) inf_args \<Rightarrow> duration \<Rightarrow> 'p \<Rightarrow> 'i list \<Rightarrow> 's list
     \<Rightarrow> ('p, 'i, 's, 'f) inf_thread \<times> ('q, 'j, 's, 'o, 'e) worker_shared
     \<Rightarrow> ('p, 'i, 's, 'f) inf_thread \<times> ('q, 'j, 's, 'o, 'e) worker_shared" where
  "inf_predict args latency predictor inf_input senders = (\<lambda>(th, sh).
     case predict_on_batch (ia_predict_batch args) latency predictor inf_input of
       Panicked \<Rightarrow> (th\<lparr>it_pc := InfCrashing predictor senders\<rparr>, store_predictor Rebuilding sh)
     | Returned ((metrics, inf_result), predictor') \<Rightarrow>
         (case send_output inf_result senders metrics (ia_obs args) of
            (es, Returned _) \<Rightarrow> (th\<lparr>it_pc := InfWaiting predictor'\<rparr>, log_effects es sh)
          | (es, Panicked) \<Rightarrow> inf_die (th, log_effects es sh)))"

text \<open>After a panic of the predictor: the panic metric, the errors for the running batch and for a
  queued one, the drop of the predictor. \<open>it_shut\<close> notes whether the job channel is closed when the rebuild
  begins.\<close>

definition inf_handle_panic ::
  "('p, 'i, 'o, 'e, 'f) inf_args \<Rightarrow> ('j, ('i, 's) worker_buffer) mpsc \<Rightarrow> 's list
     \<Rightarrow> ('p, 'i, 's, 'f) inf_thread \<times> ('q, 'j, 's, 'o, 'e) worker_shared
     \<Rightarrow> ('p, 'i, 's, 'f) inf_thread \<times> ('q, 'j, 's, 'o, 'e) worker_shared" where
  "inf_handle_panic args J senders = (\<lambda>(th, sh).
     case emit_worker_panic (ia_obs args) of
       (es, Panicked) \<Rightarrow> inf_die (th, log_effects (es @ map Dropped senders) sh)
     | (es, Returned _) \<Rightarrow>
         (let sh1 = log_effects (send_errors_on_crash senders) (log_effects es sh);
              sh2 = flush_batch J sh1
          in (th\<lparr>it_pc := InfRebuilding, it_shut := mp_senders_gone J (sh_jobs sh2)\<rparr>,
              log_effects [DropPredictor] sh2)))"

text \<open>The rebuild, from its first look at the job channel to its last. Its exit condition is
  \<open>batch_recv.is_closed()\<close>: every look sees the channel closed if it was closed before the rebuild began, no
  look does if it is still open at the end, and if it is closed in between, before look \<open>closes\<close>, the
  looks from there on do.\<close>

definition inf_rebuild ::
  "('p, 'i, 'o, 'e, 'f) inf_args \<Rightarrow> ('j, ('i, 's) worker_buffer) mpsc \<Rightarrow> nat
     \<Rightarrow> ('p, 'i, 's, 'f) inf_thread \<times> ('q, 'j, 's, 'o, 'e) worker_shared
     \<Rightarrow> ('p, 'i, 's, 'f) inf_thread \<times> ('q, 'j, 's, 'o, 'e) worker_shared" where
  "inf_rebuild args J closes = (\<lambda>(th, sh).
     let total_attempts = u8_saturating_add (ia_retries args) 1;
         exit_cond = (\<lambda>k. (it_shut th \<or> closes \<le> k) \<and> mp_senders_gone J (sh_jobs sh))
     in case spawn_predictor (ia_factory args) (ia_worker_id args) total_attempts (ia_backoff args)
               (ia_max_wait args) exit_cond (it_trace th) of
          (Inr new_predictor, t) \<Rightarrow>
            (th\<lparr>it_pc := InfFlushing new_predictor, it_trace := t\<rparr>, log_effects [BuiltPredictor] sh)
        | (Inl failure, t) \<Rightarrow>
            (th\<lparr>it_pc := InfExiting, it_trace := t\<rparr>, log_effects [NotifyWaiters] (store_dead sh)))"

text \<open>The thread drops its end of the job channel (a batch still queued goes with it), and only then,
  in \<open>spawn_inference_runner\<close>, its shutdown sender.\<close>

definition inf_drop ::
  "('j, ('i, 's) worker_buffer) mpsc
     \<Rightarrow> ('p, 'i, 's, 'f) inf_thread \<times> ('q, 'j, 's, 'o, 'e) worker_shared
     \<Rightarrow> ('p, 'i, 's, 'f) inf_thread \<times> ('q, 'j, 's, 'o, 'e) worker_shared" where
  "inf_drop J = (\<lambda>(th, sh).
     case mp_drop_receiver J (sh_jobs sh) of (batches, j) \<Rightarrow>
       (th\<lparr>it_pc := InfExited\<rparr>,
        log_effects (map Dropped (concat (map sender_buffer batches))) (sh\<lparr>sh_jobs := j\<rparr>)))"

text \<open>\<open>spawn_inference_runner\<close> when the system refuses the thread: the arguments of the runner are dropped
  with the closure, among them the receiver of the job channel, then the shutdown sender, and the
  failure is acked.\<close>

definition spawn_failed ::
  "('j, ('i, 's) worker_buffer) mpsc
     \<Rightarrow> ('p, 'i, 's, 'f) inf_thread \<times> ('q, 'j, 's, 'o, 'e) worker_shared
     \<Rightarrow> ('p, 'i, 's, 'f) inf_thread \<times> ('q, 'j, 's, 'o, 'e) worker_shared" where
  "spawn_failed J c =
     (case inf_drop J c of (th, sh) \<Rightarrow>
        (th\<lparr>it_pc := InfReleased, it_ack := Some (Inl StartupInternalError)\<rparr>, sh))"

fun inf_step ::
  "('p, 'i, 'o, 'e, 'f) inf_args \<Rightarrow> ('j, ('i, 's) worker_buffer) mpsc \<Rightarrow> 's inf_choice
     \<Rightarrow> ('p, 'i, 's, 'f) inf_thread \<times> ('q, 'j, 's, 'o, 'e) worker_shared
     \<Rightarrow> (('p, 'i, 's, 'f) inf_thread \<times> ('q, 'j, 's, 'o, 'e) worker_shared) option" where
  "inf_step args J (InfStart closed acked) (th, sh) =
     (case it_pc th of InfStarting \<Rightarrow> Some (inf_start args closed acked (th, sh)) | _ \<Rightarrow> None)"
| "inf_step args J InfSpawnFails (th, sh) =
     (case it_pc th of InfStarting \<Rightarrow> Some (spawn_failed J (th, sh)) | _ \<Rightarrow> None)"
| "inf_step args J (InfReceive gone) (th, sh) =
     (case it_pc th of InfWaiting predictor \<Rightarrow> inf_receive J gone predictor (th, sh) | _ \<Rightarrow> None)"
| "inf_step args J (InfPredict latency) (th, sh) =
     (case it_pc th of
        InfPredicting predictor ins senders \<Rightarrow> Some (inf_predict args latency predictor ins senders (th, sh))
      | _ \<Rightarrow> None)"
| "inf_step args J InfHandlePanic (th, sh) =
     (case it_pc th of
        InfCrashing predictor senders \<Rightarrow> Some (inf_handle_panic args J senders (th, sh)) | _ \<Rightarrow> None)"
| "inf_step args J (InfRebuild closes) (th, sh) =
     (case it_pc th of InfRebuilding \<Rightarrow> Some (inf_rebuild args J closes (th, sh)) | _ \<Rightarrow> None)"
| "inf_step args J InfFlush (th, sh) =
     (case it_pc th of
        InfFlushing predictor \<Rightarrow> Some (th\<lparr>it_pc := InfReviving predictor\<rparr>, flush_batch J sh)
      | _ \<Rightarrow> None)"
| "inf_step args J InfRevive (th, sh) =
     (case it_pc th of
        InfReviving predictor \<Rightarrow>
          Some (th\<lparr>it_pc := InfWaiting predictor\<rparr>, log_effects [NotifyWaiters] (store_predictor Alive sh))
      | _ \<Rightarrow> None)"
| "inf_step args J InfDrop (th, sh) =
     (case it_pc th of InfExiting \<Rightarrow> Some (inf_drop J (th, sh)) | _ \<Rightarrow> None)"
| "inf_step args J InfRelease (th, sh) =
     (case it_pc th of InfExited \<Rightarrow> Some (th\<lparr>it_pc := InfReleased\<rparr>, sh) | _ \<Rightarrow> None)"

end
