(* ===== verification/Worker_System.thy ===== *)
theory Worker_System
  imports Accumulator Inference
begin

text \<open>
  One worker as a whole: its accumulator task, its inference thread, what they share, and the
  callers, who push requests into the request channel and drop it (the last batcher handle). The
  three run concurrently: \<open>worker_step\<close> interleaves their steps in every order, with every answer of
  the environment. \<open>wk_accepted\<close> lists the requests the channel has taken so far; nothing reads it.

  The invariant proved here is what the properties of the two halves together rest on.
\<close>

record ('i, 's, 'p, 'f, 'q, 'j, 'o, 'e) worker_sys =
  wk_acc :: "('i, 's) acc_task"
  wk_inf :: "('p, 'i, 's, 'f) inf_thread"
  wk_shared :: "('q, 'j, 's, 'o, 'e) worker_shared"
  wk_accepted :: "('i \<times> 's) list"

text \<open>\<open>run_worker\<close> and \<open>make_runner\<close>: both halves at their first point, all channels open and empty.\<close>

definition new_worker_sys ::
  "('q, 'i \<times> 's) mpsc \<Rightarrow> ('j, ('i, 's) worker_buffer) mpsc \<Rightarrow> inner_config \<Rightarrow> nat \<Rightarrow> instant
     \<Rightarrow> ('i, 's, 'p, 'f, 'q, 'j, 'o, 'e) worker_sys" where
  "new_worker_sys Q J cfg queue_sz now =
     \<lparr>wk_acc = new_acc_task now, wk_inf = new_inf_thread,
      wk_shared = \<lparr>sh_state = new_worker_state cfg, sh_requests = mp_channel Q queue_sz,
        sh_jobs = mp_channel J JOB_QUEUE_DEPTH, sh_log = []\<rparr>,
      wk_accepted = []\<rparr>"

text \<open>What is fixed for a worker: its channels, the clock's end, its settings and the user's code.\<close>

record ('i, 's, 'p, 'f, 'q, 'j, 'o, 'e) worker_env =
  we_requests :: "('q, 'i \<times> 's) mpsc"
  we_jobs :: "('j, ('i, 's) worker_buffer) mpsc"
  we_imax :: instant
  we_worker :: inference_worker
  we_args :: "('p, 'i, 'o, 'e, 'f) inf_args"

inductive worker_step ::
  "('i, 's, 'p, 'f, 'q, 'j, 'o, 'e) worker_env \<Rightarrow> ('i, 's, 'p, 'f, 'q, 'j, 'o, 'e) worker_sys
     \<Rightarrow> ('i, 's, 'p, 'f, 'q, 'j, 'o, 'e) worker_sys \<Rightarrow> bool"
  for W :: "('i, 's, 'p, 'f, 'q, 'j, 'o, 'e) worker_env" where
  acc_moves: "acc_step (we_worker W) (we_imax W) (we_requests W) (we_jobs W) c (wk_acc s, wk_shared s) = Some (ac, sh)
    \<Longrightarrow> worker_step W s (s\<lparr>wk_acc := ac, wk_shared := sh\<rparr>)"
| inf_moves: "inf_step (we_args W) (we_jobs W) d (wk_inf s, wk_shared s) = Some (th, sh)
    \<Longrightarrow> worker_step W s (s\<lparr>wk_inf := th, wk_shared := sh\<rparr>)"
| caller_pushes: "\<not> mp_senders_gone (we_requests W) (sh_requests (wk_shared s))
    \<Longrightarrow> mp_try_send (we_requests W) msg (sh_requests (wk_shared s)) = (SendOk, q)
    \<Longrightarrow> worker_step W s (s\<lparr>wk_shared := (wk_shared s)\<lparr>sh_requests := q\<rparr>, wk_accepted := wk_accepted s @ [msg]\<rparr>)"
| handles_dropped: "worker_step W s (s\<lparr>wk_shared := (wk_shared s)
      \<lparr>sh_requests := mp_drop_senders (we_requests W) (sh_requests (wk_shared s))\<rparr>\<rparr>)"

inductive_cases worker_stepE: "worker_step W s t"

definition worker_start ::
  "('i, 's, 'p, 'f, 'q, 'j, 'o, 'e) worker_env \<Rightarrow> inner_config \<Rightarrow> nat
     \<Rightarrow> ('i, 's, 'p, 'f, 'q, 'j, 'o, 'e) worker_sys \<Rightarrow> bool" where
  "worker_start W cfg queue_sz s \<longleftrightarrow>
     (\<exists>now. s = new_worker_sys (we_requests W) (we_jobs W) cfg queue_sz now)"

abbreviation worker_reach ::
  "('i, 's, 'p, 'f, 'q, 'j, 'o, 'e) worker_env \<Rightarrow> inner_config \<Rightarrow> nat
     \<Rightarrow> ('i, 's, 'p, 'f, 'q, 'j, 'o, 'e) worker_sys \<Rightarrow> bool" where
  "worker_reach W cfg queue_sz \<equiv> reach (worker_start W cfg queue_sz) (worker_step W)"

subsection \<open>What the halves hold\<close>

fun acc_batch :: "('i, 's) acc_pc \<Rightarrow> ('i \<times> 's) list" where
  "acc_batch (Handoff b t) = pairs b"
| "acc_batch (AwaitPermit b t) = pairs b"
| "acc_batch (HavePermit b t) = pairs b"
| "acc_batch (SendJob b t) = pairs b"
| "acc_batch (DrainHandoff b) = pairs b"
| "acc_batch _ = []"

definition acc_pairs :: "('i, 's) acc_task \<Rightarrow> ('i \<times> 's) list" where
  "acc_pairs ac = pairs (ac_buffer ac) @ acc_batch (ac_pc ac)"

fun inf_senders :: "('p, 'i, 's) inf_pc \<Rightarrow> 's list" where
  "inf_senders (InfPredicting p ins ss) = ss"
| "inf_senders (InfCrashing p ss) = ss"
| "inf_senders _ = []"

fun owned_predictors :: "('p, 'i, 's) inf_pc \<Rightarrow> nat" where
  "owned_predictors (InfWaiting p) = 1"
| "owned_predictors (InfPredicting p ins ss) = 1"
| "owned_predictors (InfCrashing p ss) = 1"
| "owned_predictors (InfFlushing p) = 1"
| "owned_predictors (InfReviving p) = 1"
| "owned_predictors _ = 0"

text \<open>The status word at each point of the accumulator: \<open>st\<close> and \<open>n\<close> are its two fields, \<open>ps\<close> the
  pairs in the task's buffer and \<open>bs\<close> the batch size.\<close>

fun acc_pc_ok :: "nat \<Rightarrow> ('i, 's) acc_pc \<Rightarrow> ('i \<times> 's) list \<Rightarrow> worker_status \<Rightarrow> nat \<Rightarrow> bool" where
  "acc_pc_ok bs AwaitFirst ps st n \<longleftrightarrow> ps = [] \<and> st = Waiting \<and> n = 0"
| "acc_pc_ok bs Selecting ps st n \<longleftrightarrow> st = Waiting \<and> n = length ps \<and> 0 < n \<and> n < bs"
| "acc_pc_ok bs (CheckAlive t) ps st n \<longleftrightarrow> st = Waiting \<and> n = length ps \<and> 0 < n \<and> n \<le> bs"
| "acc_pc_ok bs DrainFlush ps st n \<longleftrightarrow> st = Waiting \<and> n \<le> length ps \<and> 0 < n \<and> n \<le> bs"
| "acc_pc_ok bs (Handoff b t) ps st n \<longleftrightarrow>
     ps = [] \<and> aligned b \<and> st = Waiting \<and> n = length (pairs b) \<and> 0 < n \<and> n \<le> bs"
| "acc_pc_ok bs (AwaitPermit b t) ps st n \<longleftrightarrow>
     ps = [] \<and> aligned b \<and> st = Running \<and> n = length (pairs b) \<and> 0 < n \<and> n \<le> bs"
| "acc_pc_ok bs (HavePermit b t) ps st n \<longleftrightarrow>
     ps = [] \<and> aligned b \<and> st = Running \<and> n = length (pairs b) \<and> 0 < n \<and> n \<le> bs"
| "acc_pc_ok bs (SendJob b t) ps st n \<longleftrightarrow>
     ps = [] \<and> aligned b \<and> st = Running \<and> n = length (pairs b) \<and> 0 < n \<and> n \<le> bs"
| "acc_pc_ok bs (DrainHandoff b) ps st n \<longleftrightarrow>
     ps = [] \<and> aligned b \<and> st = Running \<and> n \<le> length (pairs b) \<and> 0 < n \<and> n \<le> bs"
| "acc_pc_ok bs AccExiting ps st n \<longleftrightarrow> ps = [] \<and> n \<le> bs"
| "acc_pc_ok bs AccExited ps st n \<longleftrightarrow> ps = [] \<and> n \<le> bs"

fun acc_left :: "('i, 's) acc_pc \<Rightarrow> bool" where
  "acc_left AccExiting \<longleftrightarrow> True" | "acc_left AccExited \<longleftrightarrow> True" | "acc_left _ \<longleftrightarrow> False"

fun has_permit :: "('i, 's) acc_pc \<Rightarrow> bool" where
  "has_permit (HavePermit b t) \<longleftrightarrow> True" | "has_permit (SendJob b t) \<longleftrightarrow> True" | "has_permit _ \<longleftrightarrow> False"

fun inf_gone :: "('p, 'i, 's) inf_pc \<Rightarrow> bool" where
  "inf_gone InfExited \<longleftrightarrow> True" | "inf_gone InfReleased \<longleftrightarrow> True" | "inf_gone _ \<longleftrightarrow> False"

definition batch_ok :: "nat \<Rightarrow> ('i \<times> 's) set \<Rightarrow> ('i \<times> 's) list \<Rightarrow> bool" where
  "batch_ok bs A ps \<longleftrightarrow> 0 < length ps \<and> length ps \<le> bs \<and> set ps \<subseteq> A"

fun inf_pc_ok :: "nat \<Rightarrow> ('i \<times> 's) set \<Rightarrow> ('p, 'i, 's) inf_pc \<Rightarrow> bool" where
  "inf_pc_ok bs A (InfPredicting p ins ss) \<longleftrightarrow> length ins = length ss \<and> batch_ok bs A (zip ins ss)"
| "inf_pc_ok bs A _ \<longleftrightarrow> True"

text \<open>Why a caller got the reply it got: an output was computed for its own input, in a batch of
  accepted requests no longer than the batch size, and an error of the predictor by a call on such a
  batch. No reply is an error of the routing.\<close>

fun reply_explained ::
  "('p \<Rightarrow> 'i list \<Rightarrow> (('e + 'o list) \<times> 'p) unwind) \<Rightarrow> nat \<Rightarrow> ('i \<times> 's) set \<Rightarrow> 's \<times> ('o, 'e) reply \<Rightarrow> bool" where
  "reply_explained predict_batch bs A (s, Inr out) \<longleftrightarrow>
     (\<exists>p p' ps outs k. predict_batch p (map fst ps) = Returned (Inr outs, p') \<and> batch_ok bs A ps
        \<and> length outs = length ps \<and> k < length ps \<and> snd (ps ! k) = s \<and> outs ! k = out)"
| "reply_explained predict_batch bs A (s, Inl (InferenceError e)) \<longleftrightarrow>
     (\<exists>p p' ps. predict_batch p (map fst ps) = Returned (Inl e, p') \<and> batch_ok bs A ps \<and> s \<in> snd ` set ps)"
| "reply_explained predict_batch bs A (s, Inl InvalidPredictorOutput) \<longleftrightarrow>
     (\<exists>p p' ps outs. predict_batch p (map fst ps) = Returned (Inr outs, p') \<and> batch_ok bs A ps
        \<and> length outs \<noteq> length ps \<and> s \<in> snd ` set ps)"
| "reply_explained predict_batch bs A (s, Inl InternalError) \<longleftrightarrow> s \<in> snd ` A"
| "reply_explained predict_batch bs A (s, Inl _) \<longleftrightarrow> False"

lemma reply_explained_output:
  assumes "predict_batch p (map fst ps) = Returned (Inr outs, p')" and "batch_ok bs A ps"
    and "length outs = length ps" and "k < length ps"
  shows "reply_explained predict_batch bs A (snd (ps ! k), Inr (outs ! k))"
  unfolding reply_explained.simps using assms by blast

lemma reply_explained_invalid:
  assumes "predict_batch p (map fst ps) = Returned (Inr outs, p')" and "batch_ok bs A ps"
    and "length outs \<noteq> length ps" and "s \<in> snd ` set ps"
  shows "reply_explained predict_batch bs A (s, Inl InvalidPredictorOutput)"
  unfolding reply_explained.simps using assms by blast

lemma reply_explained_error:
  assumes "predict_batch p (map fst ps) = Returned (Inl e, p')" and "batch_ok bs A ps"
    and "s \<in> snd ` set ps"
  shows "reply_explained predict_batch bs A (s, Inl (InferenceError e))"
  unfolding reply_explained.simps using assms by blast

end
