(* ===== verification/Worker_Invariant.thy ===== *)
theory Worker_Invariant
  imports Worker_System
begin

text \<open>
  The invariant of a worker: the shared status agrees with where the accumulator is, every request
  taken is held in exactly one place or settled, the batches that travel are pairs of accepted
  requests within the batch size, every reply has its reason, and one predictor exists at most. It
  is proved step function by step function inside \<open>worker_model\<close>, over the contract of the two
  channels.
\<close>

definition config_is :: "inner_config \<Rightarrow> worker_state \<Rightarrow> bool" where
  "config_is cfg w \<longleftrightarrow> ws_config w = cfg"

lemma config_is_ops [status_simps]:
  "config_is cfg (set_predictor_state p w) = config_is cfg w"
  "config_is cfg (set_worker_state st w) = config_is cfg w"
  "config_is cfg (increment_len w) = config_is cfg w"
  "config_is cfg (reset_batch_len w) = config_is cfg w"
  "config_is cfg (new_worker_state cfg)"
  by (simp_all add: config_is_def status_simps)

lemma config_is_batch_size: "config_is cfg w \<Longrightarrow> ws_batch_size w = ic_batch_size cfg"
  by (simp add: config_is_def ws_batch_size_def)

definition shared_inv :: "inner_config \<Rightarrow> ('q, 'j, 's, 'o, 'e) worker_shared \<Rightarrow> bool" where
  "shared_inv cfg sh \<longleftrightarrow> ws_ok (sh_state sh) \<and> config_is cfg (sh_state sh)"

definition acc_inv ::
  "('q \<Rightarrow> ('i \<times> 's) list) \<Rightarrow> ('q \<Rightarrow> bool) \<Rightarrow> ('j \<Rightarrow> ('i, 's) worker_buffer list) \<Rightarrow> ('j \<Rightarrow> nat) \<Rightarrow> ('j \<Rightarrow> bool)
     \<Rightarrow> ('j \<Rightarrow> bool) \<Rightarrow> nat \<Rightarrow> ('i \<times> 's) set \<Rightarrow> ('i, 's) acc_task \<Rightarrow> ('q, 'j, 's, 'o, 'e) worker_shared \<Rightarrow> bool" where
  "acc_inv qi qr ji jc jr jt bs A ac sh \<longleftrightarrow>
     aligned (ac_buffer ac) \<and> set (acc_pairs ac) \<subseteq> A
     \<and> acc_pc_ok bs (ac_pc ac) (pairs (ac_buffer ac)) (the_status (sh_state sh)) (the_len (sh_state sh))
     \<and> (jt (sh_jobs sh) \<longleftrightarrow> \<not> acc_left (ac_pc ac))
     \<and> (qr (sh_requests sh) \<longleftrightarrow> ac_pc ac \<noteq> AccExited)
     \<and> (ac_pc ac = AccExited \<longrightarrow> qi (sh_requests sh) = [])
     \<and> jc (sh_jobs sh) = 1
     \<and> (has_permit (ac_pc ac) \<longrightarrow> ji (sh_jobs sh) = [])"

definition jobs_inv ::
  "('j \<Rightarrow> ('i, 's) worker_buffer list) \<Rightarrow> ('j \<Rightarrow> bool) \<Rightarrow> nat \<Rightarrow> ('i \<times> 's) set
     \<Rightarrow> ('q, 'j, 's, 'o, 'e) worker_shared \<Rightarrow> bool" where
  "jobs_inv ji jr bs A sh \<longleftrightarrow>
     length (ji (sh_jobs sh)) \<le> 1 \<and> (\<not> jr (sh_jobs sh) \<longrightarrow> ji (sh_jobs sh) = [])
     \<and> (\<forall>b \<in> set (ji (sh_jobs sh)). aligned b \<and> batch_ok bs A (pairs b))"

text \<open>The requests waiting, with the accumulator, queued as a job or settled, by their senders.\<close>

definition acc_held ::
  "('q \<Rightarrow> ('i \<times> 's) list) \<Rightarrow> ('j \<Rightarrow> ('i, 's) worker_buffer list)
     \<Rightarrow> ('i, 's) acc_task \<times> ('q, 'j, 's, 'o, 'e) worker_shared \<Rightarrow> 's multiset" where
  "acc_held qi ji = (\<lambda>(ac, sh).
     mset (settled (sh_log sh)) + mset (map snd (qi (sh_requests sh))) + mset (map snd (acc_pairs ac))
     + mset (map snd (concat (map pairs (ji (sh_jobs sh))))))"

text \<open>What a step of the accumulator adds to the log: replies that say \<open>InternalError\<close>, and no birth
  or death of a predictor.\<close>

definition acc_log ::
  "('i \<times> 's) set \<Rightarrow> ('q, 'j, 's, 'o, 'e) worker_shared \<Rightarrow> ('q, 'j, 's, 'o, 'e) worker_shared \<Rightarrow> bool" where
  "acc_log A sh sh' \<longleftrightarrow>
     set (replies (sh_log sh')) \<subseteq> set (replies (sh_log sh)) \<union> {x. snd x = Inl InternalError \<and> (\<exists>i. (i, fst x) \<in> A)}
     \<and> built_count (sh_log sh') = built_count (sh_log sh) \<and> drop_count (sh_log sh') = drop_count (sh_log sh)"

locale worker_model =
  req: mpsc_channel "we_requests W" qi qc qr qt + job: mpsc_channel "we_jobs W" ji jc jr jt
  for W :: "('i, 's, 'p, 'f, 'q, 'j, 'o, 'e) worker_env"
    and qi :: "'q \<Rightarrow> ('i \<times> 's) list" and qc qr qt
    and ji :: "'j \<Rightarrow> ('i, 's) worker_buffer list" and jc jr jt
  + fixes cfg :: inner_config and queue_sz :: nat
  assumes batch_size_pos: "ic_batch_size cfg \<noteq> 0" and queue_pos: "0 < queue_sz"
begin

abbreviation "bs \<equiv> unat (ic_batch_size cfg)"
abbreviation "held \<equiv> acc_held qi ji"

definition good :: "('i \<times> 's) set \<Rightarrow> ('i, 's) acc_task \<times> ('q, 'j, 's, 'o, 'e) worker_shared \<Rightarrow> bool" where
  "good A = (\<lambda>(ac, sh). acc_inv qi qr ji jc jr jt bs A ac sh \<and> jobs_inv ji jr bs A sh
     \<and> set (qi (sh_requests sh)) \<subseteq> A \<and> shared_inv cfg sh)"

definition trans_ok ::
  "('i \<times> 's) set \<Rightarrow> ('i, 's) acc_task \<times> ('q, 'j, 's, 'o, 'e) worker_shared
     \<Rightarrow> ('i, 's) acc_task \<times> ('q, 'j, 's, 'o, 'e) worker_shared \<Rightarrow> bool" where
  "trans_ok A c c' \<longleftrightarrow> good A c' \<and> held c' = held c \<and> acc_log A (snd c) (snd c')
     \<and> jr (sh_jobs (snd c')) = jr (sh_jobs (snd c))"

lemma bs_bound: "bs < 2 ^ 32"
  using unsigned_less [of "ic_batch_size cfg"] by simp

lemma bs_pos: "0 < bs"
  using batch_size_pos by (simp add: unat_gt_0)

lemma len_room: "n \<le> bs \<Longrightarrow> Suc n < 4611686018427387904"
  using bs_bound by simp

lemmas good_defs = good_def acc_inv_def jobs_inv_def shared_inv_def acc_pairs_def

text \<open>Leaving the loop.\<close>

lemma acc_leave_fields [simp]:
  "fst (acc_leave J pk batch c) = (fst c)\<lparr>ac_pc := AccExiting, ac_buffer := new_buffer\<rparr>"
  "sh_requests (snd (acc_leave J pk batch c)) = sh_requests (snd c)"
  "sh_jobs (snd (acc_leave J pk batch c)) = mp_drop_senders J (sh_jobs (snd c))"
  "sh_log (snd (acc_leave J pk batch c)) = sh_log (snd c)
     @ map Dropped (batch @ sender_buffer (ac_buffer (fst c)))
     @ (if pk then [StorePredictor Dead, NotifyWaiters] else [])"
  "sh_state (snd (acc_leave J pk batch c)) =
     (if pk then set_predictor_state Dead (sh_state (snd c)) else sh_state (snd c))"
  by (auto simp: acc_leave_def Let_def split: prod.splits)

text \<open>Facts about a state that is about to leave.\<close>

definition leaving :: "('i \<times> 's) set \<Rightarrow> ('i, 's) acc_task \<times> ('q, 'j, 's, 'o, 'e) worker_shared \<Rightarrow> bool" where
  "leaving A = (\<lambda>(ac, sh). aligned (ac_buffer ac) \<and> set (pairs (ac_buffer ac)) \<subseteq> A
     \<and> the_len (sh_state sh) \<le> bs \<and> qr (sh_requests sh) \<and> jc (sh_jobs sh) = 1
     \<and> jobs_inv ji jr bs A sh \<and> set (qi (sh_requests sh)) \<subseteq> A \<and> shared_inv cfg sh)"

lemma good_acc_leave:
  "leaving A c \<Longrightarrow> good A (acc_leave (we_jobs W) pk batch c)"
  using job.drop_senders [of "sh_jobs (snd c)"]
  by (simp add: good_defs leaving_def status_simps buffer_simps case_prod_unfold)

lemma held_acc_leave:
  "aligned (ac_buffer (fst c)) \<Longrightarrow> held (acc_leave (we_jobs W) pk batch c) =
     mset (settled (sh_log (snd c))) + mset batch + mset (map snd (qi (sh_requests (snd c))))
     + mset (map snd (pairs (ac_buffer (fst c)))) + mset (map snd (concat (map pairs (ji (sh_jobs (snd c))))))"
  using job.drop_senders [of "sh_jobs (snd c)"]
  by (simp add: acc_held_def acc_pairs_def case_prod_unfold buffer_simps effect_simps ac_simps)

lemma log_acc_leave:
  "acc_log A sh0 (snd c) \<Longrightarrow> acc_log A sh0 (snd (acc_leave (we_jobs W) pk batch c))"
  by (simp add: acc_log_def effect_simps)

text \<open>Taking requests.\<close>

lemma take_request_fields [simp]:
  "ac_pc (fst (take_request m c)) = ac_pc (fst c)"
  "ac_buffer (fst (take_request m c)) = buffer_push (fst m) (snd m) (ac_buffer (fst c))"
  "sh_requests (snd (take_request m c)) = sh_requests (snd c)"
  "sh_jobs (snd (take_request m c)) = sh_jobs (snd c)"
  "sh_log (snd (take_request m c)) = sh_log (snd c) @ [NotifyOne]"
  "sh_state (snd (take_request m c)) = increment_len (sh_state (snd c))"
  by (auto simp: take_request_def split: prod.splits)

lemma acc_log_refl: "acc_log A sh sh"
  by (simp add: acc_log_def)

lemma leave_trans:
  assumes "leaving A c" "acc_log A (snd c0) (snd c)" "jr (sh_jobs (snd c)) = jr (sh_jobs (snd c0))"
    and "mset (settled (sh_log (snd c))) + mset batch + mset (map snd (qi (sh_requests (snd c))))
     + mset (map snd (pairs (ac_buffer (fst c)))) + mset (map snd (concat (map pairs (ji (sh_jobs (snd c)))))) = held c0"
  shows "trans_ok A c0 (acc_leave (we_jobs W) pk batch c)"
proof -
  have "aligned (ac_buffer (fst c))"
    using assms(1) by (simp add: leaving_def case_prod_unfold)
  then show ?thesis
    using assms good_acc_leave [OF assms(1)] log_acc_leave [OF assms(2)] job.drop_senders
    by (simp add: trans_ok_def held_acc_leave)
qed

lemma recv_first_trans:
  assumes "good A (ac, sh)" and "ac_pc ac = AwaitFirst"
    and "recv_first (we_requests W) (we_jobs W) imax now (ac, sh) = Some c'"
  shows "trans_ok A (ac, sh) c'"
proof (cases rule: req.poll_recv_cases [of "sh_requests sh"])
  case (Msg m ms q)
  let ?sh1 = "sh\<lparr>sh_requests := q\<rparr>"
  have room: "Suc (the_len (sh_state sh)) < 4611686018427387904" "the_len (sh_state sh) = 0"
    using assms(1,2) by (auto simp: good_defs)
  have one: "bs = 1 \<longleftrightarrow> ic_batch_size cfg = 1"
    by (simp add: word_unat_eq_iff)
  show ?thesis
  proof (cases "reset_next_inf imax (sh_state (snd (take_request m (ac, ?sh1)))) now")
    case None
    have "leaving A (take_request m (ac, ?sh1))"
      using assms(1,2) Msg room bs_pos
      by (auto simp: leaving_def good_defs case_prod_unfold status_simps buffer_simps)
    moreover have "c' = acc_leave (we_jobs W) True [] (take_request m (ac, ?sh1))"
      using assms(3) Msg None by (simp add: recv_first_def case_prod_unfold)
    ultimately show ?thesis
      using assms(1,2) Msg
      by (auto intro!: leave_trans simp: acc_log_def acc_held_def good_defs buffer_simps)
  next
    case (Some t)
    have c': "c' = ((fst (take_request m (ac, ?sh1)))\<lparr>ac_next_inf := t,
        ac_pc := if ws_batch_size (sh_state sh) = 1 then CheckAlive Capacity else Selecting\<rparr>,
        snd (take_request m (ac, ?sh1)))"
      using assms(3) Msg Some
      by (auto simp: recv_first_def case_prod_unfold ws_batch_size_def status_simps)
    show ?thesis
      unfolding c' trans_ok_def
      using assms(1,2) Msg room bs_pos one
      by (auto simp: acc_log_def acc_held_def good_defs buffer_simps status_simps config_is_batch_size)
  qed
next
  case Empty
  with assms(3) show ?thesis by (simp add: recv_first_def)
next
  case Disconnected
  then have c': "c' = acc_leave (we_jobs W) False [] (ac, store_worker Exit sh)"
    using assms(3) by (simp add: recv_first_def)
  have "leaving A (ac, store_worker Exit sh)"
    using assms(1,2) by (auto simp: leaving_def good_defs status_simps buffer_simps)
  then show ?thesis
    unfolding c' using assms(1,2)
    by (auto intro!: leave_trans simp: acc_log_def acc_held_def good_defs)
qed

lemma leave_same:
  assumes "leaving A (ac, sh)" "acc_log A (snd c0) sh" "jr (sh_jobs sh) = jr (sh_jobs (snd c0))"
    and "mset (settled (sh_log sh)) + mset batch + mset (map snd (qi (sh_requests sh)))
     + mset (map snd (pairs (ac_buffer ac))) + mset (map snd (concat (map pairs (ji (sh_jobs sh))))) = held c0"
  shows "trans_ok A c0 (acc_leave (we_jobs W) pk batch (ac, sh))"
  using leave_trans [of A "(ac, sh)" c0 batch pk] assms by simp

lemma recv_more_trans:
  assumes "good A (ac, sh)" and "ac_pc ac = Selecting"
    and "recv_more (we_requests W) (we_jobs W) (ac, sh) = Some c'"
  shows "trans_ok A (ac, sh) c'"
proof (cases rule: req.poll_recv_cases [of "sh_requests sh"])
  case (Msg m ms q)
  let ?sh1 = "sh\<lparr>sh_requests := q\<rparr>"
  have room: "Suc (the_len (sh_state sh)) < 4611686018427387904"
    using assms(1,2) by (intro len_room) (auto simp: good_defs)
  have c': "c' = ((fst (take_request m (ac, ?sh1)))\<lparr>ac_pc :=
        if buffer_len (buffer_push (fst m) (snd m) (ac_buffer ac)) = unat (ws_batch_size (sh_state sh))
        then CheckAlive Capacity else Selecting\<rparr>, snd (take_request m (ac, ?sh1)))"
    using assms(3) Msg by (auto simp: recv_more_def case_prod_unfold ws_batch_size_def status_simps)
  show ?thesis
    unfolding c' trans_ok_def
    using assms(1,2) Msg room
    by (auto simp: acc_log_def acc_held_def good_defs buffer_simps status_simps config_is_batch_size
        wbuf.len_contents)
next
  case Empty
  with assms(3) show ?thesis by (simp add: recv_more_def)
next
  case Disconnected
  then have c': "c' = acc_leave (we_jobs W) False [] (ac, store_worker Exit sh)"
    using assms(3) by (simp add: recv_more_def)
  have "leaving A (ac, store_worker Exit sh)"
    using assms(1,2) by (auto simp: leaving_def good_defs status_simps buffer_simps)
  then show ?thesis
    unfolding c' using assms(1,2)
    by (auto intro!: leave_same simp: acc_log_def acc_held_def good_defs)
qed

lemma wake_trans:
  assumes "good A (ac, sh)" and "ac_pc ac = Selecting"
  shows "trans_ok A (ac, sh) (ac\<lparr>ac_pc := CheckAlive t\<rparr>, sh)"
  using assms by (auto simp: trans_ok_def acc_log_refl acc_held_def good_defs)

lemma check_predictor_alive_trans:
  assumes "good A (ac, sh)" and "ac_pc ac = CheckAlive t"
  shows "trans_ok A (ac, sh) (check_predictor_alive (we_jobs W) t (ac, sh))"
proof -
  have "get_predictor_state (sh_state sh) = Some (the_predictor (sh_state sh))"
    using assms(1) by (auto simp: good_defs status_simps)
  with assms show ?thesis
    by (cases "the_predictor (sh_state sh)")
      (auto simp: check_predictor_alive_def swap_replace_def trans_ok_def acc_log_refl acc_held_def
        good_defs buffer_simps)
qed

lemma flush_buffer_fields [simp]:
  "sh_requests (flush_buffer b sh) = sh_requests sh" "sh_jobs (flush_buffer b sh) = sh_jobs sh"
  "sh_state (flush_buffer b sh) = sh_state sh"
  "sh_log (flush_buffer b sh) = sh_log sh @ send_errors_on_crash (sender_buffer b)"
  by (simp_all add: flush_buffer_def split_buffer_def)

lemma crash_replies [effect_simps]:
  "set (replies (send_errors_on_crash ss)) = (\<lambda>s. (s, Inl InternalError)) ` set ss"
  by (simp add: effect_simps)

lemma in_pairs_ex: "(i, s) \<in> set ps \<Longrightarrow> set ps \<subseteq> A \<Longrightarrow> \<exists>i. (i, s) \<in> A"
  by blast

lemma drain_flush_trans:
  assumes "good A (ac, sh)" and "ac_pc ac = DrainFlush"
  shows "trans_ok A (ac, sh) (drain_flush (we_requests W) (ac, sh))"
proof (cases rule: req.poll_recv_cases [of "sh_requests sh"])
  case (Msg m ms q)
  with assms show ?thesis
    by (cases m) (auto simp: drain_flush_def trans_ok_def acc_log_def acc_held_def good_defs buffer_simps)
qed (use assms in \<open>auto intro: in_pairs_ex simp: drain_flush_def swap_replace_def trans_ok_def acc_log_def acc_held_def
      good_defs buffer_simps status_simps effect_simps\<close>)

text \<open>Before the batch has left the task: \<open>c\<close> is the state when the \<open>Sent\<close> arm starts.\<close>

lemma finish_sent_trans:
  assumes "leaving A (ac, sh)" "pairs (ac_buffer ac) = []" "\<not> acc_left (ac_pc ac)" "jt (sh_jobs sh)"
    and "acc_log A (snd c0) sh" "jr (sh_jobs sh) = jr (sh_jobs (snd c0))"
    and "mset (settled (sh_log sh)) + mset (map snd (qi (sh_requests sh)))
     + mset (map snd (concat (map pairs (ji (sh_jobs sh))))) = held c0"
  shows "trans_ok A c0 (finish_sent worker (we_jobs W) t n (ac, sh))"
proof -
  have "neutral (fst (emit_batch_start (iw_obs worker) t n :: ('s, 'o, 'e, unit) run))"
    by simp
  then show ?thesis
  proof (cases rule: neutral_run_cases)
  case (Fine es)
  with assms show ?thesis
    by (auto simp: finish_sent_def Let_def trans_ok_def neutral_def acc_log_def acc_held_def good_defs
        leaving_def status_simps)
next
  case (Panic es)
  with assms show ?thesis
    by (auto intro!: leave_same simp: finish_sent_def Let_def neutral_def acc_log_def leaving_def
        shared_inv_def jobs_inv_def status_simps)
  qed
qed

lemma start_handoff_trans:
  assumes "good A (ac, sh)" and "ac_pc ac = Handoff b t"
  shows "trans_ok A (ac, sh) (start_handoff worker (we_requests W) (we_jobs W) b t (ac, sh))"
proof -
  have "neutral (fst (emit_queue_depth (iw_obs worker) (iw_worker_id worker)
      (mp_len (we_requests W) (sh_requests sh)) :: ('s, 'o, 'e, unit) run))"
    by simp
  then show ?thesis
  proof (cases rule: neutral_run_cases)
  case (Fine es)
  have "\<not> buffer_is_empty b"
    using assms by (auto simp: good_defs buffer_simps)
  with assms Fine show ?thesis
    by (auto simp: start_handoff_def Let_def trans_ok_def neutral_def acc_log_def acc_held_def good_defs
        status_simps)
next
  case (Panic es)
  with assms show ?thesis
    by (auto intro!: leave_same simp: start_handoff_def Let_def neutral_def acc_log_def acc_held_def
        leaving_def good_defs buffer_simps status_simps)
  qed
qed

lemma reserve_job_trans:
  assumes "good A (ac, sh)" and "ac_pc ac = AwaitPermit b t"
    and "reserve_job worker (we_jobs W) b t (ac, sh) = Some c'"
  shows "trans_ok A (ac, sh) c'"
proof (cases "jr (sh_jobs sh)")
  case True
  with assms(3) have "length (ji (sh_jobs sh)) < jc (sh_jobs sh)" "c' = (ac\<lparr>ac_pc := HavePermit b t\<rparr>, sh)"
    by (auto simp: reserve_job_def job.reserve split: if_splits)
  with assms(1,2) show ?thesis
    by (auto simp: trans_ok_def acc_log_refl acc_held_def good_defs)
next
  case False
  have "neutral (fst (emit_queue_depth (iw_obs worker) (iw_worker_id worker) 0 :: ('s, 'o, 'e, unit) run))"
    by simp
  then show ?thesis
  proof (cases rule: neutral_run_cases)
    case (Fine es)
    have c': "c' = acc_leave (we_jobs W) False []
        (ac, store_worker Crashed (log_effects es (log_effects (map Dropped (sender_buffer b)) sh)))"
      using assms(3) Fine False by (simp add: reserve_job_def job.reserve Let_def)
    show ?thesis
      unfolding c' using assms(1,2) Fine
      by (auto intro!: leave_same simp: neutral_def acc_log_def acc_held_def leaving_def good_defs
          buffer_simps status_simps effect_simps)
  next
    case (Panic es)
    have c': "c' = acc_leave (we_jobs W) True []
        (ac, log_effects es (log_effects (map Dropped (sender_buffer b)) sh))"
      using assms(3) Panic False by (simp add: reserve_job_def job.reserve Let_def)
    show ?thesis
      unfolding c' using assms(1,2) Panic
      by (auto intro!: leave_same simp: neutral_def acc_log_def acc_held_def leaving_def good_defs
          buffer_simps status_simps effect_simps)
  qed
qed

lemma use_permit_trans:
  assumes "good A (ac, sh)" and "ac_pc ac = HavePermit b t"
  shows "trans_ok A (ac, sh) (use_permit (we_jobs W) b t (ac, sh))"
proof -
  have "get_predictor_state (sh_state sh) = Some (the_predictor (sh_state sh))"
    using assms(1) by (auto simp: good_defs status_simps)
  with assms show ?thesis
    by (auto simp: use_permit_def trans_ok_def acc_log_refl acc_held_def good_defs buffer_simps)
qed

lemma send_job_trans:
  assumes "good A (ac, sh)" and "ac_pc ac = SendJob b t"
  shows "trans_ok A (ac, sh) (send_job worker (we_jobs W) b t (ac, sh))"
proof (cases "jr (sh_jobs sh)")
  case True
  obtain j where j: "mp_permit_send (we_jobs W) b (sh_jobs sh) = ([], j)" "ji j = ji (sh_jobs sh) @ [b]"
      "jc j = jc (sh_jobs sh)" "jr j" "jt j = jt (sh_jobs sh)"
    using job.permit_send_ok [OF True] by blast
  with assms True show ?thesis
    by (auto intro!: finish_sent_trans simp: send_job_def acc_log_def acc_held_def leaving_def good_defs
        batch_ok_def buffer_simps)
next
  case False
  with assms job.permit_send_gone [OF False] show ?thesis
    by (auto intro!: finish_sent_trans simp: send_job_def acc_log_def acc_held_def leaving_def good_defs
        buffer_simps effect_simps)
qed

lemma drain_handoff_end:
  assumes "good A (ac, sh)" and "ac_pc ac = DrainHandoff b" and "qi (sh_requests sh) = []"
  shows "trans_ok A (ac, sh) (drain_handoff worker (we_requests W) (we_jobs W) b (ac, sh))"
proof -
  define r where "r = (emit_queue_depth (iw_obs worker) (iw_worker_id worker) 0 :: ('s, 'o, 'e, unit) run)"
  have drained: "drain_handoff worker (we_requests W) (we_jobs W) b (ac, sh) =
     (case r of
       (es, Panicked) \<Rightarrow> acc_leave (we_jobs W) True [] (ac, log_effects es (flush_buffer b sh))
     | (es, Returned _) \<Rightarrow>
         (ac\<lparr>ac_pc := AwaitFirst\<rparr>, update_len reset_batch_len (log_effects es (flush_buffer b sh))))"
    using assms(3) by (simp add: drain_handoff_def r_def Let_def req.chan_len req.poll_recv_empty)
  have "neutral (fst r)"
    by (simp add: r_def)
  then show ?thesis
  proof (cases rule: neutral_run_cases)
    case (Fine es)
    with assms show ?thesis
      by (auto intro: in_pairs_ex simp: drained trans_ok_def neutral_def acc_log_def acc_held_def
          good_defs buffer_simps status_simps effect_simps)
  next
    case (Panic es)
    with assms show ?thesis
      by (auto intro!: leave_same simp: drained neutral_def acc_log_def acc_held_def leaving_def
          good_defs buffer_simps status_simps effect_simps) blast+
  qed
qed

lemma drain_handoff_trans:
  assumes "good A (ac, sh)" and "ac_pc ac = DrainHandoff b"
  shows "trans_ok A (ac, sh) (drain_handoff worker (we_requests W) (we_jobs W) b (ac, sh))"
proof (cases rule: req.poll_recv_cases [of "sh_requests sh"])
  case (Msg m ms q)
  with assms show ?thesis
    by (cases m) (auto simp: drain_handoff_def trans_ok_def acc_log_def acc_held_def good_defs buffer_simps)
qed (use assms drain_handoff_end in blast)+

lemma acc_drop_trans:
  assumes "good A (ac, sh)" and "ac_pc ac = AccExiting"
  shows "trans_ok A (ac, sh) (acc_drop (we_requests W) (ac, sh))"
  using assms req.drop_receiver [of "sh_requests sh"]
  by (auto simp: acc_drop_def trans_ok_def acc_log_def acc_held_def good_defs effect_simps
      split: prod.splits)

lemma acc_step_trans:
  assumes "good A (ac, sh)"
    and "acc_step (we_worker W) (we_imax W) (we_requests W) (we_jobs W) c (ac, sh) = Some c'"
  shows "trans_ok A (ac, sh) c'"
  using assms
  by (cases c; cases "ac_pc ac")
    (auto intro: recv_first_trans recv_more_trans wake_trans check_predictor_alive_trans
      drain_flush_trans start_handoff_trans reserve_job_trans use_permit_trans send_job_trans
      drain_handoff_trans acc_drop_trans split: if_splits)

subsection \<open>The inference thread\<close>

abbreviation "explained A \<equiv> reply_explained (ia_predict_batch (we_args W)) bs A"

definition inf_good ::
  "('i \<times> 's) set \<Rightarrow> ('p, 'i, 's, 'f) inf_thread \<times> ('q, 'j, 's, 'o, 'e) worker_shared \<Rightarrow> bool" where
  "inf_good A = (\<lambda>(th, sh). inf_pc_ok bs A (it_pc th) \<and> jobs_inv ji jr bs A sh
     \<and> (jr (sh_jobs sh) \<longleftrightarrow> \<not> inf_gone (it_pc th))
     \<and> set (inf_senders (it_pc th)) \<subseteq> snd ` A
     \<and> built_count (sh_log sh) = drop_count (sh_log sh) + owned_predictors (it_pc th))"

definition inf_held ::
  "('p, 'i, 's, 'f) inf_thread \<times> ('q, 'j, 's, 'o, 'e) worker_shared \<Rightarrow> 's multiset" where
  "inf_held = (\<lambda>(th, sh). mset (settled (sh_log sh)) + mset (inf_senders (it_pc th))
     + mset (map snd (concat (map pairs (ji (sh_jobs sh))))))"

text \<open>What the thread leaves as it is.\<close>

definition inf_frame :: "('q, 'j, 's, 'o, 'e) worker_shared \<Rightarrow> ('q, 'j, 's, 'o, 'e) worker_shared \<Rightarrow> bool" where
  "inf_frame sh sh' \<longleftrightarrow> sh_requests sh' = sh_requests sh
     \<and> the_status (sh_state sh') = the_status (sh_state sh) \<and> the_len (sh_state sh') = the_len (sh_state sh)
     \<and> (shared_inv cfg sh \<longrightarrow> shared_inv cfg sh')
     \<and> jt (sh_jobs sh') = jt (sh_jobs sh) \<and> jc (sh_jobs sh') = jc (sh_jobs sh)
     \<and> (ji (sh_jobs sh) = [] \<longrightarrow> ji (sh_jobs sh') = [])"

definition inf_trans ::
  "('i \<times> 's) set \<Rightarrow> ('p, 'i, 's, 'f) inf_thread \<times> ('q, 'j, 's, 'o, 'e) worker_shared
     \<Rightarrow> ('p, 'i, 's, 'f) inf_thread \<times> ('q, 'j, 's, 'o, 'e) worker_shared \<Rightarrow> bool" where
  "inf_trans A c c' \<longleftrightarrow> inf_good A c' \<and> inf_frame (snd c) (snd c') \<and> inf_held c' = inf_held c
     \<and> set (replies (sh_log (snd c'))) \<subseteq> set (replies (sh_log (snd c))) \<union> {x. explained A x}"

lemmas inf_defs = inf_good_def inf_frame_def inf_held_def inf_trans_def jobs_inv_def shared_inv_def

lemma inf_die_fields [simp]:
  "fst (inf_die c) = (fst c)\<lparr>it_pc := InfExiting\<rparr>"
  "sh_requests (snd (inf_die c)) = sh_requests (snd c)" "sh_jobs (snd (inf_die c)) = sh_jobs (snd c)"
  "sh_state (snd (inf_die c)) = set_predictor_state Dead (sh_state (snd c))"
  "sh_log (snd (inf_die c)) = sh_log (snd c) @ [DropPredictor, StorePredictor Dead, NotifyWaiters]"
  by (auto simp: inf_die_def split: prod.splits)

lemma inf_start_trans:
  assumes "inf_good A (th, sh)" and "it_pc th = InfStarting"
  shows "inf_trans A (th, sh) (inf_start (we_args W) closed acked (th, sh))"
proof -
  obtain r t where "spawn_predictor (ia_factory (we_args W)) (ia_worker_id (we_args W))
      (u8_saturating_add (ia_retries (we_args W)) 1) (ia_backoff (we_args W)) (ia_max_wait (we_args W))
      closed (it_trace th) = (r, t)"
    by fastforce
  with assms show ?thesis
    by (cases r) (auto simp: inf_start_def Let_def inf_defs status_simps)
qed

lemma inf_rebuild_trans:
  assumes "inf_good A (th, sh)" and "it_pc th = InfRebuilding"
  shows "inf_trans A (th, sh) (inf_rebuild (we_args W) (we_jobs W) closes (th, sh))"
proof -
  obtain r t where "spawn_predictor (ia_factory (we_args W)) (ia_worker_id (we_args W))
      (u8_saturating_add (ia_retries (we_args W)) 1) (ia_backoff (we_args W)) (ia_max_wait (we_args W))
      (\<lambda>k. (it_shut th \<or> closes \<le> k) \<and> mp_senders_gone (we_jobs W) (sh_jobs sh)) (it_trace th) = (r, t)"
    by fastforce
  with assms show ?thesis
    by (cases r) (auto simp: inf_rebuild_def Let_def inf_defs status_simps)
qed

lemma mset_filter_split:
  "mset (filter gone (map snd ps)) + image_mset snd (filter_mset (\<lambda>p. \<not> gone (snd p)) (mset ps))
     = image_mset snd (mset ps)"
  by (induction ps) auto

lemma inf_receive_trans:
  assumes "inf_good A (th, sh)" and "it_pc th = InfWaiting p"
    and "inf_receive (we_jobs W) gone p (th, sh) = Some c'"
  shows "inf_trans A (th, sh) c'"
proof (cases rule: job.poll_recv_cases [of "sh_jobs sh"])
  case (Msg b bs' j)
  have b: "aligned b" "batch_ok bs A (pairs b)"
    using assms(1) Msg by (auto simp: inf_defs)
  obtain live where live: "filter_canceled gone b = Some live" "aligned live"
      "mset (pairs live) = filter_mset (\<lambda>q. \<not> gone (snd q)) (mset (pairs b))"
    using filter_canceled_correct [OF b(1)] .
  let ?sh2 = "log_effects (map Dropped (filter gone (sender_buffer b))) (sh\<lparr>sh_jobs := j\<rparr>)"
  have c': "c' = (if pairs live = [] then (th\<lparr>it_pc := InfWaiting p\<rparr>, ?sh2)
      else (th\<lparr>it_pc := InfPredicting p (map fst (pairs live)) (map snd (pairs live))\<rparr>, ?sh2))"
    using assms(3) Msg live by (auto simp: inf_receive_def Let_def buffer_simps split_buffer_def)
  have settle: "mset (filter gone (sender_buffer b)) + mset (map snd (pairs live)) = mset (map snd (pairs b))"
    using mset_filter_split [of gone "pairs b"] b(1) live(3) by (simp add: buffer_simps)
  have "set (pairs live) \<subseteq> set (pairs b)" "length (pairs live) \<le> length (pairs b)"
    using live(3) by (metis filter_is_subset mset_filter set_mset_mset,
        metis length_filter_le mset_filter size_mset)
  then have live_ok: "pairs live \<noteq> [] \<Longrightarrow> batch_ok bs A (pairs live)"
      "set (map snd (pairs live)) \<subseteq> snd ` A"
    using b(2) by (auto simp: batch_ok_def)
  show ?thesis
    using assms(1,2) Msg settle live_ok
    by (auto simp: c' inf_defs effect_simps zip_map_fst_snd ac_simps)
next
  case Empty
  with assms(3) show ?thesis by (simp add: inf_receive_def)
next
  case Disconnected
  with assms show ?thesis by (auto simp: inf_receive_def inf_defs)
qed

text \<open>Delivery of a batch: every reply has its reason.\<close>

lemma batch_replies_explained:
  assumes "ia_predict_batch (we_args W) p ins = Returned (res, p')" and "length ins = length ss"
    and "batch_ok bs A (zip ins ss)" and "x \<in> set (batch_replies res ss)"
  shows "explained A x"
proof -
  let ?ps = "zip ins ss"
  have ins: "ia_predict_batch (we_args W) p (map fst ?ps) = Returned (res, p')"
    and ss: "snd ` set ?ps = set ss" and len: "length ?ps = length ss"
    using assms(1,2) by (simp_all flip: list.set_map)
  note [simp del] = reply_explained.simps
  show ?thesis
  proof (cases res)
    case (Inl e)
    with assms(3,4) ins ss show ?thesis
      by (auto simp: batch_replies_def intro!: reply_explained_error)
  next
    case (Inr outs)
    show ?thesis
    proof (cases "length outs = length ss")
      case True
      with assms(4) Inr obtain k where "k < length ss" "x = (ss ! k, Inr (outs ! k))"
        by (auto simp: batch_replies_def set_zip)
      then show ?thesis
        using assms(2,3) ins len True Inr
        using reply_explained_output [of "ia_predict_batch (we_args W)" p ?ps outs p' bs A k] by simp
    next
      case False
      with assms(3,4) ins ss len Inr show ?thesis
        by (auto simp: batch_replies_def intro!: reply_explained_invalid)
    qed
  qed
qed

lemma inf_predict_trans:
  assumes "inf_good A (th, sh)" and "it_pc th = InfPredicting p ins ss"
  shows "inf_trans A (th, sh) (inf_predict (we_args W) latency p ins ss (th, sh))"
proof (cases "ia_predict_batch (we_args W) p ins")
  case Panicked
  with assms show ?thesis
    by (auto simp: inf_predict_def predict_on_batch_def inf_defs status_simps)
next
  case (Returned out)
  obtain res p' where out: "out = (res, p')"
    by fastforce
  let ?m = "\<lparr>im_size = length ins, im_latency = latency\<rparr>"
  obtain es r where send: "send_output res ss ?m (ia_obs (we_args W)) = (es, r)"
    by fastforce
  have ok: "length ins = length ss" "batch_ok bs A (zip ins ss)"
    using assms by (auto simp: inf_defs)
  have "set (replies es) \<subseteq> {x. explained A x}"
    using batch_replies_explained [of p ins res p' ss A] Returned out ok
      replies_send_output [of res ss ?m "ia_obs (we_args W)"] send_output_panic_silent [of res ss ?m "ia_obs (we_args W)"]
      send by (cases r) auto
  moreover have "settled es = ss" "built_count es = 0" "drop_count es = 0"
    using settled_send_output [of res ss ?m "ia_obs (we_args W)"]
      counts_dispatch(3,4) [of res ss ?m "ia_obs (we_args W)"] send by simp_all
  ultimately show ?thesis
    using assms Returned out send
    by (cases r) (auto simp: inf_predict_def predict_on_batch_def inf_die_def inf_defs status_simps)
qed

lemma flush_batch_fields:
  obtains batches j where "sh_jobs (flush_batch (we_jobs W) sh) = j"
    "sh_log (flush_batch (we_jobs W) sh) = sh_log sh @ send_errors_on_crash (concat (map sender_buffer batches))"
    "sh_requests (flush_batch (we_jobs W) sh) = sh_requests sh" "sh_state (flush_batch (we_jobs W) sh) = sh_state sh"
    "ji (sh_jobs sh) = batches @ ji j" "jc j = jc (sh_jobs sh)" "jr j = jr (sh_jobs sh)" "jt j = jt (sh_jobs sh)"
proof (cases rule: job.poll_recv_cases [of "sh_jobs sh"])
  case (Msg m ms q)
  then show thesis
    by (intro that [of q "[m]"]) (simp_all add: flush_batch_def split_buffer_def)
next
  case Empty
  then show thesis
    by (intro that [of "sh_jobs sh" "[]"]) (simp_all add: flush_batch_def send_errors_on_crash_def)
next
  case Disconnected
  then show thesis
    by (intro that [of "sh_jobs sh" "[]"]) (simp_all add: flush_batch_def send_errors_on_crash_def)
qed

lemma senders_of_batches:
  "\<forall>b \<in> set batches. aligned b \<and> batch_ok bs A (pairs b) \<Longrightarrow>
     concat (map sender_buffer batches) = map snd (concat (map pairs batches))
     \<and> set (map snd (concat (map pairs batches))) \<subseteq> snd ` A"
  by (induction batches) (auto simp: buffer_simps batch_ok_def)

lemma crash_explained:
  "set ss \<subseteq> snd ` A \<Longrightarrow> set (replies (send_errors_on_crash ss)) \<subseteq> {x. explained A x}"
  by (auto simp: effect_simps)

lemma inf_flush_trans:
  assumes "inf_good A (th, sh)" and "inf_senders pc = []" "owned_predictors pc = owned_predictors (it_pc th)"
    "inf_senders (it_pc th) = []" "\<not> inf_gone pc" "\<not> inf_gone (it_pc th)" "inf_pc_ok bs A pc"
  shows "inf_trans A (th, sh) (th\<lparr>it_pc := pc\<rparr>, flush_batch (we_jobs W) sh)"
proof (rule flush_batch_fields [of sh])
  fix batches j
  assume fl: "sh_jobs (flush_batch (we_jobs W) sh) = j"
    "sh_log (flush_batch (we_jobs W) sh) = sh_log sh @ send_errors_on_crash (concat (map sender_buffer batches))"
    "sh_requests (flush_batch (we_jobs W) sh) = sh_requests sh" "sh_state (flush_batch (we_jobs W) sh) = sh_state sh"
    "ji (sh_jobs sh) = batches @ ji j" "jc j = jc (sh_jobs sh)" "jr j = jr (sh_jobs sh)" "jt j = jt (sh_jobs sh)"
  have "\<forall>b \<in> set batches. aligned b \<and> batch_ok bs A (pairs b)"
    using assms(1) fl(5) by (auto simp: inf_defs)
  note sb = senders_of_batches [OF this]
  with crash_explained [of "concat (map sender_buffer batches)" A] show ?thesis
    using assms fl by (auto simp: inf_defs settled_send_errors_on_crash(1) counts_dispatch)
qed

lemma inf_trans_trans:
  assumes "inf_trans A c c1" and "inf_trans A c1 c2"
  shows "inf_trans A c c2"
  using assms by (auto simp: inf_trans_def inf_frame_def)

lemma inf_handle_panic_trans:
  assumes "inf_good A (th, sh)" and "it_pc th = InfCrashing p ss"
  shows "inf_trans A (th, sh) (inf_handle_panic (we_args W) (we_jobs W) ss (th, sh))"
proof -
  have "neutral (fst (emit_worker_panic (ia_obs (we_args W)) :: ('s, 'o, 'e, unit) run))"
    by simp
  then show ?thesis
  proof (cases rule: neutral_run_cases)
    case (Fine es)
    let ?sh1 = "log_effects [DropPredictor] (log_effects (send_errors_on_crash ss) (log_effects es sh))"
    let ?sh2 = "flush_batch (we_jobs W) (log_effects (send_errors_on_crash ss) (log_effects es sh))"
    have "inf_trans A (th, sh) (th\<lparr>it_pc := InfFlushing p\<rparr>,
        log_effects (send_errors_on_crash ss) (log_effects es sh))"
      using assms Fine crash_explained [of ss A]
      by (auto simp: inf_defs neutral_def settled_send_errors_on_crash(1) counts_dispatch)
    moreover from this have "inf_trans A (th\<lparr>it_pc := InfFlushing p\<rparr>,
        log_effects (send_errors_on_crash ss) (log_effects es sh)) (th\<lparr>it_pc := InfFlushing p\<rparr>, ?sh2)"
      using inf_flush_trans [of A "th\<lparr>it_pc := InfFlushing p\<rparr>"
          "log_effects (send_errors_on_crash ss) (log_effects es sh)" "InfFlushing p"]
      by (simp add: inf_trans_def)
    ultimately have "inf_trans A (th, sh) (th\<lparr>it_pc := InfFlushing p\<rparr>, ?sh2)"
      by (rule inf_trans_trans)
    then have "inf_trans A (th, sh) (th\<lparr>it_pc := InfRebuilding, it_shut := b\<rparr>, log_effects [DropPredictor] ?sh2)" for b
      by (auto simp: inf_defs)
    with Fine show ?thesis
      by (simp add: inf_handle_panic_def Let_def)
  next
    case (Panic es)
    with assms show ?thesis
      by (auto simp: inf_handle_panic_def inf_die_def inf_defs neutral_def status_simps effect_simps)
  qed
qed

lemma inf_drop_trans:
  assumes "inf_good A (th, sh)" and "it_pc th = InfExiting"
  shows "inf_trans A (th, sh) (inf_drop (we_jobs W) (th, sh))"
proof -
  obtain batches j where dr: "mp_drop_receiver (we_jobs W) (sh_jobs sh) = (batches, j)"
    by fastforce
  have "\<forall>b \<in> set (ji (sh_jobs sh)). aligned b \<and> batch_ok bs A (pairs b)"
    using assms(1) by (auto simp: inf_defs)
  note sb = senders_of_batches [OF this]
  with job.drop_receiver [of "sh_jobs sh"] dr assms show ?thesis
    by (auto simp: inf_drop_def inf_defs effect_simps)
qed

lemma spawn_failed_trans:
  assumes "inf_good A (th, sh)" and "it_pc th = InfStarting"
  shows "inf_trans A (th, sh) (spawn_failed (we_jobs W) (th, sh))"
proof -
  have "inf_trans A (th\<lparr>it_pc := InfExiting\<rparr>, sh) (inf_drop (we_jobs W) (th\<lparr>it_pc := InfExiting\<rparr>, sh))"
    using assms by (intro inf_drop_trans) (auto simp: inf_defs)
  with assms(2) show ?thesis
    by (auto simp: spawn_failed_def inf_drop_def inf_defs split: prod.splits)
qed

lemma inf_step_trans:
  assumes "inf_good A (th, sh)"
    and "inf_step (we_args W) (we_jobs W) d (th, sh) = Some c'"
  shows "inf_trans A (th, sh) c'"
proof (cases d)
  case InfFlush
  with assms show ?thesis
    by (cases "it_pc th") (auto intro!: inf_flush_trans)
next
  case InfRevive
  with assms show ?thesis
    by (cases "it_pc th") (auto simp: inf_defs status_simps)
next
  case InfRelease
  with assms show ?thesis
    by (cases "it_pc th") (auto simp: inf_defs)
next
  case InfReceive
  with assms show ?thesis
    by (cases "it_pc th") (auto intro: inf_receive_trans)
qed (use assms in \<open>cases "it_pc th", auto intro: inf_start_trans inf_predict_trans inf_handle_panic_trans
      inf_rebuild_trans inf_drop_trans spawn_failed_trans\<close>)+

subsection \<open>The whole worker\<close>

definition sys_inv :: "('i, 's, 'p, 'f, 'q, 'j, 'o, 'e) worker_sys \<Rightarrow> bool" where
  "sys_inv s \<longleftrightarrow> good (set (wk_accepted s)) (wk_acc s, wk_shared s)
     \<and> inf_good (set (wk_accepted s)) (wk_inf s, wk_shared s)
     \<and> mset (map snd (wk_accepted s)) = held (wk_acc s, wk_shared s) + mset (inf_senders (it_pc (wk_inf s)))
     \<and> set (replies (sh_log (wk_shared s))) \<subseteq> {x. explained (set (wk_accepted s)) x}"

lemma batch_ok_mono: "batch_ok n A ps \<Longrightarrow> A \<subseteq> B \<Longrightarrow> batch_ok n B ps"
  by (auto simp: batch_ok_def)

lemma reply_explained_mono:
  assumes "reply_explained pb n A x" and "A \<subseteq> B"
  shows "reply_explained pb n B x"
  using assms(1)
proof (cases rule: reply_explained.cases [of "(pb, n, A, x)"])
  case (1 pb' n' A' s out)
  with assms batch_ok_mono [OF _ assms(2)] show ?thesis
    by (simp only: prod.inject reply_explained.simps) blast
next
  case (2 pb' n' A' s e)
  with assms batch_ok_mono [OF _ assms(2)] show ?thesis
    by (simp only: prod.inject reply_explained.simps) blast
next
  case (3 pb' n' A' s)
  with assms batch_ok_mono [OF _ assms(2)] show ?thesis
    by (simp only: prod.inject reply_explained.simps) blast
qed (use assms in auto)

lemma inf_pc_ok_mono: "inf_pc_ok n A pc \<Longrightarrow> A \<subseteq> B \<Longrightarrow> inf_pc_ok n B pc"
  by (cases pc) (auto intro: batch_ok_mono)

lemma start_inv:
  assumes "worker_start W cfg queue_sz s"
  shows "sys_inv s"
  using assms job.channel_new [of 1] req.channel_new [OF queue_pos]
  by (auto simp: worker_start_def new_worker_sys_def new_acc_task_def new_inf_thread_def sys_inv_def
      good_defs inf_good_def acc_held_def JOB_QUEUE_DEPTH_def buffer_simps status_simps)

lemma acc_step_inv:
  assumes "sys_inv s" and "trans_ok (set (wk_accepted s)) (wk_acc s, wk_shared s) (ac, sh)"
  shows "sys_inv (s\<lparr>wk_acc := ac, wk_shared := sh\<rparr>)"
proof -
  let ?A = "set (wk_accepted s)"
  have tr: "good ?A (ac, sh)" "held (ac, sh) = held (wk_acc s, wk_shared s)"
      "acc_log ?A (wk_shared s) sh" "jr (sh_jobs sh) = jr (sh_jobs (wk_shared s))"
    using assms(2) by (simp_all add: trans_ok_def)
  have "{x. snd x = Inl InternalError \<and> (\<exists>i. (i, fst x) \<in> ?A)} \<subseteq> {x. explained ?A x}"
    by force
  then have "set (replies (sh_log sh)) \<subseteq> {x. explained ?A x}"
    using assms(1) tr(3) unfolding sys_inv_def acc_log_def by blast
  moreover have "inf_good ?A (wk_inf s, sh)"
    using assms(1) tr by (simp add: sys_inv_def inf_good_def acc_log_def good_def)
  ultimately show ?thesis
    using assms(1) tr by (simp add: sys_inv_def)
qed

lemma inf_step_inv:
  assumes "sys_inv s" and "inf_trans (set (wk_accepted s)) (wk_inf s, wk_shared s) (th, sh)"
  shows "sys_inv (s\<lparr>wk_inf := th, wk_shared := sh\<rparr>)"
proof -
  let ?A = "set (wk_accepted s)"
  have fr: "inf_frame (wk_shared s) sh" "jobs_inv ji jr bs ?A sh"
    and held: "inf_held (th, sh) = inf_held (wk_inf s, wk_shared s)"
    using assms(2) by (auto simp: inf_trans_def inf_good_def)
  then have "good ?A (wk_acc s, sh)"
    using assms(1) by (auto simp: sys_inv_def good_def acc_inv_def inf_frame_def)
  moreover have "held (wk_acc s, sh) + mset (inf_senders (it_pc th)) =
      held (wk_acc s, wk_shared s) + mset (inf_senders (it_pc (wk_inf s)))"
    using held fr(1) by (simp add: acc_held_def inf_held_def inf_frame_def ac_simps)
  ultimately show ?thesis
    using assms by (auto simp: sys_inv_def inf_trans_def)
qed

lemma push_inv:
  assumes "sys_inv s" and "mp_try_send (we_requests W) msg (sh_requests (wk_shared s)) = (SendOk, q)"
  shows "sys_inv (s\<lparr>wk_shared := (wk_shared s)\<lparr>sh_requests := q\<rparr>, wk_accepted := wk_accepted s @ [msg]\<rparr>)"
proof -
  let ?A = "set (wk_accepted s)" and ?B = "set (wk_accepted s @ [msg])"
  have AB: "?A \<subseteq> ?B" by auto
  have q: "qr (sh_requests (wk_shared s))" "qi q = qi (sh_requests (wk_shared s)) @ [msg]" "qr q"
    using req.try_send_SendOk [OF assms(2)] by auto
  have "good ?B (wk_acc s, (wk_shared s)\<lparr>sh_requests := q\<rparr>)"
    using assms(1) q batch_ok_mono [OF _ AB] by (auto simp: sys_inv_def good_defs)
  moreover have "inf_good ?B (wk_inf s, (wk_shared s)\<lparr>sh_requests := q\<rparr>)"
    using assms(1) batch_ok_mono [OF _ AB] inf_pc_ok_mono [OF _ AB]
    by (auto simp: sys_inv_def inf_good_def jobs_inv_def)
  moreover have "set (replies (sh_log (wk_shared s))) \<subseteq> {x. explained ?B x}"
    using assms(1) reply_explained_mono [OF _ AB] unfolding sys_inv_def by blast
  ultimately show ?thesis
    using assms(1) q(2) by (simp add: sys_inv_def acc_held_def)
qed

lemma drop_handles_inv:
  assumes "sys_inv s"
  shows "sys_inv (s\<lparr>wk_shared := (wk_shared s)
      \<lparr>sh_requests := mp_drop_senders (we_requests W) (sh_requests (wk_shared s))\<rparr>\<rparr>)"
  using assms req.drop_senders [of "sh_requests (wk_shared s)"]
  by (auto simp: sys_inv_def good_defs inf_good_def acc_held_def)

lemma step_inv:
  assumes "sys_inv s" and "worker_step W s t"
  shows "sys_inv t"
  using assms(2)
proof (cases rule: worker_step.cases)
  case (acc_moves c ac sh)
  have "good (set (wk_accepted s)) (wk_acc s, wk_shared s)"
    using assms(1) by (simp add: sys_inv_def)
  from acc_step_inv [OF assms(1) acc_step_trans [OF this acc_moves(2)]] show ?thesis
    unfolding acc_moves(1) .
next
  case (inf_moves d th sh)
  have "inf_good (set (wk_accepted s)) (wk_inf s, wk_shared s)"
    using assms(1) by (simp add: sys_inv_def)
  from inf_step_inv [OF assms(1) inf_step_trans [OF this inf_moves(2)]] show ?thesis
    unfolding inf_moves(1) .
next
  case (caller_pushes msg q)
  from push_inv [OF assms(1) caller_pushes(3)] show ?thesis
    unfolding caller_pushes(1) .
next
  case handles_dropped
  from drop_handles_inv [OF assms(1)] show ?thesis
    unfolding handles_dropped(1) .
qed

end

sublocale worker_model \<subseteq> sys: invariant_system "worker_start W cfg queue_sz" "worker_step W" sys_inv
  by unfold_locales (fact start_inv, fact step_inv)

end
