(* ===== verification/Worker_Liveness.thy ===== *)
theory Worker_Liveness
  imports Worker_Invariant
begin

text \<open>
  A worker does not spin and does not get stuck with work: every step of its own threads decreases a
  measure that only a new request increases, and where no thread can move every request taken has
  been settled.
\<close>

definition own_step ::
  "('i, 's, 'p, 'f, 'q, 'j, 'o, 'e) worker_env \<Rightarrow> ('i, 's, 'p, 'f, 'q, 'j, 'o, 'e) worker_sys
     \<Rightarrow> ('i, 's, 'p, 'f, 'q, 'j, 'o, 'e) worker_sys \<Rightarrow> bool" where
  "own_step W s t \<longleftrightarrow>
     (\<exists>c ac sh. acc_step (we_worker W) (we_imax W) (we_requests W) (we_jobs W) c (wk_acc s, wk_shared s) = Some (ac, sh)
        \<and> t = s\<lparr>wk_acc := ac, wk_shared := sh\<rparr>)
     \<or> (\<exists>d th sh. inf_step (we_args W) (we_jobs W) d (wk_inf s, wk_shared s) = Some (th, sh)
        \<and> t = s\<lparr>wk_inf := th, wk_shared := sh\<rparr>)"

lemma own_step_worker_step: "own_step W s t \<Longrightarrow> worker_step W s t"
  by (auto simp: own_step_def intro: worker_step.acc_moves worker_step.inf_moves)

fun acc_weight :: "('i, 's) acc_pc \<Rightarrow> nat" where
  "acc_weight AccExited = 0"
| "acc_weight AccExiting = 1"
| "acc_weight AwaitFirst = 2"
| "acc_weight DrainFlush = 3"
| "acc_weight (DrainHandoff b) = 3"
| "acc_weight (SendJob b t) = 9"
| "acc_weight (HavePermit b t) = 10"
| "acc_weight (AwaitPermit b t) = 11"
| "acc_weight (Handoff b t) = 12"
| "acc_weight (CheckAlive t) = 13"
| "acc_weight Selecting = 14"

fun inf_weight :: "('p, 'i, 's) inf_pc \<Rightarrow> nat" where
  "inf_weight InfReleased = 0"
| "inf_weight InfExited = 1"
| "inf_weight InfExiting = 2"
| "inf_weight (InfWaiting p) = 3"
| "inf_weight InfStarting = 4"
| "inf_weight (InfReviving p) = 4"
| "inf_weight (InfFlushing p) = 5"
| "inf_weight InfRebuilding = 6"
| "inf_weight (InfCrashing p ss) = 7"
| "inf_weight (InfPredicting p ins ss) = 8"

definition worker_measure ::
  "('q \<Rightarrow> ('i \<times> 's) list) \<Rightarrow> ('j \<Rightarrow> ('i, 's) worker_buffer list)
     \<Rightarrow> ('i, 's, 'p, 'f, 'q, 'j, 'o, 'e) worker_sys \<Rightarrow> nat" where
  "worker_measure qi ji s =
     16 * length (qi (sh_requests (wk_shared s))) + acc_weight (ac_pc (wk_acc s))
     + 6 * length (ji (sh_jobs (wk_shared s))) + inf_weight (it_pc (wk_inf s))"

lemma Reply_in_replies: "Reply r x \<in> set es \<longleftrightarrow> (r, x) \<in> set (replies es)"
  by (induction es rule: replies.induct) auto

context worker_model
begin

definition acc_measure :: "('i, 's) acc_task \<times> ('q, 'j, 's, 'o, 'e) worker_shared \<Rightarrow> nat" where
  "acc_measure c = 16 * length (qi (sh_requests (snd c))) + acc_weight (ac_pc (fst c))
     + 6 * length (ji (sh_jobs (snd c)))"

definition inf_measure :: "('p, 'i, 's, 'f) inf_thread \<times> ('q, 'j, 's, 'o, 'e) worker_shared \<Rightarrow> nat" where
  "inf_measure c = 6 * length (ji (sh_jobs (snd c))) + inf_weight (it_pc (fst c))"

lemma acc_leave_measure:
  "acc_measure (acc_leave (we_jobs W) pk batch c) =
     16 * length (qi (sh_requests (snd c))) + 1 + 6 * length (ji (sh_jobs (snd c)))"
  using job.drop_senders [of "sh_jobs (snd c)"] by (simp add: acc_measure_def)

lemma finish_sent_measure:
  "acc_measure (finish_sent worker (we_jobs W) t n (ac, sh)) \<le>
     16 * length (qi (sh_requests sh)) + 2 + 6 * length (ji (sh_jobs sh))"
proof -
  have "neutral (fst (emit_batch_start (iw_obs worker) t n :: ('s, 'o, 'e, unit) run))"
    by simp
  then show ?thesis
    by (cases rule: neutral_run_cases)
      (auto simp: finish_sent_def Let_def acc_leave_measure, auto simp: acc_measure_def)
qed

lemma recv_first_measure:
  assumes "ac_pc ac = AwaitFirst" and "recv_first (we_requests W) (we_jobs W) imax now (ac, sh) = Some c'"
  shows "acc_measure c' < acc_measure (ac, sh)"
proof (cases rule: req.poll_recv_cases [of "sh_requests sh"])
  case (Msg m ms q)
  show ?thesis
  proof (cases "reset_next_inf imax (increment_len (sh_state sh)) now")
    case None
    with assms Msg have "c' = acc_leave (we_jobs W) True [] (take_request m (ac, sh\<lparr>sh_requests := q\<rparr>))"
      by (simp add: recv_first_def case_prod_unfold)
    with assms(1) Msg show ?thesis
      by (simp add: acc_leave_measure) (simp add: acc_measure_def)
  next
    case (Some t)
    with assms Msg show ?thesis
      by (auto simp: recv_first_def case_prod_unfold acc_measure_def)
  qed
qed (use assms in \<open>auto simp: recv_first_def acc_leave_measure, auto simp: acc_measure_def\<close>)

lemma recv_more_measure:
  assumes "ac_pc ac = Selecting" and "recv_more (we_requests W) (we_jobs W) (ac, sh) = Some c'"
  shows "acc_measure c' < acc_measure (ac, sh)"
proof (cases rule: req.poll_recv_cases [of "sh_requests sh"])
  case (Msg m ms q)
  with assms show ?thesis
    by (auto simp: recv_more_def case_prod_unfold acc_measure_def)
qed (use assms in \<open>auto simp: recv_more_def acc_leave_measure, auto simp: acc_measure_def\<close>)

lemma drain_flush_measure:
  assumes "ac_pc ac = DrainFlush"
  shows "acc_measure (drain_flush (we_requests W) (ac, sh)) < acc_measure (ac, sh)"
proof (cases rule: req.poll_recv_cases [of "sh_requests sh"])
  case (Msg m ms q)
  with assms show ?thesis
    by (cases m) (auto simp: drain_flush_def acc_measure_def)
qed (use assms in \<open>auto simp: drain_flush_def swap_replace_def acc_measure_def\<close>)

lemma drain_handoff_measure:
  assumes "ac_pc ac = DrainHandoff b"
  shows "acc_measure (drain_handoff worker (we_requests W) (we_jobs W) b (ac, sh)) < acc_measure (ac, sh)"
proof -
  have "neutral (fst (emit_queue_depth (iw_obs worker) (iw_worker_id worker)
      (mp_len (we_requests W) (sh_requests sh)) :: ('s, 'o, 'e, unit) run))"
    by simp
  then show ?thesis
  proof (cases rule: neutral_run_cases)
    case (Fine es)
    then show ?thesis
      by (cases rule: req.poll_recv_cases [of "sh_requests sh"])
        (use assms in \<open>auto simp: drain_handoff_def Let_def acc_measure_def\<close>)
  next
    case (Panic es)
    then show ?thesis
      by (cases rule: req.poll_recv_cases [of "sh_requests sh"])
        (use assms in \<open>auto simp: drain_handoff_def Let_def acc_leave_measure, auto simp: acc_measure_def\<close>)
  qed
qed

lemma handoff_measure:
  assumes "ac_pc ac = Handoff b t"
  shows "acc_measure (start_handoff worker (we_requests W) (we_jobs W) b t (ac, sh)) < acc_measure (ac, sh)"
proof -
  have "neutral (fst (emit_queue_depth (iw_obs worker) (iw_worker_id worker)
      (mp_len (we_requests W) (sh_requests sh)) :: ('s, 'o, 'e, unit) run))"
    by simp
  then show ?thesis
  proof (cases rule: neutral_run_cases)
    case (Fine es)
    with assms show ?thesis
      using finish_sent_measure [of worker t "buffer_len b" ac "log_effects es (store_worker Running sh)"]
      by (auto simp: start_handoff_def Let_def) (auto simp: acc_measure_def)
  next
    case (Panic es)
    with assms show ?thesis
      by (auto simp: start_handoff_def Let_def acc_leave_measure) (auto simp: acc_measure_def)
  qed
qed

lemma reserve_measure:
  assumes "ac_pc ac = AwaitPermit b t" and "reserve_job worker (we_jobs W) b t (ac, sh) = Some c'"
  shows "acc_measure c' < acc_measure (ac, sh)"
proof -
  have "neutral (fst (emit_queue_depth (iw_obs worker) (iw_worker_id worker) 0 :: ('s, 'o, 'e, unit) run))"
    by simp
  then show ?thesis
    using assms by (cases rule: neutral_run_cases)
      (auto simp: reserve_job_def Let_def acc_leave_measure split: reserve_outcome.splits,
       auto simp: acc_measure_def)
qed

lemma send_measure:
  assumes "ac_pc ac = SendJob b t"
  shows "acc_measure (send_job worker (we_jobs W) b t (ac, sh)) < acc_measure (ac, sh)"
proof (cases "mp_permit_send (we_jobs W) b (sh_jobs sh)")
  case (Pair lost j)
  let ?sh = "log_effects (map Dropped (concat (map sender_buffer lost))) (sh\<lparr>sh_jobs := j\<rparr>)"
  have "length (ji j) \<le> length (ji (sh_jobs sh)) + 1"
    using job.permit_send_items [OF Pair] by (auto dest: arg_cong [of _ _ length])
  with assms Pair finish_sent_measure [of worker t "buffer_len b" ac ?sh] show ?thesis
    by (simp add: send_job_def acc_measure_def)
qed

lemma acc_step_measure:
  assumes "acc_step worker imax (we_requests W) (we_jobs W) c (ac, sh) = Some c'"
  shows "acc_measure c' < acc_measure (ac, sh)"
proof (cases c)
  case (AccRecv now)
  with assms recv_first_measure recv_more_measure show ?thesis
    by (cases "ac_pc ac") auto
next
  case (AccTimer now)
  with assms show ?thesis
    by (cases "ac_pc ac") (auto simp: acc_measure_def split: if_splits)
next
  case AccJobClosed
  with assms show ?thesis
    by (cases "ac_pc ac") (auto simp: acc_measure_def split: if_splits)
next
  case AccDrop
  with assms req.drop_receiver [of "sh_requests sh"] show ?thesis
    by (cases "ac_pc ac") (auto simp: acc_drop_def acc_measure_def split: prod.splits)
next
  case AccRun
  show ?thesis
  proof (cases "ac_pc ac")
    case (CheckAlive t)
    with assms AccRun show ?thesis
      by (auto simp: check_predictor_alive_def swap_replace_def acc_leave_measure
          split: option.splits predictor_status.splits) (auto simp: acc_measure_def)
  next
    case (HavePermit b t)
    with assms AccRun show ?thesis
      by (auto simp: use_permit_def acc_leave_measure split: option.splits if_splits)
        (auto simp: acc_measure_def)
  qed (use assms AccRun drain_flush_measure drain_handoff_measure handoff_measure reserve_measure
      send_measure in auto)
qed

lemma flush_batch_measure: "length (ji (sh_jobs (flush_batch (we_jobs W) sh))) \<le> length (ji (sh_jobs sh))"
  by (rule flush_batch_fields [of sh]) simp

lemma inf_receive_measure:
  assumes "it_pc th = InfWaiting p" and "inf_receive (we_jobs W) gone p (th, sh) = Some c'"
  shows "inf_measure c' < inf_measure (th, sh)"
proof (cases rule: job.poll_recv_cases [of "sh_jobs sh"])
  case (Msg b bs' j)
  with assms show ?thesis
    by (cases "filter_canceled gone b")
      (auto simp: inf_receive_def inf_measure_def Let_def inf_die_def split_buffer_def)
qed (use assms in \<open>auto simp: inf_receive_def inf_measure_def\<close>)

lemma inf_predict_measure:
  assumes "it_pc th = InfPredicting p ins ss"
  shows "inf_measure (inf_predict args latency p ins ss (th, sh)) < inf_measure (th, sh)"
proof (cases "predict_on_batch (ia_predict_batch args) latency p ins")
  case (Returned out)
  obtain m res p' where "out = ((m, res), p')"
    by (metis surj_pair)
  moreover obtain es r where "send_output res ss m (ia_obs args) = (es, r :: unit unwind)"
    by fastforce
  ultimately show ?thesis
    using assms Returned by (cases r) (auto simp: inf_predict_def inf_measure_def inf_die_def)
qed (use assms in \<open>simp add: inf_predict_def inf_measure_def\<close>)

lemma inf_handle_panic_measure:
  assumes "it_pc th = InfCrashing p ss"
  shows "inf_measure (inf_handle_panic args (we_jobs W) ss (th, sh)) < inf_measure (th, sh)"
proof -
  have "neutral (fst (emit_worker_panic (ia_obs args) :: ('s, 'o, 'e, unit) run))"
    by simp
  then show ?thesis
  proof (cases rule: neutral_run_cases)
    case (Fine es)
    with assms flush_batch_measure [of "log_effects (send_errors_on_crash ss) (log_effects es sh)"]
    show ?thesis
      by (simp add: inf_handle_panic_def Let_def inf_measure_def)
  qed (use assms in \<open>simp add: inf_handle_panic_def inf_measure_def\<close>)
qed

lemma inf_build_measure:
  "it_pc th = InfStarting \<Longrightarrow> inf_measure (inf_start args closed acked (th, sh)) < inf_measure (th, sh)"
  "it_pc th = InfRebuilding \<Longrightarrow> inf_measure (inf_rebuild args J closes (th, sh)) < inf_measure (th, sh)"
  by (auto simp: inf_start_def inf_rebuild_def inf_measure_def Let_def split: prod.splits sum.splits)

lemma inf_step_measure:
  assumes "inf_step (we_args W) (we_jobs W) d (th, sh) = Some c'"
  shows "inf_measure c' < inf_measure (th, sh)"
proof (cases d)
  case InfReceive
  with assms inf_receive_measure show ?thesis
    by (cases "it_pc th") auto
next
  case InfFlush
  with assms flush_batch_measure [of sh] show ?thesis
    by (cases "it_pc th") (auto simp: inf_measure_def)
next
  case InfDrop
  with assms job.drop_receiver [of "sh_jobs sh"] show ?thesis
    by (cases "it_pc th") (auto simp: inf_drop_def inf_measure_def split: prod.splits)
next
  case InfSpawnFails
  with assms job.drop_receiver [of "sh_jobs sh"] show ?thesis
    by (cases "it_pc th") (auto simp: spawn_failed_def inf_drop_def inf_measure_def split: prod.splits)
next
  case InfRevive
  with assms show ?thesis by (cases "it_pc th") (auto simp: inf_measure_def)
next
  case InfRelease
  with assms show ?thesis by (cases "it_pc th") (auto simp: inf_measure_def)
qed (use assms inf_build_measure inf_predict_measure inf_handle_panic_measure in
      \<open>cases "it_pc th", auto\<close>)+

text \<open>The thread leaves the request channel alone.\<close>

lemma flush_batch_requests [simp]: "sh_requests (flush_batch (we_jobs W) sh) = sh_requests sh"
  by (rule flush_batch_fields [of sh])

lemma inf_step_requests:
  assumes "sys_inv s" and "inf_step (we_args W) (we_jobs W) d (wk_inf s, wk_shared s) = Some (th, sh)"
  shows "sh_requests sh = sh_requests (wk_shared s)"
  using inf_step_trans [OF _ assms(2)] assms(1) by (auto simp: sys_inv_def inf_trans_def inf_frame_def)

lemma own_step_measure:
  assumes "sys_inv s" and "own_step W s t"
  shows "worker_measure qi ji t < worker_measure qi ji s"
  using assms(2) acc_step_measure inf_step_measure inf_step_requests [OF assms(1)]
  by (fastforce simp: own_step_def worker_measure_def acc_measure_def inf_measure_def)

lemma own_step_inv: "sys_inv s \<Longrightarrow> own_step W s t \<Longrightarrow> sys_inv t"
  using step_inv own_step_worker_step by blast

lemma own_steps_bounded:
  "sys_inv s \<Longrightarrow> (own_step W ^^ n) s t \<Longrightarrow> sys_inv t \<and> worker_measure qi ji t + n \<le> worker_measure qi ji s"
proof (induction n arbitrary: t)
  case (Suc n)
  then obtain u where u: "(own_step W ^^ n) s u" "own_step W u t"
    by auto
  with Suc.IH [OF Suc.prems(1) u(1)] own_step_measure [of u t] own_step_inv [of u t] show ?case
    by auto
qed simp

text \<open>Where nothing can move. \<close>

lemma acc_can_move:
  assumes "good A (ac, sh)" and "\<And>c. acc_step (we_worker W) (we_imax W) (we_requests W) (we_jobs W) c (ac, sh) = None"
  shows "ac_pc ac = AwaitFirst \<and> qi (sh_requests sh) = [] \<and> qt (sh_requests sh) \<or> ac_pc ac = AccExited
    \<or> ji (sh_jobs sh) \<noteq> []"
proof (cases "ac_pc ac")
  case AwaitFirst
  then show ?thesis
    using assms(2) [of "AccRecv 0"]
    by (cases rule: req.poll_recv_cases [of "sh_requests sh"])
      (auto simp: recv_first_def case_prod_unfold)
next
  case Selecting
  then show ?thesis using assms(2) [of "AccTimer (ac_next_inf ac)"] by simp
next
  case (AwaitPermit b t)
  then show ?thesis
    using assms(1) assms(2) [of AccRun]
    by (auto simp: reserve_job_def job.reserve good_defs Let_def split: if_splits)
next
  case AccExiting
  then show ?thesis using assms(2) [of AccDrop] by simp
next
  case AccExited
  then show ?thesis by simp
qed (use assms(2) [of AccRun] in simp_all)

lemma inf_can_move:
  assumes "\<And>d. inf_step (we_args W) (we_jobs W) d (th, sh) = None"
  shows "(\<exists>p. it_pc th = InfWaiting p) \<and> ji (sh_jobs sh) = [] \<and> jt (sh_jobs sh) \<or> it_pc th = InfReleased"
proof (cases "it_pc th")
  case InfStarting
  then show ?thesis using assms [of "InfStart (\<lambda>_. False) True"] by simp
next
  case (InfWaiting p)
  then show ?thesis
    using assms [of "InfReceive (\<lambda>_. False)"]
    by (cases rule: job.poll_recv_cases [of "sh_jobs sh"]) (auto simp: inf_receive_def Let_def)
next
  case (InfPredicting p ins ss)
  then show ?thesis using assms [of "InfPredict DURATION_ZERO"] by simp
next
  case (InfCrashing p ss)
  then show ?thesis using assms [of InfHandlePanic] by simp
next
  case InfRebuilding
  then show ?thesis using assms [of "InfRebuild 0"] by simp
next
  case (InfFlushing p)
  then show ?thesis using assms [of InfFlush] by simp
next
  case (InfReviving p)
  then show ?thesis using assms [of InfRevive] by simp
next
  case InfExiting
  then show ?thesis using assms [of InfDrop] by simp
next
  case InfExited
  then show ?thesis using assms [of InfRelease] by simp
qed simp

text \<open>So a worker that cannot move holds no request: it is idle with its request channel open, or it
  has ended.\<close>

lemma stuck_halves:
  assumes "sys_inv s" and "\<And>t. \<not> own_step W s t"
  shows "inf_senders (it_pc (wk_inf s)) = []" and "ji (sh_jobs (wk_shared s)) = []"
    and "jt (sh_jobs (wk_shared s)) \<or> it_pc (wk_inf s) = InfReleased"
    and "ac_pc (wk_acc s) = AwaitFirst \<and> qi (sh_requests (wk_shared s)) = [] \<and> qt (sh_requests (wk_shared s))
      \<or> ac_pc (wk_acc s) = AccExited"
proof -
  let ?sh = "wk_shared s"
  have a: "acc_step (we_worker W) (we_imax W) (we_requests W) (we_jobs W) c (wk_acc s, ?sh) = None" for c
  proof (rule ccontr)
    assume "acc_step (we_worker W) (we_imax W) (we_requests W) (we_jobs W) c (wk_acc s, ?sh) \<noteq> None"
    then obtain ac sh where "own_step W s (s\<lparr>wk_acc := ac, wk_shared := sh\<rparr>)"
      unfolding own_step_def by fast
    with assms(2) show False by blast
  qed
  have i: "inf_step (we_args W) (we_jobs W) d (wk_inf s, ?sh) = None" for d
  proof (rule ccontr)
    assume "inf_step (we_args W) (we_jobs W) d (wk_inf s, ?sh) \<noteq> None"
    then obtain th sh where "own_step W s (s\<lparr>wk_inf := th, wk_shared := sh\<rparr>)"
      unfolding own_step_def by fast
    with assms(2) show False by blast
  qed
  have inv: "good (set (wk_accepted s)) (wk_acc s, ?sh)" "inf_good (set (wk_accepted s)) (wk_inf s, ?sh)"
    using assms(1) by (auto simp: sys_inv_def)
  show inf: "inf_senders (it_pc (wk_inf s)) = []" "ji (sh_jobs ?sh) = []"
      "jt (sh_jobs ?sh) \<or> it_pc (wk_inf s) = InfReleased"
    using inf_can_move [OF i] inv(2) by (auto simp: inf_good_def jobs_inv_def)
  then show "ac_pc (wk_acc s) = AwaitFirst \<and> qi (sh_requests ?sh) = [] \<and> qt (sh_requests ?sh)
      \<or> ac_pc (wk_acc s) = AccExited"
    using acc_can_move [OF inv(1) a] by auto
qed

lemma stuck_settled:
  assumes "sys_inv s" and "\<And>t. \<not> own_step W s t"
  shows "mset (settled (sh_log (wk_shared s))) = mset (map snd (wk_accepted s))"
    and "qt (sh_requests (wk_shared s)) \<or> ac_pc (wk_acc s) = AccExited \<and> it_pc (wk_inf s) = InfReleased"
proof -
  note halves = stuck_halves [OF assms]
  have inv: "good (set (wk_accepted s)) (wk_acc s, wk_shared s)"
    using assms(1) by (auto simp: sys_inv_def)
  with halves(4) have "qi (sh_requests (wk_shared s)) = []" "acc_pairs (wk_acc s) = []"
    by (auto simp: good_defs)
  then show "mset (settled (sh_log (wk_shared s))) = mset (map snd (wk_accepted s))"
    using assms(1) halves(1,2) by (simp add: sys_inv_def acc_held_def)
  show "qt (sh_requests (wk_shared s)) \<or> ac_pc (wk_acc s) = AccExited \<and> it_pc (wk_inf s) = InfReleased"
    using halves(3,4) inv by (auto simp: good_defs)
qed

subsection \<open>What the invariant says of a reachable worker\<close>

lemma reach_sys_inv: "worker_reach W cfg queue_sz s \<Longrightarrow> sys_inv s"
  by (rule sys.reach_inv)

lemma reached_replies:
  assumes "worker_reach W cfg queue_sz s" and "Reply r x \<in> set (sh_log (wk_shared s))"
  shows "reply_explained (ia_predict_batch (we_args W)) bs (set (wk_accepted s)) (r, x)"
  using reach_sys_inv [OF assms(1)] assms(2) by (auto simp: sys_inv_def Reply_in_replies)

lemma reached_output:
  assumes "worker_reach W cfg queue_sz s"
    and "distinct (map snd (wk_accepted s))" and "(i, r) \<in> set (wk_accepted s)"
    and "Reply r (Inr out) \<in> set (sh_log (wk_shared s))"
  shows "\<exists>p p' ins outs k. ia_predict_batch (we_args W) p ins = Returned (Inr outs, p')
    \<and> 0 < length ins \<and> length ins \<le> bs \<and> length outs = length ins
    \<and> k < length ins \<and> ins ! k = i \<and> outs ! k = out"
proof -
  obtain p p' ps outs k where call: "ia_predict_batch (we_args W) p (map fst ps) = Returned (Inr outs, p')"
      "batch_ok bs (set (wk_accepted s)) ps" "length outs = length ps" "k < length ps"
      "snd (ps ! k) = r" "outs ! k = out"
    using reached_replies [OF assms(1,4)] by auto
  then have "ps ! k \<in> set (wk_accepted s)"
    by (auto simp: batch_ok_def dest: nth_mem)
  with assms(2,3) call(5) have "ps ! k = (i, r)"
    by (metis distinct_map inj_onD snd_conv)
  with call have "0 < length (map fst ps) \<and> length (map fst ps) \<le> bs \<and> length outs = length (map fst ps)
      \<and> k < length (map fst ps) \<and> map fst ps ! k = i \<and> outs ! k = out"
    by (simp add: batch_ok_def)
  with call(1) show ?thesis by blast
qed

lemma reached_settled:
  assumes "worker_reach W cfg queue_sz s"
  shows "mset (settled (sh_log (wk_shared s))) \<subseteq># mset (map snd (wk_accepted s))"
  using reach_sys_inv [OF assms] by (auto simp: sys_inv_def acc_held_def ac_simps)

lemma reached_status:
  assumes "worker_reach W cfg queue_sz s"
  shows "\<exists>snap. snapshot (sh_state (wk_shared s)) = Some snap
    \<and> acc_pc_ok bs (ac_pc (wk_acc s)) (pairs (ac_buffer (wk_acc s))) (snap_worker_status snap)
        (unat (snap_batch_len snap))"
proof -
  have inv: "good (set (wk_accepted s)) (wk_acc s, wk_shared s)"
    using reach_sys_inv [OF assms] by (simp add: sys_inv_def)
  let ?w = "sh_state (wk_shared s)"
  have pc: "acc_pc_ok bs (ac_pc (wk_acc s)) (pairs (ac_buffer (wk_acc s))) (the_status ?w) (the_len ?w)"
    using inv by (simp add: good_defs)
  then have "the_len ?w \<le> bs"
    by (cases "ac_pc (wk_acc s)") auto
  then have "unat (of_nat (the_len ?w) :: u32) = the_len ?w"
    using bs_bound by (intro unat_len_u32) simp
  with pc inv show ?thesis
    by (simp add: good_defs snapshot_eq the_snapshot_def)
qed

lemma reached_predictors:
  assumes "worker_reach W cfg queue_sz s"
  shows "built_count (sh_log (wk_shared s)) = drop_count (sh_log (wk_shared s)) + owned_predictors (it_pc (wk_inf s))"
  using reach_sys_inv [OF assms] by (simp add: sys_inv_def inf_good_def)

lemma reached_batch:
  assumes "worker_reach W cfg queue_sz s" and "it_pc (wk_inf s) = InfPredicting p ins ss"
  shows "length ins = length ss \<and> 0 < length ins \<and> length ins \<le> bs
    \<and> set (zip ins ss) \<subseteq> set (wk_accepted s)"
  using reach_sys_inv [OF assms(1)] assms(2) by (auto simp: sys_inv_def inf_good_def batch_ok_def)

text \<open>A worker status of \<open>Exit\<close> or \<open>Crashed\<close> is final.\<close>

lemma acc_exiting_keeps_status:
  assumes "acc_left (ac_pc ac)"
    and "acc_step worker imax (we_requests W) (we_jobs W) c (ac, sh) = Some (ac', sh')"
  shows "the_status (sh_state sh') = the_status (sh_state sh)"
  using assms by (cases c; cases "ac_pc ac") (auto simp: acc_drop_def split: prod.splits)

lemma reached_final:
  assumes "worker_reach W cfg queue_sz s" and "worker_step W s t"
    and "the_status (sh_state (wk_shared s)) = st" and "st = Exit \<or> st = Crashed"
  shows "the_status (sh_state (wk_shared t)) = st"
proof -
  have inv: "sys_inv s" by (rule reach_sys_inv [OF assms(1)])
  then have "acc_pc_ok bs (ac_pc (wk_acc s)) (pairs (ac_buffer (wk_acc s))) st (the_len (sh_state (wk_shared s)))"
    using assms(3) by (auto simp: sys_inv_def good_defs)
  then have left: "acc_left (ac_pc (wk_acc s))"
    using assms(4) by (cases "ac_pc (wk_acc s)") auto
  show ?thesis
    using assms(2)
  proof (cases rule: worker_step.cases)
    case (acc_moves c ac sh)
    with acc_exiting_keeps_status [OF left acc_moves(2)] assms(3) show ?thesis by simp
  next
    case (inf_moves d th sh)
    have "inf_good (set (wk_accepted s)) (wk_inf s, wk_shared s)"
      using inv by (simp add: sys_inv_def)
    with inf_step_trans [OF this inf_moves(2)] inf_moves(1) assms(3) show ?thesis
      by (simp add: inf_trans_def inf_frame_def)
  qed (use assms(3) in simp_all)
qed

lemma reached_own_steps:
  assumes "worker_reach W cfg queue_sz s" and "(own_step W ^^ k) s t"
  shows "worker_measure qi ji t + k \<le> worker_measure qi ji s"
    and "(\<And>u. \<not> own_step W t u) \<Longrightarrow> mset (settled (sh_log (wk_shared t))) = mset (map snd (wk_accepted t))"
    and "(\<And>u. \<not> own_step W t u) \<Longrightarrow> mp_senders_gone (we_requests W) (sh_requests (wk_shared t)) \<Longrightarrow>
      ac_pc (wk_acc t) = AccExited \<and> it_pc (wk_inf t) = InfReleased
      \<and> built_count (sh_log (wk_shared t)) = drop_count (sh_log (wk_shared t))"
proof -
  have inv: "sys_inv t" "worker_measure qi ji t + k \<le> worker_measure qi ji s"
    using own_steps_bounded [OF reach_sys_inv [OF assms(1)] assms(2)] by auto
  show "worker_measure qi ji t + k \<le> worker_measure qi ji s" by (rule inv(2))
  {
    assume stuck: "\<And>u. \<not> own_step W t u"
    show "mset (settled (sh_log (wk_shared t))) = mset (map snd (wk_accepted t))"
      by (rule stuck_settled(1) [OF inv(1) stuck])
    assume "mp_senders_gone (we_requests W) (sh_requests (wk_shared t))"
    then have "ac_pc (wk_acc t) = AccExited \<and> it_pc (wk_inf t) = InfReleased"
      using stuck_settled(2) [OF inv(1) stuck] req.senders_gone by simp
    with inv(1) show "ac_pc (wk_acc t) = AccExited \<and> it_pc (wk_inf t) = InfReleased
      \<and> built_count (sh_log (wk_shared t)) = drop_count (sh_log (wk_shared t))"
      by (simp add: sys_inv_def inf_good_def)
  }
qed

end

end
