(* ===== verification/Pool_System.thy ===== *)
theory Pool_System
  imports Router_Steps Notify Worker_Liveness
begin

text \<open>
  The whole pool: every worker with both its threads, the router, the signal for waiting callers, and
  any number of concurrent calls of \<open>predict\<close> and \<open>try_predict\<close>. \<open>pool_step\<close> interleaves them in every
  order, a step being one of the steps of a worker half (\<open>acc_step\<close>, \<open>inf_step\<close>), one access of the
  router on behalf of a caller, or one step of a caller between its accesses. What a worker step
  leaves in the log for other parties happens in the same step: its notifications reach the signal.

  A caller's future can be dropped wherever it awaits, which is also what a timeout of
  \<open>predict_with_timeout\<close> does. In a loop turn of \<open>predict\<close> the \<open>Notified\<close> future lives until the turn
  ends, so a caller whose request was queued keeps it while it awaits its reply (\<open>CallQueued True\<close>).
  The handles are dropped when no call is running, at the end or after a failed start.
\<close>

text \<open>Where a call is: \<open>CallBegin\<close>, at a \<open>try_push\<close> (the flag tells whether the call holds a \<open>Notified\<close>
  future); \<open>CallRouting\<close>, within it; \<open>CallRegister\<close>, at \<open>get_notified\<close>; \<open>CallAsleep\<close>, at
  \<open>notification.await\<close>; \<open>CallQueued\<close>, at \<open>rx.await\<close>. The flag of the last two says whether the request
  was queued; nothing reads it.\<close>

datatype ('m, 'o, 'e) caller_pc =
    CallBegin bool
  | CallRouting bool "('m, 'e) route_pc"
  | CallRegister
  | CallAsleep
  | CallQueued bool
  | CallPanicked
  | CallReturned bool "('o, 'e) reply"
  | CallCancelled bool

record ('i, 's, 'o, 'e) caller =
  ca_input :: 'i
  ca_sender :: 's
  ca_waits :: bool
  ca_pc :: "('i \<times> 's, 'o, 'e) caller_pc"

datatype pool_phase = PoolStarting | PoolServing | PoolClosed

record ('i, 's, 'p, 'f, 'q, 'j, 'o, 'e, 'n) pool_sys =
  ps_workers :: "('i, 's, 'p, 'f, 'q, 'j, 'o, 'e) worker_sys list"
  ps_start :: usize
  ps_signal :: 'n
  ps_callers :: "('i, 's, 'o, 'e) caller list"
  ps_phase :: pool_phase

record ('i, 's, 'p, 'f, 'q, 'j, 'o, 'e, 'n) pool_env =
  pe_worker :: "nat \<Rightarrow> ('i, 's, 'p, 'f, 'q, 'j, 'o, 'e) worker_env"
  pe_signal :: "'n notify"

definition ca_msg :: "('i, 's, 'o, 'e) caller \<Rightarrow> 'i \<times> 's" where
  "ca_msg c = (ca_input c, ca_sender c)"

subsection \<open>What a caller sees\<close>

text \<open>The reply channel of a sender, from the logs of the workers.\<close>

fun outcome_of :: "'s \<Rightarrow> ('s, 'o, 'e) effect list \<Rightarrow> ('o, 'e) reply oneshot_outcome option" where
  "outcome_of s [] = None"
| "outcome_of s (Reply s' r # es) = (if s' = s then Some (Received r) else outcome_of s es)"
| "outcome_of s (Dropped s' # es) = (if s' = s then Some RecvError else outcome_of s es)"
| "outcome_of s (_ # es) = outcome_of s es"

definition pool_log :: "('i, 's, 'p, 'f, 'q, 'j, 'o, 'e) worker_sys list \<Rightarrow> ('s, 'o, 'e) effect list" where
  "pool_log ws = concat (map (\<lambda>w. sh_log (wk_shared w)) ws)"

definition reply_of ::
  "'s \<Rightarrow> ('i, 's, 'p, 'f, 'q, 'j, 'o, 'e) worker_sys list \<Rightarrow> ('o, 'e) reply oneshot_outcome option" where
  "reply_of s ws = outcome_of s (pool_log ws)"

definition worker_view :: "('i, 's, 'p, 'f, 'q, 'j, 'o, 'e) worker_sys \<Rightarrow> 'q worker_ref" where
  "worker_view w = \<lparr>wr_state = sh_state (wk_shared w), wr_queue = sh_requests (wk_shared w)\<rparr>"

text \<open>The worker after an access of the router: only its queue can have changed. A request that was
  sent is recorded as accepted.\<close>

fun route_sent :: "('m, 'e) route_pc \<Rightarrow> ('m, 'e) route_pc \<Rightarrow> 'm list" where
  "route_sent (Send msg place sink) (Routed (Inr _)) = [msg]"
| "route_sent _ _ = []"

definition worker_after ::
  "('i \<times> 's) list \<Rightarrow> 'q worker_ref \<Rightarrow> ('i, 's, 'p, 'f, 'q, 'j, 'o, 'e) worker_sys
     \<Rightarrow> ('i, 's, 'p, 'f, 'q, 'j, 'o, 'e) worker_sys" where
  "worker_after sent w s = s\<lparr>wk_shared := (wk_shared s)\<lparr>sh_requests := wr_queue w\<rparr>,
     wk_accepted := wk_accepted s @ sent\<rparr>"

subsection \<open>One step of a call\<close>

text \<open>What \<open>predict\<close> and \<open>try_predict\<close> do with the result of \<open>try_push\<close>.\<close>

fun call_routed :: "bool \<Rightarrow> bool \<Rightarrow> ('m, 'e) try_push_result \<Rightarrow> ('m, 'o, 'e) caller_pc" where
  "call_routed waits reg (Inr _) = CallQueued reg"
| "call_routed waits reg (Inl (_, QueueFullError)) =
     (if \<not> waits then CallReturned False (Inl QueueFullError) else if reg then CallAsleep else CallRegister)"
| "call_routed waits reg (Inl (_, err)) = CallReturned False (Inl err)"

fun call_over :: "('m, 'o, 'e) caller_pc \<Rightarrow> bool" where
  "call_over (CallReturned b r) \<longleftrightarrow> True"
| "call_over (CallCancelled b) \<longleftrightarrow> True"
| "call_over _ \<longleftrightarrow> False"

definition set_call ::
  "nat \<Rightarrow> ('i \<times> 's, 'o, 'e) caller_pc \<Rightarrow> ('i, 's, 'p, 'f, 'q, 'j, 'o, 'e, 'n) pool_sys
     \<Rightarrow> ('i, 's, 'p, 'f, 'q, 'j, 'o, 'e, 'n) pool_sys" where
  "set_call k pc p = p\<lparr>ps_callers := (ps_callers p)[k := (ps_callers p ! k)\<lparr>ca_pc := pc\<rparr>]\<rparr>"

text \<open>The end of a call drops the future it may hold.\<close>

definition drop_future ::
  "'n notify \<Rightarrow> bool \<Rightarrow> nat \<Rightarrow> ('i, 's, 'p, 'f, 'q, 'j, 'o, 'e, 'n) pool_sys
     \<Rightarrow> ('i, 's, 'p, 'f, 'q, 'j, 'o, 'e, 'n) pool_sys" where
  "drop_future N reg k p = (if reg then p\<lparr>ps_signal := nt_drop N k (ps_signal p)\<rparr> else p)"

definition route_call ::
  "('i, 's, 'p, 'f, 'q, 'j, 'o, 'e, 'n) pool_env \<Rightarrow> nat \<Rightarrow> bool \<Rightarrow> ('i \<times> 's, 'e) route_pc
     \<Rightarrow> ('i, 's, 'p, 'f, 'q, 'j, 'o, 'e, 'n) pool_sys \<Rightarrow> ('i, 's, 'p, 'f, 'q, 'j, 'o, 'e, 'n) pool_sys" where
  "route_call P k reg pc p =
     (let ws = ps_workers p
      in case route_target pc of
           Some i \<Rightarrow>
             (if i < length ws
              then (case route_step (we_requests (pe_worker P i)) (length ws) (worker_view (ws ! i)) pc of
                (pc', w) \<Rightarrow> set_call k (CallRouting reg pc')
                  (p\<lparr>ps_workers := ws[i := worker_after (route_sent pc pc') w (ws ! i)]\<rparr>))
              else set_call k CallPanicked p)
         | None \<Rightarrow>
             (case pc of
                Routed r \<Rightarrow>
                  (let next_pc = call_routed (ca_waits (ps_callers p ! k)) reg r
                   in set_call k next_pc (drop_future (pe_signal P) (reg \<and> call_over next_pc) k p))
              | _ \<Rightarrow> set_call k CallPanicked p))"

text \<open>The next step of the \<open>k\<close>-th call; \<open>None\<close> while it must wait and when it is over.\<close>

definition call_step ::
  "('i, 's, 'p, 'f, 'q, 'j, 'o, 'e, 'n) pool_env \<Rightarrow> nat
     \<Rightarrow> ('i, 's, 'p, 'f, 'q, 'j, 'o, 'e, 'n) pool_sys
     \<Rightarrow> ('i, 's, 'p, 'f, 'q, 'j, 'o, 'e, 'n) pool_sys option" where
  "call_step P k p =
     (case ca_pc (ps_callers p ! k) of
        CallBegin reg \<Rightarrow>
          (case route_start (length (ps_workers p)) (ps_start p) (ca_msg (ps_callers p ! k)) of
             (pc, start) \<Rightarrow> Some (set_call k (CallRouting reg pc) (p\<lparr>ps_start := start\<rparr>)))
      | CallRouting reg pc \<Rightarrow> Some (route_call P k reg pc p)
      | CallRegister \<Rightarrow>
          Some (set_call k (CallBegin True) (p\<lparr>ps_signal := nt_enable (pe_signal P) k (ps_signal p)\<rparr>))
      | CallAsleep \<Rightarrow>
          (if nt_ready (pe_signal P) k (ps_signal p)
           then Some (set_call k CallRegister (p\<lparr>ps_signal := nt_finish (pe_signal P) k (ps_signal p)\<rparr>))
           else None)
      | CallQueued reg \<Rightarrow>
          (case reply_of (ca_sender (ps_callers p ! k)) (ps_workers p) of
             None \<Rightarrow> None
           | Some out \<Rightarrow>
               Some (set_call k (CallReturned True (await_reply out)) (drop_future (pe_signal P) reg k p)))
      | _ \<Rightarrow> None)"

text \<open>The future of the call is dropped at one of its awaits.\<close>

definition cancel_call ::
  "('i, 's, 'p, 'f, 'q, 'j, 'o, 'e, 'n) pool_env \<Rightarrow> nat
     \<Rightarrow> ('i, 's, 'p, 'f, 'q, 'j, 'o, 'e, 'n) pool_sys
     \<Rightarrow> ('i, 's, 'p, 'f, 'q, 'j, 'o, 'e, 'n) pool_sys option" where
  "cancel_call P k p =
     (case ca_pc (ps_callers p ! k) of
        CallAsleep \<Rightarrow> Some (set_call k (CallCancelled False) (drop_future (pe_signal P) True k p))
      | CallQueued reg \<Rightarrow> Some (set_call k (CallCancelled True) (drop_future (pe_signal P) reg k p))
      | _ \<Rightarrow> None)"

definition sender_gone :: "('i, 's, 'o, 'e) caller list \<Rightarrow> 's \<Rightarrow> bool" where
  "sender_gone cs s \<longleftrightarrow> (\<exists>c \<in> set cs. ca_sender c = s \<and> call_over (ca_pc c))"

subsection \<open>One step of a worker, inside the pool\<close>

text \<open>The notifications of a step reach the signal in their order.\<close>

fun signal_effects :: "'n notify \<Rightarrow> ('s, 'o, 'e) effect list \<Rightarrow> 'n \<Rightarrow> 'n" where
  "signal_effects N [] n = n"
| "signal_effects N (NotifyOne # es) n = signal_effects N es (nt_notify_one N n)"
| "signal_effects N (NotifyWaiters # es) n = signal_effects N es (nt_notify_waiters N n)"
| "signal_effects N (_ # es) n = signal_effects N es n"

definition set_worker ::
  "'n notify \<Rightarrow> nat \<Rightarrow> ('i, 's, 'p, 'f, 'q, 'j, 'o, 'e) worker_sys
     \<Rightarrow> ('i, 's, 'p, 'f, 'q, 'j, 'o, 'e, 'n) pool_sys \<Rightarrow> ('i, 's, 'p, 'f, 'q, 'j, 'o, 'e, 'n) pool_sys" where
  "set_worker N i t p =
     p\<lparr>ps_workers := (ps_workers p)[i := t],
       ps_signal := signal_effects N
         (drop (length (sh_log (wk_shared (ps_workers p ! i)))) (sh_log (wk_shared t))) (ps_signal p)\<rparr>"

text \<open>Readings of the clock stay a year away from its end.\<close>

fun clock_in_range :: "instant \<Rightarrow> acc_choice \<Rightarrow> bool" where
  "clock_in_range imax (AccRecv now) \<longleftrightarrow> instant_checked_add imax now ONE_YEAR \<noteq> None"
| "clock_in_range imax _ \<longleftrightarrow> True"

text \<open>What the rest of the pool answers to an inference thread: the ack channel stays open until the
  start has failed, and a result sender is closed once its caller is no longer waiting.\<close>

fun inf_answer :: "pool_phase \<Rightarrow> ('s \<Rightarrow> bool) \<Rightarrow> 's inf_choice \<Rightarrow> 's inf_choice" where
  "inf_answer ph gone (InfStart closed acked) =
     InfStart (\<lambda>k. ph = PoolClosed \<and> closed k) (ph \<noteq> PoolClosed \<or> acked)"
| "inf_answer ph gone (InfReceive _) = InfReceive gone"
| "inf_answer ph gone d = d"

definition drop_handles ::
  "('q, 'i \<times> 's) mpsc \<Rightarrow> ('i, 's, 'p, 'f, 'q, 'j, 'o, 'e) worker_sys
     \<Rightarrow> ('i, 's, 'p, 'f, 'q, 'j, 'o, 'e) worker_sys" where
  "drop_handles Q s = s\<lparr>wk_shared := (wk_shared s)\<lparr>sh_requests := mp_drop_senders Q (sh_requests (wk_shared s))\<rparr>\<rparr>"

subsection \<open>The step relation\<close>

text \<open>The steps the pool makes by itself.\<close>

inductive pool_own_step ::
  "('i, 's, 'p, 'f, 'q, 'j, 'o, 'e, 'n) pool_env
     \<Rightarrow> ('i, 's, 'p, 'f, 'q, 'j, 'o, 'e, 'n) pool_sys \<Rightarrow> ('i, 's, 'p, 'f, 'q, 'j, 'o, 'e, 'n) pool_sys \<Rightarrow> bool"
  for P :: "('i, 's, 'p, 'f, 'q, 'j, 'o, 'e, 'n) pool_env" where
  acc_acts: "i < length (ps_workers p) \<Longrightarrow> W = pe_worker P i \<Longrightarrow> s = ps_workers p ! i
    \<Longrightarrow> clock_in_range (we_imax W) c
    \<Longrightarrow> acc_step (we_worker W) (we_imax W) (we_requests W) (we_jobs W) c (wk_acc s, wk_shared s) = Some (ac, sh)
    \<Longrightarrow> pool_own_step P p (set_worker (pe_signal P) i (s\<lparr>wk_acc := ac, wk_shared := sh\<rparr>) p)"
| inf_acts: "i < length (ps_workers p) \<Longrightarrow> W = pe_worker P i \<Longrightarrow> s = ps_workers p ! i
    \<Longrightarrow> inf_step (we_args W) (we_jobs W) (inf_answer (ps_phase p) (sender_gone (ps_callers p)) d)
          (wk_inf s, wk_shared s) = Some (th, sh)
    \<Longrightarrow> pool_own_step P p (set_worker (pe_signal P) i (s\<lparr>wk_inf := th, wk_shared := sh\<rparr>) p)"
| caller_acts: "k < length (ps_callers p) \<Longrightarrow> call_step P k p = Some p' \<Longrightarrow> pool_own_step P p p'"

text \<open>And those of its users.\<close>

inductive pool_step ::
  "('i, 's, 'p, 'f, 'q, 'j, 'o, 'e, 'n) pool_env
     \<Rightarrow> ('i, 's, 'p, 'f, 'q, 'j, 'o, 'e, 'n) pool_sys \<Rightarrow> ('i, 's, 'p, 'f, 'q, 'j, 'o, 'e, 'n) pool_sys \<Rightarrow> bool"
  for P :: "('i, 's, 'p, 'f, 'q, 'j, 'o, 'e, 'n) pool_env" where
  own: "pool_own_step P p p' \<Longrightarrow> pool_step P p p'"
| serves: "ps_phase p = PoolStarting \<Longrightarrow> \<forall>s \<in> set (ps_workers p). it_ack (wk_inf s) = Some (Inr ())
    \<Longrightarrow> pool_step P p (p\<lparr>ps_phase := PoolServing\<rparr>)"
| arrives: "ps_phase p = PoolServing \<Longrightarrow> tx \<notin> ca_sender ` set (ps_callers p)
    \<Longrightarrow> pool_step P p (p\<lparr>ps_callers := ps_callers p
          @ [\<lparr>ca_input = inp, ca_sender = tx, ca_waits = waits, ca_pc = CallBegin False\<rparr>]\<rparr>)"
| cancelled: "k < length (ps_callers p) \<Longrightarrow> cancel_call P k p = Some p' \<Longrightarrow> pool_step P p p'"
| closes: "\<forall>c \<in> set (ps_callers p). call_over (ca_pc c)
    \<Longrightarrow> pool_step P p (p\<lparr>ps_phase := PoolClosed, ps_workers :=
          map (\<lambda>i. drop_handles (we_requests (pe_worker P i)) (ps_workers p ! i)) [0..<length (ps_workers p)]\<rparr>)"

definition pool_start ::
  "('i, 's, 'p, 'f, 'q, 'j, 'o, 'e, 'n) pool_env \<Rightarrow> inner_config \<Rightarrow> nat \<Rightarrow> nat
     \<Rightarrow> ('i, 's, 'p, 'f, 'q, 'j, 'o, 'e, 'n) pool_sys \<Rightarrow> bool" where
  "pool_start P cfg queue_sz n p \<longleftrightarrow>
     length (ps_workers p) = n \<and> (\<forall>i < n. worker_start (pe_worker P i) cfg queue_sz (ps_workers p ! i))
     \<and> ps_start p = 0 \<and> ps_signal p = nt_new (pe_signal P) \<and> ps_callers p = [] \<and> ps_phase p = PoolStarting"

abbreviation pool_reach ::
  "('i, 's, 'p, 'f, 'q, 'j, 'o, 'e, 'n) pool_env \<Rightarrow> inner_config \<Rightarrow> nat \<Rightarrow> nat
     \<Rightarrow> ('i, 's, 'p, 'f, 'q, 'j, 'o, 'e, 'n) pool_sys \<Rightarrow> bool" where
  "pool_reach P cfg queue_sz n \<equiv> reach (pool_start P cfg queue_sz n) (pool_step P)"

end
