(* ===== verification/Pool_Invariant.thy ===== *)
theory Pool_Invariant
  imports Pool_System "HOL-Library.Sublist"
begin

text \<open>
  What holds in every reachable state of a pool: each worker is a reachable worker, seen on its own,
  so everything proved of one worker holds in the pool; every request is with exactly one worker or
  with its caller; and a call that returned did so for the reason the log gives.
\<close>

subsection \<open>A worker's log and queue under its own steps\<close>

lemma acc_step_log:
  assumes "acc_step w imax Q J c (ac, sh) = Some (ac', sh')"
  shows "prefix (sh_log sh) (sh_log sh')"
  using assms
  by (cases c; cases "ac_pc ac")
    (auto simp: recv_first_def recv_more_def take_request_def check_predictor_alive_def drain_flush_def
      drain_handoff_def flush_buffer_def start_handoff_def reserve_job_def use_permit_def send_job_def
      acc_drop_def finish_sent_def acc_leave_def panic_guard_drop_def Let_def
      split: prod.splits recv_outcome.splits option.splits unwind.splits reserve_outcome.splits
        predictor_status.splits if_splits)

lemma inf_step_log:
  assumes "inf_step args J d (th, sh) = Some (th', sh')"
  shows "prefix (sh_log sh) (sh_log sh')"
  using assms
  by (cases d; cases "it_pc th")
    (auto simp: inf_start_def inf_receive_def inf_predict_def inf_handle_panic_def inf_rebuild_def
      inf_drop_def spawn_failed_def inf_die_def flush_batch_def Let_def
      split: prod.splits recv_outcome.splits option.splits unwind.splits sum.splits if_splits)

lemma own_step_acc:
  "acc_step (we_worker W) (we_imax W) (we_requests W) (we_jobs W) c (wk_acc s, wk_shared s) = Some (ac, sh)
    \<Longrightarrow> own_step W s (s\<lparr>wk_acc := ac, wk_shared := sh\<rparr>)"
  unfolding own_step_def by blast

lemma own_step_inf:
  "inf_step (we_args W) (we_jobs W) d (wk_inf s, wk_shared s) = Some (th, sh)
    \<Longrightarrow> own_step W s (s\<lparr>wk_inf := th, wk_shared := sh\<rparr>)"
  unfolding own_step_def by blast

lemma own_step_log:
  assumes "own_step W s t"
  shows "prefix (sh_log (wk_shared s)) (sh_log (wk_shared t))"
  using assms acc_step_log inf_step_log by (fastforce simp: own_step_def)

context worker_model
begin

lemma poll_recv_open:
  "mp_poll_recv (we_requests W) q = (r, q') \<Longrightarrow> qt q' = qt q"
  by (cases rule: req.poll_recv_cases [of q]) auto

lemma acc_step_open:
  assumes "acc_step w imax (we_requests W) J c (ac, sh) = Some (ac', sh')"
  shows "qt (sh_requests sh') = qt (sh_requests sh)"
  using assms req.drop_receiver [of "sh_requests sh"]
  by (cases c; cases "ac_pc ac")
    (auto simp: recv_first_def recv_more_def take_request_def check_predictor_alive_def drain_flush_def
      drain_handoff_def flush_buffer_def start_handoff_def reserve_job_def use_permit_def send_job_def
      acc_drop_def finish_sent_def acc_leave_def panic_guard_drop_def Let_def
      split: prod.splits recv_outcome.splits option.splits unwind.splits reserve_outcome.splits
        predictor_status.splits if_splits dest: poll_recv_open)

lemma own_step_open:
  assumes "worker_reach W cfg queue_sz s" and "own_step W s t"
  shows "qt (sh_requests (wk_shared t)) = qt (sh_requests (wk_shared s))"
  using assms(2) inf_step_requests [OF reach_sys_inv [OF assms(1)]] acc_step_open by (fastforce simp: own_step_def)

end

subsection \<open>One access of the router\<close>

text \<open>The message a routing call still holds.\<close>

fun route_msg :: "('m, 'e) route_pc \<Rightarrow> 'm option" where
  "route_msg (Check msg place sink) = Some msg"
| "route_msg (CheckByte msg place sink word) = Some msg"
| "route_msg (Recheck msg place sink) = Some msg"
| "route_msg (RecheckByte msg place sink word) = Some msg"
| "route_msg (Push msg place sink) = Some msg"
| "route_msg (PushByte msg place sink word) = Some msg"
| "route_msg (Send msg place sink) = Some msg"
| "route_msg (Routed (Inl (msg, e))) = Some msg"
| "route_msg (Routed (Inr u)) = None"
| "route_msg RoutePanic = None"

text \<open>A call that has ended without queueing its request hands it back with a routing error; until
  then its next access goes to a worker of the pool. It does not panic.\<close>

fun route_ok :: "nat \<Rightarrow> 'm \<Rightarrow> ('m, 'e) route_pc \<Rightarrow> bool" where
  "route_ok sz msg (Routed (Inl (m, e))) \<longleftrightarrow> m = msg \<and> (e = QueueFullError \<or> e = NoAvailableWorkersError)"
| "route_ok sz msg (Routed (Inr u)) \<longleftrightarrow> True"
| "route_ok sz msg RoutePanic \<longleftrightarrow> False"
| "route_ok sz msg pc \<longleftrightarrow> route_msg pc = Some msg \<and> the (route_target pc) < sz"

lemma route_next_ok [simp]:
  "sink < sz \<Longrightarrow> route_ok sz msg (route_next sz msg place sink)"
  "route_next sz msg place sink \<noteq> Routed (Inr u)"
  by (cases "(sz, msg, place, sink)" rule: route_next.cases; simp add: route_verdict_def)+

lemma route_rejected_ok [simp]:
  "sink < sz \<Longrightarrow> route_ok sz msg (route_rejected sz msg place sink)"
  "route_rejected sz msg place sink \<noteq> Routed (Inr u)"
  by (cases place; simp)+

lemma route_rechecked_ok [simp]:
  "sink < sz \<Longrightarrow> route_ok sz msg (route_rechecked sz rb msg place sink)"
  "route_rechecked sz rb msg place sink \<noteq> Routed (Inr u)"
  by (cases place; simp)+

lemma route_pushed_ok [simp]:
  "sink < sz \<Longrightarrow> route_ok sz msg (route_pushed sz place sink (QueueFull msg))"
  "sink < sz \<Longrightarrow> route_ok sz msg (route_pushed sz place sink (QueueClosed msg))"
  "route_pushed sz place sink (QueueFull msg) \<noteq> Routed (Inr u)"
  "route_pushed sz place sink (QueueClosed msg) \<noteq> Routed (Inr u)"
  by (cases place; simp)+

lemma route_start_ok: "0 < sz \<Longrightarrow> route_ok sz msg (fst (route_start sz start msg))"
  by (simp add: route_start_def)

lemma read_snapshot_eq:
  "ws_ok st \<Longrightarrow> read_snapshot word (ws_predictor st) = Some \<lparr>snap_worker_status = word_status word,
     snap_predictor_status = the_predictor st, snap_batch_len = of_nat (len_field word)\<rparr>"
  using snapshot_eq [of "st\<lparr>ws_word := word\<rparr>"]
  by (simp add: ws_ok_def snapshot_def the_snapshot_def the_status_def the_predictor_def the_len_def)

lemma route_sent_Nil [simp]: "(\<And>u. pc' \<noteq> Routed (Inr u)) \<Longrightarrow> route_sent pc pc' = []"
  by (cases "(pc, pc')" rule: route_sent.cases) auto

lemma worker_after_same [simp]: "worker_after [] (worker_view s) s = s"
  by (simp add: worker_after_def worker_view_def)

context worker_model
begin

lemma start_open:
  "worker_start W cfg queue_sz s \<Longrightarrow> qt (sh_requests (wk_shared s)) \<and> wk_accepted s = []"
  using req.channel_new [OF queue_pos] by (auto simp: worker_start_def new_worker_sys_def)

lemma reached_ws_ok: "worker_reach W cfg queue_sz s \<Longrightarrow> ws_ok (sh_state (wk_shared s))"
  using reach_sys_inv by (auto simp: sys_inv_def good_defs)

text \<open>An access leaves the worker as it was, or pushes the call's message.\<close>

lemma route_access:
  assumes "route_step (we_requests W) sz (worker_view s) pc = (pc', w)" and "route_ok sz msg pc"
    and "route_target pc = Some i" and "qt (sh_requests (wk_shared s))" and "ws_ok (sh_state (wk_shared s))"
  shows "route_ok sz msg pc'"
    and "worker_after (route_sent pc pc') w s = s \<and> (\<forall>u. pc' \<noteq> Routed (Inr u))
      \<or> pc' = Routed (Inr ()) \<and> worker_step W s (worker_after (route_sent pc pc') w s)
        \<and> wk_accepted (worker_after (route_sent pc pc') w s) = wk_accepted s @ [msg]
        \<and> qt (sh_requests (wk_shared (worker_after (route_sent pc pc') w s)))"
proof -
  let ?q = "sh_requests (wk_shared s)"
  have "route_ok sz msg pc' \<and> (worker_after (route_sent pc pc') w s = s \<and> (\<forall>u. pc' \<noteq> Routed (Inr u))
      \<or> pc' = Routed (Inr ()) \<and> worker_step W s (worker_after (route_sent pc pc') w s)
        \<and> wk_accepted (worker_after (route_sent pc pc') w s) = wk_accepted s @ [msg]
        \<and> qt (sh_requests (wk_shared (worker_after (route_sent pc pc') w s))))"
  proof (cases pc)
    case (Send m place sink)
    with assms(2) have m: "m = msg" "sink < sz" by simp_all
    have gone: "\<not> mp_senders_gone (we_requests W) ?q"
      using assms(4) req.senders_gone by simp
    show ?thesis
    proof (cases rule: req.try_send_cases [of ?q msg])
      case Closed
      with assms(1) Send m show ?thesis by (auto simp: worker_view_def worker_after_def)
    next
      case Full
      with assms(1) Send m show ?thesis by (auto simp: worker_view_def worker_after_def)
    next
      case (Ok q')
      with assms(1,4) Send m worker_step.caller_pushes [OF gone Ok(3)] show ?thesis
        by (auto simp: worker_view_def worker_after_def)
    qed
  qed (use assms in \<open>auto split: if_splits simp: worker_view_def worker_after_def read_snapshot_eq\<close>)
  then show "route_ok sz msg pc'"
    and "worker_after (route_sent pc pc') w s = s \<and> (\<forall>u. pc' \<noteq> Routed (Inr u))
      \<or> pc' = Routed (Inr ()) \<and> worker_step W s (worker_after (route_sent pc pc') w s)
        \<and> wk_accepted (worker_after (route_sent pc pc') w s) = wk_accepted s @ [msg]
        \<and> qt (sh_requests (wk_shared (worker_after (route_sent pc pc') w s)))"
    by simp_all
qed

end

subsection \<open>The invariant\<close>

lemma mset_concat_update:
  assumes "k < length xs"
  shows "mset (concat (map f (xs[k := x]))) + mset (f (xs ! k)) = mset (concat (map f xs)) + mset (f x)"
proof -
  obtain ys y zs where "xs = ys @ y # zs" "length ys = k"
    using assms id_take_nth_drop [OF assms] by (metis length_take min.absorb4)
  then show ?thesis
    by (simp add: list_update_append nth_append)
qed

text \<open>Whether a call's request has been queued, and what its result rests on.\<close>

fun route_done :: "('m, 'e) route_pc \<Rightarrow> bool" where
  "route_done (Routed (Inr u)) \<longleftrightarrow> True"
| "route_done _ \<longleftrightarrow> False"

lemma route_done_iff: "route_done pc \<longleftrightarrow> pc = Routed (Inr ())"
  by (cases pc rule: route_done.cases) auto

fun was_queued :: "('m, 'o, 'e) caller_pc \<Rightarrow> bool" where
  "was_queued (CallRouting reg pc) \<longleftrightarrow> route_done pc"
| "was_queued (CallQueued reg) \<longleftrightarrow> True"
| "was_queued (CallReturned b r) \<longleftrightarrow> b"
| "was_queued (CallCancelled b) \<longleftrightarrow> b"
| "was_queued _ \<longleftrightarrow> False"

definition queued_msg :: "('i, 's, 'o, 'e) caller \<Rightarrow> ('i \<times> 's) list" where
  "queued_msg c = (if was_queued (ca_pc c) then [ca_msg c] else [])"

definition answered ::
  "('i, 's, 'p, 'f, 'q, 'j, 'o, 'e) worker_sys list \<Rightarrow> 's \<Rightarrow> ('o, 'e) reply \<Rightarrow> bool" where
  "answered ws s r \<longleftrightarrow> r = Inl InternalError \<or> Reply s r \<in> set (pool_log ws)"

fun call_ok ::
  "('i, 's, 'p, 'f, 'q, 'j, 'o, 'e) worker_sys list \<Rightarrow> 'i \<times> 's \<Rightarrow> bool \<Rightarrow> ('i \<times> 's, 'o, 'e) caller_pc \<Rightarrow> bool" where
  "call_ok ws msg waits (CallRouting reg pc) \<longleftrightarrow> route_ok (length ws) msg pc"
| "call_ok ws msg waits CallPanicked \<longleftrightarrow> False"
| "call_ok ws msg waits (CallReturned b r) \<longleftrightarrow>
     (if b then answered ws (snd msg) r
      else r = Inl NoAvailableWorkersError \<or> r = Inl QueueFullError \<and> \<not> waits)"
| "call_ok ws msg waits _ \<longleftrightarrow> True"

definition caller_ok ::
  "('i, 's, 'p, 'f, 'q, 'j, 'o, 'e) worker_sys list \<Rightarrow> ('i, 's, 'o, 'e) caller \<Rightarrow> bool" where
  "caller_ok ws c \<longleftrightarrow> call_ok ws (ca_msg c) (ca_waits c) (ca_pc c)"

lemma outcome_of_reply:
  "outcome_of s es = Some out \<Longrightarrow> await_reply out = Inl InternalError \<or> Reply s (await_reply out) \<in> set es"
  by (induction es rule: outcome_of.induct) (auto simp: from_recv_error_def split: if_splits)

lemma answered_reply_of:
  assumes "reply_of s ws = Some out"
  shows "answered ws s (await_reply out)"
  using outcome_of_reply [OF assms [unfolded reply_of_def]] by (auto simp: answered_def)

lemma caller_ok_mono:
  "caller_ok ws c \<Longrightarrow> set (pool_log ws) \<subseteq> set (pool_log ws') \<Longrightarrow> length ws' = length ws \<Longrightarrow> caller_ok ws' c"
  by (cases "ca_pc c") (auto simp: caller_ok_def answered_def split: if_splits)

lemma pool_log_update:
  assumes "i < length ws" and "set (sh_log (wk_shared (ws ! i))) \<subseteq> set (sh_log (wk_shared t))"
  shows "set (pool_log ws) \<subseteq> set (pool_log (ws[i := t]))"
proof
  fix e assume "e \<in> set (pool_log ws)"
  then obtain w where "w \<in> set ws" and e: "e \<in> set (sh_log (wk_shared w))"
    by (auto simp: pool_log_def)
  then obtain j where j: "j < length ws" "w = ws ! j"
    by (auto simp: in_set_conv_nth)
  then have "e \<in> set (sh_log (wk_shared (ws[i := t] ! j)))"
    using e assms by (auto simp: nth_list_update)
  moreover have "ws[i := t] ! j \<in> set (ws[i := t])"
    using j(1) nth_mem [of j "ws[i := t]"] by simp
  ultimately show "e \<in> set (pool_log (ws[i := t]))"
    by (auto simp: pool_log_def)
qed

locale pool_model =
  sig: notify_signal "pe_signal P" permit fut
  for P :: "('i, 's, 'p, 'f, 'q, 'j, 'o, 'e, 'n) pool_env" and permit fut
  + fixes qi :: "'q \<Rightarrow> ('i \<times> 's) list" and qc qr qt
    and ji :: "'j \<Rightarrow> ('i, 's) worker_buffer list" and jc jr jt
    and cfg :: inner_config and queue_sz n :: nat
  assumes workers: "i < n \<Longrightarrow> worker_model (pe_worker P i) qi qc qr qt ji jc jr jt cfg queue_sz"
    and clock_room: "i < n \<Longrightarrow> clock_in_range (we_imax (pe_worker P i)) (AccRecv 0)"
    and pool_pos: "0 < n"
begin

definition workers_inv :: "('i, 's, 'p, 'f, 'q, 'j, 'o, 'e, 'n) pool_sys \<Rightarrow> bool" where
  "workers_inv p \<longleftrightarrow> length (ps_workers p) = n
     \<and> (\<forall>i < n. worker_reach (pe_worker P i) cfg queue_sz (ps_workers p ! i)
          \<and> qt (sh_requests (wk_shared (ps_workers p ! i))) = (ps_phase p \<noteq> PoolClosed))"

definition callers_inv :: "('i, 's, 'p, 'f, 'q, 'j, 'o, 'e, 'n) pool_sys \<Rightarrow> bool" where
  "callers_inv p \<longleftrightarrow>
     (ps_phase p = PoolStarting \<longrightarrow> ps_callers p = [])
     \<and> (ps_phase p = PoolClosed \<longrightarrow> (\<forall>c \<in> set (ps_callers p). call_over (ca_pc c)))
     \<and> distinct (map ca_sender (ps_callers p))
     \<and> (\<forall>c \<in> set (ps_callers p). caller_ok (ps_workers p) c)
     \<and> mset (concat (map wk_accepted (ps_workers p))) = mset (concat (map queued_msg (ps_callers p)))"

definition pool_inv :: "('i, 's, 'p, 'f, 'q, 'j, 'o, 'e, 'n) pool_sys \<Rightarrow> bool" where
  "pool_inv p \<longleftrightarrow> workers_inv p \<and> callers_inv p"

lemmas pool_inv_defs = pool_inv_def workers_inv_def callers_inv_def

lemma start_inv:
  assumes "pool_start P cfg queue_sz n p"
  shows "pool_inv p"
proof -
  have len: "length (ps_workers p) = n"
    and start: "\<And>i. i < n \<Longrightarrow> worker_start (pe_worker P i) cfg queue_sz (ps_workers p ! i)"
    using assms by (auto simp: pool_start_def)
  have "wk_accepted w = []" if "w \<in> set (ps_workers p)" for w
    using that len start worker_model.start_open [OF workers] by (auto simp: in_set_conv_nth)
  then have "concat (map wk_accepted (ps_workers p)) = []"
    by simp
  then show ?thesis
    using assms len start worker_model.start_open [OF workers]
    by (auto simp: pool_inv_defs pool_start_def intro: reach_start)
qed

text \<open>A step of one worker.\<close>

lemma set_worker_inv:
  assumes "pool_inv p" and "i < n" and "own_step (pe_worker P i) (ps_workers p ! i) t"
    and "wk_accepted t = wk_accepted (ps_workers p ! i)"
  shows "pool_inv (set_worker N i t p)"
proof -
  let ?s = "ps_workers p ! i"
  have len: "length (ps_workers p) = n" and reach: "worker_reach (pe_worker P i) cfg queue_sz ?s"
    using assms(1,2) by (auto simp: pool_inv_defs)
  have t: "worker_reach (pe_worker P i) cfg queue_sz t"
    using reach own_step_worker_step [OF assms(3)] by (rule reach_step)
  have "qt (sh_requests (wk_shared t)) = qt (sh_requests (wk_shared ?s))"
    by (rule worker_model.own_step_open [OF workers [OF assms(2)] reach assms(3)])
  then have "workers_inv (set_worker N i t p)"
    using assms(1,2) t by (auto simp: pool_inv_defs set_worker_def nth_list_update)
  moreover have "callers_inv (set_worker N i t p)"
  proof -
    have log: "set (sh_log (wk_shared ?s)) \<subseteq> set (sh_log (wk_shared t))"
      by (rule set_mono_prefix [OF own_step_log [OF assms(3)]])
    have "set (pool_log (ps_workers p)) \<subseteq> set (pool_log ((ps_workers p)[i := t]))"
      using log assms(2) len by (intro pool_log_update) auto
    moreover have "mset (concat (map wk_accepted ((ps_workers p)[i := t]))) = mset (concat (map wk_accepted (ps_workers p)))"
      using mset_concat_update [of i "ps_workers p" wk_accepted t] assms(2,4) len by simp
    ultimately show ?thesis
      using assms(1) by (auto simp: pool_inv_defs set_worker_def intro: caller_ok_mono)
  qed
  ultimately show ?thesis by (simp add: pool_inv_def)
qed

text \<open>A step of one call: its point changes, and at most one worker may have taken its request.\<close>

lemma set_call_inv:
  assumes "pool_inv p" and "k < length (ps_callers p)" and "\<not> call_over (ca_pc (ps_callers p ! k))"
    and "workers_inv p1" and "ps_callers p1 = ps_callers p" and "ps_phase p1 = ps_phase p"
    and "set (pool_log (ps_workers p)) \<subseteq> set (pool_log (ps_workers p1))"
    and "call_ok (ps_workers p1) (ca_msg (ps_callers p ! k)) (ca_waits (ps_callers p ! k)) pc"
    and "mset (concat (map wk_accepted (ps_workers p1))) + mset (queued_msg (ps_callers p ! k)) =
      mset (concat (map wk_accepted (ps_workers p))) + mset (if was_queued pc then [ca_msg (ps_callers p ! k)] else [])"
  shows "pool_inv (set_call k pc p1)"
proof -
  let ?c = "ps_callers p ! k" and ?cs = "ps_callers p"
  let ?c' = "?c\<lparr>ca_pc := pc\<rparr>"
  have phase: "ps_phase p = PoolServing"
    using assms(1-3) by (cases "ps_phase p") (auto simp: pool_inv_defs)
  have len: "length (ps_workers p1) = length (ps_workers p)"
    using assms(1,4) by (simp add: pool_inv_defs)
  have senders: "map ca_sender (?cs[k := ?c']) = map ca_sender ?cs"
    using assms(2) by (simp add: map_update list_update_same_conv)
  have ok: "caller_ok (ps_workers p1) c" if "c \<in> set (?cs[k := ?c'])" for c
  proof -
    have "c = ?c' \<or> c \<in> set ?cs"
      using that set_update_subset_insert [of ?cs k ?c'] by auto
    then show ?thesis
      using assms(1,8) caller_ok_mono [OF _ assms(7) len] by (auto simp: pool_inv_defs caller_ok_def ca_msg_def)
  qed
  have msgs: "queued_msg ?c' = (if was_queued pc then [ca_msg ?c] else [])"
    by (simp add: queued_msg_def ca_msg_def)
  have "mset (concat (map queued_msg (?cs[k := ?c']))) = mset (concat (map wk_accepted (ps_workers p1)))"
  proof (rule add_right_imp_eq)
    show "mset (concat (map queued_msg (?cs[k := ?c']))) + mset (queued_msg ?c) =
        mset (concat (map wk_accepted (ps_workers p1))) + mset (queued_msg ?c)"
      using mset_concat_update [OF assms(2), of queued_msg ?c'] assms(1,9) unfolding msgs
      by (simp add: pool_inv_defs)
  qed
  then show ?thesis
    using assms(1,4-6) phase senders ok
    by (simp add: pool_inv_defs set_call_def)
qed

lemma set_call_simple:
  assumes "pool_inv p" and "k < length (ps_callers p)" and "\<not> call_over (ca_pc (ps_callers p ! k))"
    and "ps_workers p1 = ps_workers p" "ps_callers p1 = ps_callers p" "ps_phase p1 = ps_phase p"
    and "call_ok (ps_workers p) (ca_msg (ps_callers p ! k)) (ca_waits (ps_callers p ! k)) pc"
    and "was_queued pc = was_queued (ca_pc (ps_callers p ! k))"
  shows "pool_inv (set_call k pc p1)"
  by (rule set_call_inv [OF assms(1-3)])
    (use assms in \<open>auto simp: pool_inv_def workers_inv_def queued_msg_def\<close>)

lemma drop_future_fields [simp]:
  "ps_workers (drop_future N reg k p) = ps_workers p" "ps_callers (drop_future N reg k p) = ps_callers p"
  "ps_phase (drop_future N reg k p) = ps_phase p" "ps_start (drop_future N reg k p) = ps_start p"
  by (simp_all add: drop_future_def)

text \<open>The steps of a call.\<close>

lemma call_routed_ok:
  assumes "route_ok sz msg (Routed r)"
  shows "call_ok ws msg waits (call_routed waits reg r)"
    and "was_queued (call_routed waits reg r) = route_done (Routed r)"
  using assms by (cases "(waits, reg, r)" rule: call_routed.cases; simp)+

lemma route_target_queued: "route_target pc = Some i \<Longrightarrow> \<not> route_done pc"
  by (cases pc) simp_all

lemma routing_workers:
  assumes "pool_inv p" and "i < n" and "ps_phase p \<noteq> PoolClosed"
    and "route_ok n msg pc" and "route_target pc = Some i"
    and "route_step (we_requests (pe_worker P i)) n (worker_view (ps_workers p ! i)) pc = (pc', w)"
  defines "ws' \<equiv> (ps_workers p)[i := worker_after (route_sent pc pc') w (ps_workers p ! i)]"
  shows "route_ok n msg pc'" and "workers_inv (p\<lparr>ps_workers := ws'\<rparr>)"
    and "mset (concat (map wk_accepted ws')) = mset (concat (map wk_accepted (ps_workers p)))
      + mset (if route_done pc' then [msg] else [])"
proof -
  let ?s = "ps_workers p ! i"
  let ?t = "worker_after (route_sent pc pc') w ?s"
  have len: "length (ps_workers p) = n" and s: "worker_reach (pe_worker P i) cfg queue_sz ?s"
      "qt (sh_requests (wk_shared ?s))"
    using assms(1-3) by (auto simp: pool_inv_defs)
  note acc = worker_model.route_access [OF workers [OF assms(2)] assms(6) assms(4,5) s(2)
      worker_model.reached_ws_ok [OF workers [OF assms(2)] s(1)]]
  show "route_ok n msg pc'" by (rule acc(1))
  show "workers_inv (p\<lparr>ps_workers := ws'\<rparr>)"
    using acc(2) assms(1-3) s len by (auto simp: pool_inv_defs ws'_def nth_list_update intro: reach_step)
  show "mset (concat (map wk_accepted ws')) = mset (concat (map wk_accepted (ps_workers p)))
      + mset (if route_done pc' then [msg] else [])"
    using acc(2)
  proof (elim disjE conjE)
    assume "?t = ?s" and "\<forall>u. pc' \<noteq> Routed (Inr u)"
    then have "ws' = ps_workers p" "\<not> route_done pc'"
      by (auto simp: ws'_def route_done_iff)
    then show ?thesis by simp
  next
    assume "pc' = Routed (Inr ())" and "wk_accepted ?t = wk_accepted ?s @ [msg]"
    then show ?thesis
      using mset_concat_update [of i "ps_workers p" wk_accepted ?t] assms(2) len by (simp add: ws'_def)
  qed
qed

lemma call_step_inv:
  assumes "pool_inv p" and "k < length (ps_callers p)" and "call_step P k p = Some p'"
  shows "pool_inv p'"
proof -
  let ?c = "ps_callers p ! k"
  have winv: "workers_inv p" using assms(1) by (simp add: pool_inv_def)
  have ok: "call_ok (ps_workers p) (ca_msg ?c) (ca_waits ?c) (ca_pc ?c)"
    using assms(1,2) nth_mem [OF assms(2)] by (auto simp: pool_inv_defs caller_ok_def)
  note simple = set_call_simple [OF assms(1,2)]
  show ?thesis
  proof (cases "ca_pc ?c")
    case (CallBegin reg)
    obtain pc start where start: "route_start n (ps_start p) (ca_msg ?c) = (pc :: ('i \<times> 's, 'e) route_pc, start)"
      by fastforce
    then have "route_ok n (ca_msg ?c) pc" "\<not> route_done pc"
      using route_start_ok [OF pool_pos, of "ca_msg ?c" "ps_start p"] pool_pos
      by (auto simp: route_start_def split: if_splits)
    moreover have len: "length (ps_workers p) = n"
      using winv by (simp add: workers_inv_def)
    moreover have "p' = set_call k (CallRouting reg pc) (p\<lparr>ps_start := start\<rparr>)"
      using start CallBegin assms(3) by (simp add: call_step_def len)
    moreover have "pool_inv (set_call k (CallRouting reg pc) (p\<lparr>ps_start := start\<rparr>))"
      by (rule simple) (use calculation CallBegin in simp_all)
    ultimately show ?thesis by simp
  next
    case (CallRouting reg pc)
    have p': "p' = route_call P k reg pc p"
      using assms(3) CallRouting by (simp add: call_step_def)
    show ?thesis
    proof (cases "route_target pc")
      case None
      show ?thesis
      proof (cases pc)
        case (Routed r)
        with ok CallRouting have r: "route_ok (length (ps_workers p)) (ca_msg ?c) (Routed r)" by simp
        show ?thesis
          using CallRouting Routed unfolding p'
          by (auto simp: route_call_def Let_def call_routed_ok [OF r] simp del: call_routed.simps route_done.simps intro!: simple)
      qed (use None ok CallRouting in simp_all)
    next
      case (Some i)
      have phase: "ps_phase p \<noteq> PoolClosed"
        using assms(1,2) CallRouting by (auto simp: pool_inv_defs dest!: bspec [of _ _ ?c])
      have route: "route_ok n (ca_msg ?c) pc" using ok CallRouting winv by (simp add: workers_inv_def)
      with Some have i: "i < n" by (cases pc) auto
      have not_queued: "queued_msg ?c = []"
        using route_target_queued [OF Some] CallRouting by (simp add: queued_msg_def)
      show ?thesis
      proof -
        obtain pc' w where step: "route_step (we_requests (pe_worker P i)) n (worker_view (ps_workers p ! i)) pc = (pc', w)"
          by fastforce
        let ?ws = "(ps_workers p)[i := worker_after (route_sent pc pc') w (ps_workers p ! i)]"
        note rw = routing_workers [OF assms(1) i phase route Some step]
        have log: "set (pool_log (ps_workers p)) \<subseteq> set (pool_log ?ws)"
          using winv i by (intro pool_log_update) (auto simp: workers_inv_def worker_after_def)
        have "p' = set_call k (CallRouting reg pc') (p\<lparr>ps_workers := ?ws\<rparr>)"
          using winv i Some step by (simp add: p' route_call_def Let_def workers_inv_def)
        moreover have "length ?ws = n"
          using winv by (simp add: workers_inv_def)
        then have "pool_inv (set_call k (CallRouting reg pc') (p\<lparr>ps_workers := ?ws\<rparr>))"
          by (intro set_call_inv [OF assms(1,2)]) (use rw CallRouting not_queued log in simp_all)
        ultimately show ?thesis by simp
      qed
    qed
  next
    case (CallQueued reg)
    then show ?thesis
      using assms(3) answered_reply_of
      by (auto simp: call_step_def ca_msg_def split: option.splits intro!: simple)
  qed (use assms(3) in \<open>auto simp: call_step_def split: if_splits intro!: simple\<close>)
qed

lemma cancel_call_inv:
  assumes "pool_inv p" and "k < length (ps_callers p)" and "cancel_call P k p = Some p'"
  shows "pool_inv p'"
proof -
  let ?c = "ps_callers p ! k"
  note simple = set_call_simple [OF assms(1,2)]
  show ?thesis
    using assms(3)
    by (auto simp: cancel_call_def split: caller_pc.splits intro!: simple)
qed

lemma closes_inv:
  assumes "pool_inv p" and "\<forall>c \<in> set (ps_callers p). call_over (ca_pc c)"
  shows "pool_inv (p\<lparr>ps_phase := PoolClosed, ps_workers :=
    map (\<lambda>i. drop_handles (we_requests (pe_worker P i)) (ps_workers p ! i)) [0..<length (ps_workers p)]\<rparr>)"
proof -
  let ?ws = "ps_workers p"
  let ?ws' = "map (\<lambda>i. drop_handles (we_requests (pe_worker P i)) (?ws ! i)) [0..<length ?ws]"
  have same: "wk_accepted (drop_handles Q w) = wk_accepted w" "sh_log (wk_shared (drop_handles Q w)) = sh_log (wk_shared w)"
    for Q and w :: "('i, 's, 'p, 'f, 'q, 'j, 'o, 'e) worker_sys"
    by (simp_all add: drop_handles_def)
  have "map f ?ws' = map f ?ws" if "\<And>Q w. f (drop_handles Q w) = f w" for f :: "_ \<Rightarrow> 'z"
    by (rule nth_equalityI) (simp_all add: that)
  from this [of wk_accepted] this [of "\<lambda>w. sh_log (wk_shared w)"]
  have "map wk_accepted ?ws' = map wk_accepted ?ws" "pool_log ?ws' = pool_log ?ws"
    by (simp_all add: same pool_log_def)
  moreover have "worker_reach (pe_worker P i) cfg queue_sz (?ws' ! i)" if "i < n" for i
    using that assms(1) worker_step.handles_dropped [of "pe_worker P i" "?ws ! i"]
    by (auto simp: pool_inv_defs drop_handles_def intro: reach_step)
  moreover have "\<not> qt (sh_requests (wk_shared (?ws' ! i)))" if "i < n" for i
    using that assms(1) mpsc_channel.drop_senders [OF worker_model.axioms(1) [OF workers [OF that]]]
    by (simp add: pool_inv_defs drop_handles_def)
  ultimately show ?thesis
    using assms caller_ok_mono [of ?ws _ ?ws'] by (auto simp: pool_inv_defs simp del: map_map)
qed

lemma step_inv:
  assumes "pool_inv p" and "pool_step P p p'"
  shows "pool_inv p'"
  using assms(2)
proof (cases rule: pool_step.cases)
  case own
  from own(1) show ?thesis
  proof (cases rule: pool_own_step.cases)
    case (acc_acts i W s c ac sh)
    from set_worker_inv [OF assms(1) _ own_step_acc [OF acc_acts(6) [unfolded acc_acts(3,4)]]] show ?thesis
      using assms(1) acc_acts(2) by (simp add: acc_acts(1,4) pool_inv_defs)
  next
    case (inf_acts i W s d th sh)
    from set_worker_inv [OF assms(1) _ own_step_inf [OF inf_acts(5) [unfolded inf_acts(3,4)]]] show ?thesis
      using assms(1) inf_acts(2) by (simp add: inf_acts(1,4) pool_inv_defs)
  next
    case (caller_acts k)
    show ?thesis by (rule call_step_inv [OF assms(1) caller_acts])
  qed
next
  case serves
  with assms(1) show ?thesis by (simp add: pool_inv_defs)
next
  case (arrives tx inp waits)
  with assms(1) show ?thesis
    by (auto simp: pool_inv_defs caller_ok_def queued_msg_def)
next
  case (cancelled k)
  show ?thesis by (rule cancel_call_inv [OF assms(1) cancelled])
next
  case closes
  with assms(1) closes_inv show ?thesis by simp
qed

end

sublocale pool_model \<subseteq> psys: invariant_system "pool_start P cfg queue_sz n" "pool_step P" pool_inv
  by unfold_locales (fact start_inv, fact step_inv)

end
