(* ===== verification/Worker_Properties.thy ===== *)
theory Worker_Properties
  imports Worker_Liveness
begin

text \<open>
  What one worker guarantees its callers, whatever the interleaving of its threads and whatever the
  user's code does: who gets which reply, that every request is settled exactly once, that work
  cannot get stuck, and how the shared status follows the batch.
\<close>

subsection \<open>Executing a schedule\<close>

text \<open>A schedule names the moves one after the other; running it reaches the state it ends in.\<close>

datatype ('i, 's) worker_move =
    AccMove acc_choice | InfMove "'s inf_choice" | Push "'i \<times> 's" | DropHandles

fun do_move ::
  "('i, 's, 'p, 'f, 'q, 'j, 'o, 'e) worker_env \<Rightarrow> ('i, 's) worker_move
     \<Rightarrow> ('i, 's, 'p, 'f, 'q, 'j, 'o, 'e) worker_sys \<Rightarrow> ('i, 's, 'p, 'f, 'q, 'j, 'o, 'e) worker_sys option" where
  "do_move W (AccMove c) s =
     (case acc_step (we_worker W) (we_imax W) (we_requests W) (we_jobs W) c (wk_acc s, wk_shared s) of
        None \<Rightarrow> None | Some (ac, sh) \<Rightarrow> Some (s\<lparr>wk_acc := ac, wk_shared := sh\<rparr>))"
| "do_move W (InfMove d) s =
     (case inf_step (we_args W) (we_jobs W) d (wk_inf s, wk_shared s) of
        None \<Rightarrow> None | Some (th, sh) \<Rightarrow> Some (s\<lparr>wk_inf := th, wk_shared := sh\<rparr>))"
| "do_move W (Push msg) s =
     (if mp_senders_gone (we_requests W) (sh_requests (wk_shared s)) then None
      else (case mp_try_send (we_requests W) msg (sh_requests (wk_shared s)) of
          (SendOk, q) \<Rightarrow> Some (s\<lparr>wk_shared := (wk_shared s)\<lparr>sh_requests := q\<rparr>,
                             wk_accepted := wk_accepted s @ [msg]\<rparr>)
        | _ \<Rightarrow> None))"
| "do_move W DropHandles s = Some (s\<lparr>wk_shared := (wk_shared s)
      \<lparr>sh_requests := mp_drop_senders (we_requests W) (sh_requests (wk_shared s))\<rparr>\<rparr>)"

fun run_schedule ::
  "('i, 's, 'p, 'f, 'q, 'j, 'o, 'e) worker_env \<Rightarrow> ('i, 's) worker_move list
     \<Rightarrow> ('i, 's, 'p, 'f, 'q, 'j, 'o, 'e) worker_sys \<Rightarrow> ('i, 's, 'p, 'f, 'q, 'j, 'o, 'e) worker_sys option" where
  "run_schedule W [] s = Some s"
| "run_schedule W (m # ms) s = (case do_move W m s of None \<Rightarrow> None | Some t \<Rightarrow> run_schedule W ms t)"

lemma do_move_step: "do_move W m s = Some t \<Longrightarrow> worker_step W s t"
  by (cases m) (auto split: option.splits prod.splits send_outcome.splits if_splits
      intro: worker_step.intros)

lemma run_schedule_reach:
  "run_schedule W ms s = Some t \<Longrightarrow> worker_reach W cfg n s \<Longrightarrow> worker_reach W cfg n t"
  by (induction ms arbitrary: s) (auto split: option.splits dest: do_move_step intro: reach_step)

lemma run_schedule_append:
  "run_schedule W (ms @ ns) s = Option.bind (run_schedule W ms s) (run_schedule W ns)"
  by (induction ms arbitrary: s) (auto split: option.splits)

lemma run_schedule_steps: "run_schedule W ms s = Some t \<Longrightarrow> (worker_step W)\<^sup>*\<^sup>* s t"
  by (induction ms arbitrary: s)
    (auto split: option.splits dest: do_move_step intro: converse_rtranclp_into_rtranclp)

lemma run_cases:
  assumes "map_option f (run_schedule W ms (new_worker_sys (we_requests W) (we_jobs W) cfg n 0)) = Some x"
  obtains s where "worker_reach W cfg n s" "f s = x"
proof -
  have "worker_reach W cfg n (new_worker_sys (we_requests W) (we_jobs W) cfg n 0)"
    by (rule reach_start) (auto simp: worker_start_def)
  moreover obtain s where "run_schedule W ms (new_worker_sys (we_requests W) (we_jobs W) cfg n 0) = Some s" "f s = x"
    using assms by auto
  ultimately show thesis
    using that run_schedule_reach by blast
qed

subsection \<open>A worker to run\<close>

text \<open>First-in first-out channels, a predictor that doubles its inputs and panics on an input of zero,
  a factory that always succeeds, batches of two.\<close>

definition fifo_env ::
  "instant \<Rightarrow> inference_worker \<Rightarrow> ('p, 'i, 'o, 'e, 'f) inf_args
     \<Rightarrow> ('i, 's, 'p, 'f, ('i \<times> 's) fifo, ('i, 's) worker_buffer fifo, 'o, 'e) worker_env" where
  "fifo_env imax worker args = \<lparr>we_requests = fifo_mpsc, we_jobs = fifo_mpsc, we_imax = imax,
     we_worker = worker, we_args = args\<rparr>"

lemma fifo_worker_model:
  assumes "ic_batch_size cfg \<noteq> 0" and "0 < n"
  shows "worker_model (fifo_env imax worker args) ff_items ff_cap ff_rx ff_tx ff_items ff_cap ff_rx ff_tx cfg n"
  unfolding worker_model_def worker_model_axioms_def fifo_env_def
  using assms by (auto intro: fifo.mpsc_channel_axioms)

definition demo_args :: "(unit, nat, nat, nat, nat) inf_args" where
  "demo_args = \<lparr>ia_factory = (\<lambda>_ _. Returned (Inr ())),
     ia_predict_batch = (\<lambda>p ins. if 0 \<in> set ins then Panicked else Returned (Inr (map (\<lambda>x. 2 * x) ins), p)),
     ia_worker_id = 0, ia_retries = 0, ia_backoff = DURATION_ZERO, ia_max_wait = DURATION_ZERO, ia_obs = None\<rparr>"

definition demo_env :: "(nat, nat, unit, nat, (nat \<times> nat) fifo, (nat, nat) worker_buffer fifo, nat, nat) worker_env" where
  "demo_env = fifo_env (10 ^ 30) \<lparr>iw_obs = None, iw_worker_id = 0\<rparr> demo_args"

definition demo_cfg :: inner_config where
  "demo_cfg = \<lparr>ic_timeout = from_millis 5, ic_batch_size = 2\<rparr>"

definition demo_start ::
  "(nat, nat, unit, nat, (nat \<times> nat) fifo, (nat, nat) worker_buffer fifo, nat, nat) worker_sys" where
  "demo_start = new_worker_sys (we_requests demo_env) (we_jobs demo_env) demo_cfg 4 0"

interpretation demo: worker_model demo_env ff_items ff_cap ff_rx ff_tx ff_items ff_cap ff_rx ff_tx demo_cfg 4
  unfolding demo_env_def by (rule fifo_worker_model) (simp_all add: demo_cfg_def)

lemma demo_reach:
  "run_schedule demo_env ms demo_start = Some s \<Longrightarrow> worker_reach demo_env demo_cfg 4 s"
  by (rule run_schedule_reach) (auto simp: demo_start_def worker_start_def intro!: reach_start)

definition demo_batch :: "(nat, nat) worker_move list" where
  "demo_batch = [InfMove (InfStart (\<lambda>_. False) True), Push (5, 1), AccMove (AccRecv 0), Push (6, 2),
     AccMove (AccRecv 0), AccMove AccRun, AccMove AccRun, AccMove AccRun, AccMove AccRun, AccMove AccRun,
     InfMove (InfReceive (\<lambda>_. False)), InfMove (InfPredict DURATION_ZERO)]"

lemmas run_defs = demo_env_def demo_cfg_def demo_args_def demo_start_def fifo_env_def fifo_mpsc_def
  new_worker_sys_def new_acc_task_def new_inf_thread_def JOB_QUEUE_DEPTH_def new_worker_state_def
  inf_start_def spawn_predictor_def backoff_schedule_def u8_saturating_add_def try_make_predictor_def
  recv_first_def recv_more_def take_request_def reset_next_inf_def instant_checked_add_def ONE_YEAR_def
  ws_timeout_def ws_batch_size_def update_len_def log_effects_def increment_len_def new_buffer_def buffer_push_def
  buffer_len_def buffer_is_empty_def split_buffer_def swap_replace_def check_predictor_alive_def
  get_predictor_state_def predictor_status_from_u8_def ALIVE_def REBUILDING_def DEAD_def start_handoff_def
  store_worker_def set_worker_state_def emit_defs reserve_job_def use_permit_def send_job_def finish_sent_def
  reset_batch_len_def inf_receive_def filter_canceled_def filter_loop.simps inf_predict_def predict_on_batch_def
  send_output_def send_errors_def send_errors_on_crash_def flush_buffer_def flush_batch_def

lemma demo_batch_replies:
  "map_option (\<lambda>s. (replies (sh_log (wk_shared s)), wk_accepted s)) (run_schedule demo_env demo_batch demo_start) =
     Some ([(1, Inr 10), (2, Inr 12)], [(5, 1), (6, 2)])"
  by (simp add: demo_batch_def run_defs Let_def duration_simps)

lemma demo_batch_reached:
  obtains s where "worker_reach demo_env demo_cfg 4 s" "replies (sh_log (wk_shared s)) = [(1, Inr 10), (2, Inr 12)]"
    "wk_accepted s = [(5, 1), (6, 2)]"
  using demo_batch_replies demo_reach [of demo_batch] by fastforce

lemma run_demo_cases:
  assumes "map_option f (run_schedule demo_env ms demo_start) = Some x"
  obtains s where "worker_reach demo_env demo_cfg 4 s" "f s = x"
  using assms demo_reach [of ms] by (cases "run_schedule demo_env ms demo_start") auto

lemma demo_batch_idle:
  "map_option (\<lambda>s. (ac_pc (wk_acc s), it_pc (wk_inf s), wk_accepted s, sh_requests (wk_shared s), sh_jobs (wk_shared s)))
     (run_schedule demo_env demo_batch demo_start) =
     Some (AwaitFirst, InfWaiting (), [(5, 1), (6, 2)], \<lparr>ff_items = [], ff_cap = 4, ff_rx = True, ff_tx = True\<rparr>,
       \<lparr>ff_items = [], ff_cap = 1, ff_rx = True, ff_tx = True\<rparr>)"
  by (simp add: demo_batch_def run_defs Let_def duration_simps)

lemma demo_idle_stuck:
  assumes "ac_pc (wk_acc s) = AwaitFirst" "it_pc (wk_inf s) = InfWaiting ()"
    "sh_requests (wk_shared s) = \<lparr>ff_items = [], ff_cap = 4, ff_rx = True, ff_tx = True\<rparr>"
    "sh_jobs (wk_shared s) = \<lparr>ff_items = [], ff_cap = 1, ff_rx = True, ff_tx = True\<rparr>"
  shows "\<not> own_step demo_env s u"
proof -
  have "acc_step (we_worker demo_env) (we_imax demo_env) (we_requests demo_env) (we_jobs demo_env) c
      (wk_acc s, wk_shared s) = None" for c
    using assms by (cases c) (simp_all add: recv_first_def demo_env_def fifo_env_def fifo_mpsc_def)
  moreover have "inf_step (we_args demo_env) (we_jobs demo_env) d (wk_inf s, wk_shared s) = None" for d
    using assms by (cases d) (simp_all add: inf_receive_def demo_env_def fifo_env_def fifo_mpsc_def)
  ultimately show ?thesis
    by (simp add: own_step_def)
qed

text \<open>A batch that makes the predictor panic, with a second request in the queue: up to the panic, and from
  there. The batch of the second request completes before the rebuild.\<close>

definition demo_crash :: "(nat, nat) worker_move list" where
  "demo_crash = [InfMove (InfStart (\<lambda>_. False) True), Push (0, 1), AccMove (AccRecv 0), AccMove (AccTimer 5000000),
     AccMove AccRun, AccMove AccRun, AccMove AccRun, AccMove AccRun, AccMove AccRun, Push (7, 2),
     InfMove (InfReceive (\<lambda>_. False)), InfMove (InfPredict DURATION_ZERO)]"

definition demo_recovery :: "(nat, nat) worker_move list" where
  "demo_recovery = [InfMove InfHandlePanic, AccMove (AccRecv 6000000), AccMove (AccTimer 11000000), AccMove AccRun,
     AccMove AccRun, InfMove (InfRebuild 0), InfMove InfFlush, InfMove InfRevive]"

definition demo_panic :: "(nat, nat) worker_move list" where
  "demo_panic = demo_crash @ demo_recovery"

lemmas panic_defs = inf_handle_panic_def inf_rebuild_def drain_flush_def store_predictor_def
  set_predictor_state_def

lemma demo_panic_replies:
  "map_option (\<lambda>s. (replies (sh_log (wk_shared s)), wk_accepted s, ws_predictor (sh_state (wk_shared s)),
       it_pc (wk_inf s))) (run_schedule demo_env demo_panic demo_start) =
     Some ([(1, Inl InternalError), (2, Inl InternalError)], [(0, 1), (7, 2)], 0, InfWaiting ())"
  by (simp add: demo_panic_def demo_crash_def demo_recovery_def run_defs panic_defs Let_def duration_simps)

text \<open>What is stored in the predictor byte.\<close>

fun predictor_stores :: "('s, 'o, 'e) effect list \<Rightarrow> predictor_status list" where
  "predictor_stores [] = []"
| "predictor_stores (StorePredictor st # es) = st # predictor_stores es"
| "predictor_stores (_ # es) = predictor_stores es"

lemma demo_crash_state:
  "map_option (\<lambda>s. (it_pc (wk_inf s), ff_items (sh_requests (wk_shared s)), replies (sh_log (wk_shared s))))
       (run_schedule demo_env demo_crash demo_start) = Some (InfCrashing () [1], [(7, 2)], [])"
  by (simp add: demo_crash_def run_defs panic_defs Let_def duration_simps)

lemma demo_recovery_state:
  assumes "run_schedule demo_env demo_crash demo_start = Some s"
  shows "map_option (\<lambda>t. (replies (sh_log (wk_shared t)), predictor_stores (sh_log (wk_shared t)), it_pc (wk_inf t),
      get_predictor_state (sh_state (wk_shared t)))) (run_schedule demo_env demo_recovery s) =
    Some ([(1, Inl InternalError), (2, Inl InternalError)], [Rebuilding, Alive], InfWaiting (), Some Alive)"
proof -
  have "run_schedule demo_env demo_panic demo_start = run_schedule demo_env demo_recovery s"
    using assms by (simp add: demo_panic_def run_schedule_append)
  then show ?thesis
    by (rule subst) (simp add: demo_panic_def demo_crash_def demo_recovery_def run_defs panic_defs Let_def duration_simps)
qed

definition demo_running :: "(nat, nat) worker_move list" where
  "demo_running = butlast demo_batch"

lemma demo_running_state:
  "map_option (\<lambda>s. (it_pc (wk_inf s), wk_accepted s)) (run_schedule demo_env demo_running demo_start) =
     Some (InfPredicting () [5, 6] [1, 2], [(5, 1), (6, 2)])"
  by (simp add: demo_running_def demo_batch_def run_defs Let_def duration_simps)

definition demo_exit :: "(nat, nat) worker_move list" where
  "demo_exit = [InfMove (InfStart (\<lambda>_. False) True), DropHandles, AccMove (AccRecv 0)]"

lemma demo_exit_state:
  "map_option (\<lambda>s. (the_status (sh_state (wk_shared s)), ac_pc (wk_acc s)))
     (run_schedule demo_env demo_exit demo_start) = Some (Exit, AccExiting)"
  by (simp add: demo_exit_def run_defs acc_leave_def Let_def the_status_def status_simps)

lemma demo_model:
  "worker_model demo_env ff_items ff_cap ff_rx ff_tx ff_items ff_cap ff_rx ff_tx demo_cfg 4"
  by (rule demo.worker_model_axioms)

subsection \<open>Properties\<close>

text \<open>A caller that gets an output gets the one computed for its own input. In every reachable
  state of a worker, under every interleaving of the accumulator, the inference thread and the
  callers, if the request \<open>(i, r)\<close> was taken and an \<open>Ok\<close> result was sent to \<open>r\<close> (senders being
  distinct), then some call of \<open>predict_batch\<close> got between one and \<open>batch_size\<close> inputs, had \<open>i\<close> at
  some position, returned as many outputs, and had this output at the same position.\<close>

theorem caller_gets_own_output:
  assumes "worker_model W qi qc qr qt ji jc jr jt cfg n" and "worker_reach W cfg n s"
    and "distinct (map snd (wk_accepted s))" and "(i, r) \<in> set (wk_accepted s)"
    and "Reply r (Inr out) \<in> set (sh_log (wk_shared s))"
  shows "\<exists>p p' ins outs k. ia_predict_batch (we_args W) p ins = Returned (Inr outs, p')
    \<and> 0 < length ins \<and> length ins \<le> unat (ic_batch_size cfg) \<and> length outs = length ins
    \<and> k < length ins \<and> ins ! k = i \<and> outs ! k = out"
  by (rule worker_model.reached_output [OF assms])

theorem caller_gets_own_output_witness:
  "\<exists>s p p' ins outs k. worker_reach demo_env demo_cfg 4 s
    \<and> ia_predict_batch (we_args demo_env) p ins = Returned (Inr outs, p')
    \<and> k < length ins \<and> ins ! k = 6 \<and> outs ! k = 12"
proof (rule demo_batch_reached)
  fix s assume s: "worker_reach demo_env demo_cfg 4 s"
    "replies (sh_log (wk_shared s)) = [(1, Inr 10), (2, Inr 12)]" "wk_accepted s = [(5, 1), (6, 2)]"
  then have "distinct (map snd (wk_accepted s))" "(6, 2) \<in> set (wk_accepted s)"
    "Reply 2 (Inr 12) \<in> set (sh_log (wk_shared s))"
    by (simp_all add: Reply_in_replies)
  from caller_gets_own_output [OF demo_model s(1) this] s(1) show ?thesis by blast
qed

text \<open>Every reply a worker sends has its reason: an error of the predictor comes from a call of
  \<open>predict_batch\<close> on a batch that held the caller's request, \<open>InvalidPredictorOutput\<close> from a call on
  such a batch that returned the wrong number of outputs, \<open>InternalError\<close> goes only to callers whose
  request was taken, and a worker never answers with a routing or timeout error. Batches are nonempty, within the
  batch size, and made of accepted requests.\<close>

theorem worker_errors_explained:
  assumes "worker_model W qi qc qr qt ji jc jr jt cfg n" and "worker_reach W cfg n s"
    and "Reply r (Inl e) \<in> set (sh_log (wk_shared s))"
  shows "case e of
      InferenceError err \<Rightarrow> \<exists>p p' ps. ia_predict_batch (we_args W) p (map fst ps) = Returned (Inl err, p')
        \<and> batch_ok (unat (ic_batch_size cfg)) (set (wk_accepted s)) ps \<and> r \<in> snd ` set ps
    | InvalidPredictorOutput \<Rightarrow> \<exists>p p' ps outs.
        ia_predict_batch (we_args W) p (map fst ps) = Returned (Inr outs, p')
        \<and> batch_ok (unat (ic_batch_size cfg)) (set (wk_accepted s)) ps \<and> length outs \<noteq> length ps \<and> r \<in> snd ` set ps
    | InternalError \<Rightarrow> r \<in> snd ` set (wk_accepted s)
    | _ \<Rightarrow> False"
  using worker_model.reached_replies [OF assms] by (cases e) simp_all

theorem worker_errors_explained_witness:
  "\<exists>s. worker_reach demo_env demo_cfg 4 s \<and> Reply 1 (Inl InternalError) \<in> set (sh_log (wk_shared s))
    \<and> 1 \<in> snd ` set (wk_accepted s)"
proof (rule run_demo_cases [OF demo_panic_replies])
  fix s assume s: "worker_reach demo_env demo_cfg 4 s"
    "(replies (sh_log (wk_shared s)), wk_accepted s, ws_predictor (sh_state (wk_shared s)), it_pc (wk_inf s)) =
      ([(1, Inl InternalError), (2, Inl InternalError)], [(0, 1), (7, 2)], 0, InfWaiting ())"
  then have r: "Reply 1 (Inl InternalError) \<in> set (sh_log (wk_shared s))"
    by (simp add: Reply_in_replies)
  from worker_errors_explained [OF demo_model s(1) r] r s(1) show ?thesis by auto
qed

text \<open>Requests are conserved. In every reachable state the results sent and the senders dropped so
  far belong to distinct requests the worker has taken: nobody is answered twice, nobody is answered
  who did not ask.\<close>

theorem settled_at_most_once:
  assumes "worker_model W qi qc qr qt ji jc jr jt cfg n" and "worker_reach W cfg n s"
    and "distinct (map snd (wk_accepted s))"
  shows "distinct (settled (sh_log (wk_shared s)))
    \<and> set (settled (sh_log (wk_shared s))) \<subseteq> snd ` set (wk_accepted s)"
proof -
  have sub: "mset (settled (sh_log (wk_shared s))) \<subseteq># mset (map snd (wk_accepted s))"
    by (rule worker_model.reached_settled [OF assms(1,2)])
  with assms(3) have "distinct (settled (sh_log (wk_shared s)))"
    by (rule distinct_mset_sub [rotated])
  with set_mset_mono [OF sub] show ?thesis by simp
qed

theorem settled_at_most_once_witness:
  "\<exists>s. worker_reach demo_env demo_cfg 4 s \<and> wk_accepted s = [(5, 1), (6, 2)]
    \<and> distinct (settled (sh_log (wk_shared s)))"
proof (rule demo_batch_reached)
  fix s assume s: "worker_reach demo_env demo_cfg 4 s" "wk_accepted s = [(5, 1), (6, 2)]"
  then have "distinct (map snd (wk_accepted s))" by simp
  from settled_at_most_once [OF demo_model s(1) this] s show ?thesis by blast
qed

text \<open>Work does not get stuck. From every reachable state the worker's own threads can make only a
  bounded number of steps (the bound is computed from the state), and where neither can move, every
  request taken so far has been answered or its sender dropped; if moreover all handles are gone,
  both threads have ended and every predictor ever built has been dropped.\<close>

theorem worker_settles_everything:
  assumes "worker_model W qi qc qr qt ji jc jr jt cfg n" and "worker_reach W cfg n s"
    and "(own_step W ^^ k) s t"
  shows "k \<le> worker_measure qi ji s
    \<and> ((\<forall>u. \<not> own_step W t u) \<longrightarrow> mset (settled (sh_log (wk_shared t))) = mset (map snd (wk_accepted t)))
    \<and> ((\<forall>u. \<not> own_step W t u) \<and> mp_senders_gone (we_requests W) (sh_requests (wk_shared t)) \<longrightarrow>
        ac_pc (wk_acc t) = AccExited \<and> it_pc (wk_inf t) = InfReleased
        \<and> built_count (sh_log (wk_shared t)) = drop_count (sh_log (wk_shared t)))"
  using worker_model.reached_own_steps [OF assms] by auto

theorem worker_settles_everything_witness:
  "\<exists>s. worker_reach demo_env demo_cfg 4 s \<and> wk_accepted s = [(5, 1), (6, 2)]
    \<and> mset (settled (sh_log (wk_shared s))) = {#1, 2#}"
proof (rule run_demo_cases [OF demo_batch_idle])
  fix s assume s: "worker_reach demo_env demo_cfg 4 s"
    "(ac_pc (wk_acc s), it_pc (wk_inf s), wk_accepted s, sh_requests (wk_shared s), sh_jobs (wk_shared s)) =
      (AwaitFirst, InfWaiting (), [(5, 1), (6, 2)], \<lparr>ff_items = [], ff_cap = 4, ff_rx = True, ff_tx = True\<rparr>,
       \<lparr>ff_items = [], ff_cap = 1, ff_rx = True, ff_tx = True\<rparr>)"
  have stuck: "\<forall>u. \<not> own_step demo_env s u"
    using demo_idle_stuck [of s] s(2) by simp
  have "(own_step demo_env ^^ 0) s s" by simp
  from worker_settles_everything [OF demo_model s(1) this] stuck s show ?thesis by auto
qed

text \<open>C23: The status the router reads follows the accumulator. In every reachable state a snapshot of a
  worker does not panic, and at each point of the accumulator it shows what that point calls for: \<open>Waiting\<close> with
  length zero between batches, \<open>Waiting\<close> with the exact number of requests (below the batch size)
  while a batch fills, \<open>Running\<close> with the batch's length during a hand-off. The buffer never
  exceeds the batch size before a hand-off, and the u32 length is exact.\<close>

theorem snapshot_follows_batch:
  assumes "worker_model W qi qc qr qt ji jc jr jt cfg n" and "worker_reach W cfg n s"
  shows "\<exists>snap. snapshot (sh_state (wk_shared s)) = Some snap
    \<and> acc_pc_ok (unat (ic_batch_size cfg)) (ac_pc (wk_acc s)) (pairs (ac_buffer (wk_acc s)))
        (snap_worker_status snap) (unat (snap_batch_len snap))"
  by (rule worker_model.reached_status [OF assms])

theorem snapshot_follows_batch_witness:
  "\<exists>s snap. worker_reach demo_env demo_cfg 4 s \<and> snapshot (sh_state (wk_shared s)) = Some snap
    \<and> acc_pc_ok 2 (ac_pc (wk_acc s)) (pairs (ac_buffer (wk_acc s)))
        (snap_worker_status snap) (unat (snap_batch_len snap))"
proof (rule demo_batch_reached)
  fix s assume s: "worker_reach demo_env demo_cfg 4 s"
  from snapshot_follows_batch [OF demo_model this] s show ?thesis
    by (auto simp: demo_cfg_def)
qed

text \<open>C24: The call of \<open>predict_batch\<close>: whenever the inference thread is about to call it, the inputs
  are between one and \<open>batch_size\<close>, as many as the result senders, and input and sender at each
  position are a request the worker took.\<close>

theorem predictor_gets_bounded_batches:
  assumes "worker_model W qi qc qr qt ji jc jr jt cfg n" and "worker_reach W cfg n s"
    and "it_pc (wk_inf s) = InfPredicting p ins ss"
  shows "length ins = length ss \<and> 0 < length ins \<and> length ins \<le> unat (ic_batch_size cfg)
    \<and> set (zip ins ss) \<subseteq> set (wk_accepted s)"
  by (rule worker_model.reached_batch [OF assms])

theorem predictor_gets_bounded_batches_witness:
  "\<exists>s. worker_reach demo_env demo_cfg 4 s \<and> it_pc (wk_inf s) = InfPredicting () [5, 6] [1, 2]
    \<and> set (zip [5, 6] [1, 2]) \<subseteq> set (wk_accepted s)"
proof (rule run_demo_cases [OF demo_running_state])
  fix s assume s: "worker_reach demo_env demo_cfg 4 s"
    "(it_pc (wk_inf s), wk_accepted s) = (InfPredicting () [5, 6] [1, 2], [(5, 1), (6, 2)])"
  then have pc: "it_pc (wk_inf s) = InfPredicting () [5, 6] [1, 2]" by simp
  from predictor_gets_bounded_batches [OF demo_model s(1) pc] s(1) pc show ?thesis by blast
qed

text \<open>C27: One predictor at a time. In every reachable state the predictors built so far exceed those
  dropped by at most one, also across rebuilds, and once the inference thread has left its runner
  (and so before it releases the shutdown sender) all of them have been dropped.\<close>

theorem one_predictor_at_a_time:
  assumes "worker_model W qi qc qr qt ji jc jr jt cfg n" and "worker_reach W cfg n s"
  shows "built_count (sh_log (wk_shared s)) \<le> drop_count (sh_log (wk_shared s)) + 1
    \<and> (it_pc (wk_inf s) \<in> {InfExiting, InfExited, InfReleased} \<longrightarrow>
        built_count (sh_log (wk_shared s)) = drop_count (sh_log (wk_shared s)))"
proof -
  have "owned_predictors (it_pc (wk_inf s)) \<le> 1"
    by (cases "it_pc (wk_inf s)") simp_all
  then show ?thesis
    using worker_model.reached_predictors [OF assms] by auto
qed

theorem one_predictor_at_a_time_witness:
  "\<exists>s. worker_reach demo_env demo_cfg 4 s \<and> wk_accepted s = [(5, 1), (6, 2)]
    \<and> built_count (sh_log (wk_shared s)) \<le> drop_count (sh_log (wk_shared s)) + 1"
proof (rule demo_batch_reached)
  fix s assume s: "worker_reach demo_env demo_cfg 4 s" "wk_accepted s = [(5, 1), (6, 2)]"
  from one_predictor_at_a_time [OF demo_model s(1)] s show ?thesis by blast
qed

text \<open>A worker that reports \<open>Exit\<close> or \<open>Crashed\<close> reports it for ever: no step of its threads or of
  the callers changes that status.\<close>

theorem terminal_status_is_final:
  assumes "worker_model W qi qc qr qt ji jc jr jt cfg n" and "worker_reach W cfg n s"
    and "worker_step W s t" and "the_status (sh_state (wk_shared s)) = st" and "st = Exit \<or> st = Crashed"
  shows "the_status (sh_state (wk_shared t)) = st"
  by (rule worker_model.reached_final [OF assms])

theorem terminal_status_is_final_witness:
  "\<exists>s t. worker_reach demo_env demo_cfg 4 s \<and> worker_step demo_env s t
    \<and> the_status (sh_state (wk_shared t)) = Exit"
proof (rule run_demo_cases [OF demo_exit_state])
  fix s assume s: "worker_reach demo_env demo_cfg 4 s"
    "(the_status (sh_state (wk_shared s)), ac_pc (wk_acc s)) = (Exit, AccExiting)"
  obtain t where t: "worker_step demo_env s t"
    using worker_step.handles_dropped by blast
  from terminal_status_is_final [OF demo_model s(1) t, of Exit] s t show ?thesis by auto
qed

text \<open>C35: A request that was queued on a worker when its predictor panicked need not wait for the
  rebuild. There is a run that comes through a state in which the predictor has just panicked on a batch
  of the first caller alone, while the second caller's request is still in the worker's queue and nobody has
  been answered; from there the predictor is marked as rebuilding and then as alive, once each, so it never
  panics again and the rebuild succeeds; and yet the second caller gets \<open>InternalError\<close>.\<close>

theorem queued_request_fails_during_rebuild:
  "\<exists>s t. worker_reach demo_env demo_cfg 4 s \<and> it_pc (wk_inf s) = InfCrashing () [1]
    \<and> ff_items (sh_requests (wk_shared s)) = [(7, 2)] \<and> replies (sh_log (wk_shared s)) = []
    \<and> (worker_step demo_env)\<^sup>*\<^sup>* s t
    \<and> replies (sh_log (wk_shared t)) = [(1, Inl InternalError), (2, Inl InternalError)]
    \<and> predictor_stores (sh_log (wk_shared t)) = [Rebuilding, Alive]
    \<and> it_pc (wk_inf t) = InfWaiting () \<and> get_predictor_state (sh_state (wk_shared t)) = Some Alive"
proof -
  obtain s where s: "run_schedule demo_env demo_crash demo_start = Some s" "it_pc (wk_inf s) = InfCrashing () [1]"
    "ff_items (sh_requests (wk_shared s)) = [(7, 2)]" "replies (sh_log (wk_shared s)) = []"
    using demo_crash_state by auto
  obtain t where t: "run_schedule demo_env demo_recovery s = Some t"
    "replies (sh_log (wk_shared t)) = [(1, Inl InternalError), (2, Inl InternalError)]"
    "predictor_stores (sh_log (wk_shared t)) = [Rebuilding, Alive]" "it_pc (wk_inf t) = InfWaiting ()"
    "get_predictor_state (sh_state (wk_shared t)) = Some Alive"
    using demo_recovery_state [OF s(1)] by auto
  from s t demo_reach [OF s(1)] run_schedule_steps [OF t(1)] show ?thesis by blast
qed

end
