(* ===== verification/Pool_Runs.thy ===== *)
theory Pool_Runs
  imports Pool_Invariant Worker_Properties
begin

text \<open>
  Schedules of a pool, and the pool on which they run: first-in first-out channels, a signal that
  wakes the longest waiting caller, and the predictor of \<open>demo_env\<close> on every worker.
\<close>

datatype ('i, 's) pool_move =
    PoolAcc nat acc_choice
  | PoolInf nat "'s inf_choice"
  | PoolCall nat
  | PoolServe
  | PoolArrive 'i 's bool
  | PoolCancel nat
  | PoolClose

fun do_pool_move ::
  "('i, 's, 'p, 'f, 'q, 'j, 'o, 'e, 'n) pool_env \<Rightarrow> ('i, 's) pool_move
     \<Rightarrow> ('i, 's, 'p, 'f, 'q, 'j, 'o, 'e, 'n) pool_sys \<Rightarrow> ('i, 's, 'p, 'f, 'q, 'j, 'o, 'e, 'n) pool_sys option" where
  "do_pool_move P (PoolAcc i c) p =
     (if i < length (ps_workers p) \<and> clock_in_range (we_imax (pe_worker P i)) c
      then (case do_move (pe_worker P i) (AccMove c) (ps_workers p ! i) of
          None \<Rightarrow> None | Some t \<Rightarrow> Some (set_worker (pe_signal P) i t p))
      else None)"
| "do_pool_move P (PoolInf i d) p =
     (if i < length (ps_workers p)
      then (case do_move (pe_worker P i) (InfMove (inf_answer (ps_phase p) (sender_gone (ps_callers p)) d))
                 (ps_workers p ! i) of
          None \<Rightarrow> None | Some t \<Rightarrow> Some (set_worker (pe_signal P) i t p))
      else None)"
| "do_pool_move P (PoolCall k) p = (if k < length (ps_callers p) then call_step P k p else None)"
| "do_pool_move P PoolServe p =
     (if ps_phase p = PoolStarting \<and> list_all (\<lambda>s. it_ack (wk_inf s) = Some (Inr ())) (ps_workers p)
      then Some (p\<lparr>ps_phase := PoolServing\<rparr>) else None)"
| "do_pool_move P (PoolArrive inp tx waits) p =
     (if ps_phase p = PoolServing \<and> list_all (\<lambda>c. ca_sender c \<noteq> tx) (ps_callers p)
      then Some (p\<lparr>ps_callers := ps_callers p
             @ [\<lparr>ca_input = inp, ca_sender = tx, ca_waits = waits, ca_pc = CallBegin False\<rparr>]\<rparr>)
      else None)"
| "do_pool_move P (PoolCancel k) p = (if k < length (ps_callers p) then cancel_call P k p else None)"
| "do_pool_move P PoolClose p =
     (if list_all (\<lambda>c. call_over (ca_pc c)) (ps_callers p)
      then Some (p\<lparr>ps_phase := PoolClosed, ps_workers :=
             map (\<lambda>i. drop_handles (we_requests (pe_worker P i)) (ps_workers p ! i)) [0..<length (ps_workers p)]\<rparr>)
      else None)"

fun run_pool ::
  "('i, 's, 'p, 'f, 'q, 'j, 'o, 'e, 'n) pool_env \<Rightarrow> ('i, 's) pool_move list
     \<Rightarrow> ('i, 's, 'p, 'f, 'q, 'j, 'o, 'e, 'n) pool_sys \<Rightarrow> ('i, 's, 'p, 'f, 'q, 'j, 'o, 'e, 'n) pool_sys option" where
  "run_pool P [] p = Some p"
| "run_pool P (m # ms) p = (case do_pool_move P m p of None \<Rightarrow> None | Some p' \<Rightarrow> run_pool P ms p')"

lemma run_pool_append:
  "run_pool P (xs @ ys) p = (case run_pool P xs p of None \<Rightarrow> None | Some p' \<Rightarrow> run_pool P ys p')"
  by (induction xs arbitrary: p) (auto split: option.splits)

lemma do_pool_move_step: "do_pool_move P m p = Some p' \<Longrightarrow> pool_step P p p'"
  by (cases m)
    (auto simp: list_all_iff split: option.splits prod.splits if_splits
      intro: pool_step.intros pool_own_step.intros)

lemma run_pool_reach:
  "run_pool P ms p = Some p' \<Longrightarrow> pool_reach P cfg queue_sz n p \<Longrightarrow> pool_reach P cfg queue_sz n p'"
  by (induction ms arbitrary: p) (auto split: option.splits dest: do_pool_move_step intro: reach_step)

text \<open>A pool before its first step.\<close>

definition new_pool ::
  "('i, 's, 'p, 'f, 'q, 'j, 'o, 'e, 'n) pool_env \<Rightarrow> inner_config \<Rightarrow> nat \<Rightarrow> nat
     \<Rightarrow> ('i, 's, 'p, 'f, 'q, 'j, 'o, 'e, 'n) pool_sys" where
  "new_pool P cfg queue_sz n =
     \<lparr>ps_workers = map (\<lambda>i. new_worker_sys (we_requests (pe_worker P i)) (we_jobs (pe_worker P i)) cfg queue_sz 0) [0..<n],
      ps_start = 0, ps_signal = nt_new (pe_signal P), ps_callers = [], ps_phase = PoolStarting\<rparr>"

lemma new_pool_reach: "pool_reach P cfg queue_sz n (new_pool P cfg queue_sz n)"
  by (rule reach_start) (auto simp: pool_start_def new_pool_def worker_start_def)

lemma run_pool_cases:
  assumes "map_option f (run_pool P ms (new_pool P cfg queue_sz n)) = Some x"
  obtains p where "pool_reach P cfg queue_sz n p" "f p = x"
proof -
  obtain p where "run_pool P ms (new_pool P cfg queue_sz n) = Some p" "f p = x"
    using assms by auto
  then show thesis
    using that run_pool_reach [OF _ new_pool_reach] by blast
qed

subsection \<open>A pool to run\<close>

definition fifo_pool ::
  "instant \<Rightarrow> ('p, 'i, 'o, 'e, 'f) inf_args
     \<Rightarrow> ('i, 's, 'p, 'f, ('i \<times> 's) fifo, ('i, 's) worker_buffer fifo, 'o, 'e, fifo_signal) pool_env" where
  "fifo_pool imax args = \<lparr>pe_worker = (\<lambda>i. fifo_env imax \<lparr>iw_obs = None, iw_worker_id = of_nat i\<rparr> args),
     pe_signal = fifo_notify\<rparr>"

lemma fifo_pool_model:
  assumes "ic_batch_size cfg \<noteq> 0" and "0 < queue_sz" and "0 < n" and "clock_in_range imax (AccRecv 0)"
  shows "pool_model (fifo_pool imax args) fs_permit (\<lambda>s. map_of (fs_futures s))
    ff_items ff_cap ff_rx ff_tx ff_items ff_cap ff_rx ff_tx cfg queue_sz n"
proof (intro pool_model.intro pool_model_axioms.intro)
  show "notify_signal (pe_signal (fifo_pool imax args)) fs_permit (\<lambda>s. map_of (fs_futures s))"
    using fifo_sig.notify_signal_axioms by (simp add: fifo_pool_def)
  show "worker_model (pe_worker (fifo_pool imax args) i) ff_items ff_cap ff_rx ff_tx
      ff_items ff_cap ff_rx ff_tx cfg queue_sz" if "i < n" for i
    unfolding fifo_pool_def using fifo_worker_model [OF assms(1,2)] by simp
qed (use assms in \<open>simp_all add: fifo_pool_def fifo_env_def\<close>)

definition demo_pool ::
  "(nat, nat, unit, nat, (nat \<times> nat) fifo, (nat, nat) worker_buffer fifo, nat, nat, fifo_signal) pool_env" where
  "demo_pool = fifo_pool (10 ^ 30) demo_args"

interpretation demo_pool: pool_model demo_pool fs_permit "\<lambda>s. map_of (fs_futures s)"
  ff_items ff_cap ff_rx ff_tx ff_items ff_cap ff_rx ff_tx demo_cfg 1 2
  unfolding demo_pool_def
  by (rule fifo_pool_model)
    (simp_all add: demo_cfg_def instant_checked_add_def ONE_YEAR_def duration_simps)


text \<open>The parts of the environment, so that a run is computed without unfolding it.\<close>

lemma fifo_mpsc_ops:
  "mp_channel fifo_mpsc c = \<lparr>ff_items = [], ff_cap = c, ff_rx = True, ff_tx = True\<rparr>"
  "mp_try_send fifo_mpsc m q = (if \<not> ff_rx q then (SendClosed m, q)
     else if ff_cap q \<le> length (ff_items q) then (SendFull m, q) else (SendOk, q\<lparr>ff_items := ff_items q @ [m]\<rparr>))"
  "mp_reserve fifo_mpsc q = (if \<not> ff_rx q then ReserveClosed
     else if length (ff_items q) < ff_cap q then Permit else NoCapacity)"
  "mp_permit_send fifo_mpsc m q = (if ff_rx q then ([], q\<lparr>ff_items := ff_items q @ [m]\<rparr>) else ([m], q))"
  "mp_poll_recv fifo_mpsc q = (case ff_items q of m # ms \<Rightarrow> (RecvMsg m, q\<lparr>ff_items := ms\<rparr>)
     | [] \<Rightarrow> (if ff_tx q then RecvEmpty else RecvClosed, q))"
  "mp_len fifo_mpsc q = length (ff_items q)"
  "mp_receiver_gone fifo_mpsc q \<longleftrightarrow> \<not> ff_rx q"
  "mp_senders_gone fifo_mpsc q \<longleftrightarrow> \<not> ff_tx q"
  "mp_drop_receiver fifo_mpsc q = (ff_items q, q\<lparr>ff_items := [], ff_rx := False\<rparr>)"
  "mp_drop_senders fifo_mpsc q = q\<lparr>ff_tx := False\<rparr>"
  by (simp_all add: fifo_mpsc_def)

lemma fifo_notify_ops:
  "nt_new fifo_notify = \<lparr>fs_permit = False, fs_futures = []\<rparr>"
  "nt_enable fifo_notify c s = \<lparr>fs_permit = False,
     fs_futures = fs_futures s @ [(c, if fs_permit s then HadPermit else Armed)]\<rparr>"
  "nt_ready fifo_notify c s \<longleftrightarrow> (case map_of (fs_futures s) c of None \<Rightarrow> False | Some f \<Rightarrow> f \<noteq> Armed)"
  "nt_finish fifo_notify c s = fs_forget c s"
  "nt_drop fifo_notify c s = (if map_of (fs_futures s) c = Some WokenOne then fs_wake (fs_forget c s) else fs_forget c s)"
  "nt_notify_one fifo_notify s = fs_wake s"
  "nt_notify_waiters fifo_notify s =
     s\<lparr>fs_futures := map (\<lambda>(c, f). (c, if f = Armed then WokenAll else f)) (fs_futures s)\<rparr>"
  by (simp_all add: fifo_notify_def)

lemma demo_pool_parts:
  "we_requests (pe_worker demo_pool i) = fifo_mpsc" "we_jobs (pe_worker demo_pool i) = fifo_mpsc"
  "we_imax (pe_worker demo_pool i) = 10 ^ 30" "we_args (pe_worker demo_pool i) = demo_args"
  "iw_obs (we_worker (pe_worker demo_pool i)) = None"
  "pe_signal demo_pool = fifo_notify"
  by (simp_all add: demo_pool_def fifo_pool_def fifo_env_def)

lemma demo_args_parts:
  "ia_factory demo_args k j = Returned (Inr ())"
  "ia_predict_batch demo_args q ins = (if 0 \<in> set ins then Panicked else Returned (Inr (map (\<lambda>x. 2 * x) ins), q))"
  "ia_retries demo_args = 0" "ia_obs demo_args = None"
  by (simp_all add: demo_args_def)

lemma list_steps: "[0..<1] = [0]" "[0..<Suc 0] = [0]" "[0..<2] = [0, 1]" "replicate (numeral k) x = x # replicate (pred_numeral k) x"
  by (simp_all add: upt_rec numeral_eq_Suc)

lemmas pool_run_defs = list_steps fifo_mpsc_ops fifo_notify_ops demo_pool_parts demo_args_parts
  new_pool_def call_step_def cancel_call_def route_call_def route_start_def set_call_def drop_future_def
  worker_after_def worker_view_def set_worker_def reply_of_def pool_log_def ca_msg_def sender_gone_def
  drop_handles_def read_snapshot_def accepts_primary_def accepts_secondary_def route_verdict_def
  fs_wake_def fs_forget_def new_worker_sys_def new_acc_task_def new_inf_thread_def JOB_QUEUE_DEPTH_def
  new_worker_state_def inf_start_def spawn_predictor_def backoff_schedule_def u8_saturating_add_def
  try_make_predictor_def recv_first_def recv_more_def take_request_def reset_next_inf_def
  instant_checked_add_def ONE_YEAR_def ws_timeout_def ws_batch_size_def update_len_def log_effects_def
  increment_len_def new_buffer_def buffer_push_def buffer_len_def buffer_is_empty_def split_buffer_def
  swap_replace_def check_predictor_alive_def get_predictor_state_def predictor_status_from_u8_def
  worker_status_from_u8_def
  ALIVE_def REBUILDING_def DEAD_def WAITING_def EXIT_def RUNNING_INFERENCE_def CRASHED_def BATCH_LEN_MASK_def
  start_handoff_def store_worker_def set_worker_state_def pack_status_def emit_defs
  reserve_job_def use_permit_def send_job_def finish_sent_def reset_batch_len_def inf_receive_def
  filter_canceled_def filter_loop.simps inf_predict_def predict_on_batch_def send_output_def send_errors_def
  send_errors_on_crash_def flush_buffer_def flush_batch_def panic_defs

text \<open>Both workers start, a caller's request goes to the first one, which answers it.\<close>

definition pool_up :: "(nat, nat) pool_move list" where
  "pool_up = [PoolInf 0 (InfStart (\<lambda>_. False) True), PoolInf 1 (InfStart (\<lambda>_. False) True), PoolServe]"

definition one_call :: "nat \<Rightarrow> nat \<Rightarrow> (nat, nat) pool_move list" where
  "one_call inp tx = pool_up @ PoolArrive inp tx True # replicate 7 (PoolCall 0)
     @ [PoolAcc 0 (AccRecv 0), PoolAcc 0 (AccTimer 5000000)] @ replicate 5 (PoolAcc 0 AccRun)
     @ [PoolInf 0 (InfReceive (\<lambda>_. False)), PoolInf 0 (InfPredict DURATION_ZERO)]"

lemma one_call_output:
  "map_option (\<lambda>p. (ps_callers p, map wk_accepted (ps_workers p), settled (pool_log (ps_workers p))))
     (run_pool demo_pool (one_call 6 2 @ [PoolCall 0]) (new_pool demo_pool demo_cfg 1 2)) =
   Some ([\<lparr>ca_input = 6, ca_sender = 2, ca_waits = True, ca_pc = CallReturned True (Inr 12)\<rparr>], [[(6, 2)], []], [2])"
  by (simp add: one_call_def pool_up_def demo_cfg_def pool_run_defs Let_def duration_simps)

lemma one_call_idle:
  "map_option (\<lambda>p. (map ca_pc (ps_callers p),
       map (\<lambda>w. (ac_pc (wk_acc w), it_pc (wk_inf w), sh_requests (wk_shared w), sh_jobs (wk_shared w))) (ps_workers p),
       settled (pool_log (ps_workers p))))
     (run_pool demo_pool (one_call 6 2 @ [PoolCall 0]) (new_pool demo_pool demo_cfg 1 2)) =
   Some ([CallReturned True (Inr 12)], replicate 2 (AwaitFirst, InfWaiting (),
       \<lparr>ff_items = [], ff_cap = 1, ff_rx = True, ff_tx = True\<rparr>, \<lparr>ff_items = [], ff_cap = 1, ff_rx = True, ff_tx = True\<rparr>), [2])"
  by (simp add: one_call_def pool_up_def demo_cfg_def pool_run_defs Let_def duration_simps)

lemma one_call_panic:
  "map_option ps_callers
     (run_pool demo_pool (one_call 0 2 @ [PoolInf 0 InfHandlePanic, PoolCall 0]) (new_pool demo_pool demo_cfg 1 2)) =
   Some [\<lparr>ca_input = 0, ca_sender = 2, ca_waits = True, ca_pc = CallReturned True (Inl InternalError)\<rparr>]"
  by (simp add: one_call_def pool_up_def demo_cfg_def pool_run_defs from_recv_error_def Let_def duration_simps)

text \<open>An idle worker of such a pool cannot move.\<close>

lemma idle_worker_stuck:
  assumes "ac_pc (wk_acc s) = AwaitFirst" and "it_pc (wk_inf s) = InfWaiting q"
    and "sh_requests (wk_shared s) = \<lparr>ff_items = [], ff_cap = c, ff_rx = True, ff_tx = True\<rparr>"
    and "sh_jobs (wk_shared s) = \<lparr>ff_items = [], ff_cap = d, ff_rx = True, ff_tx = True\<rparr>"
    and "we_requests W = fifo_mpsc" and "we_jobs W = fifo_mpsc"
  shows "\<not> own_step W s u"
proof -
  have "acc_step (we_worker W) (we_imax W) (we_requests W) (we_jobs W) a (wk_acc s, wk_shared s) = None" for a
    using assms by (cases a) (simp_all add: recv_first_def fifo_mpsc_ops)
  moreover have "inf_step (we_args W) (we_jobs W) a (wk_inf s, wk_shared s) = None" for a
    using assms by (cases a) (simp_all add: inf_receive_def fifo_mpsc_ops)
  ultimately show ?thesis by (simp add: own_step_def)
qed

lemma stuck_poolI:
  assumes "\<And>i t. i < length (ps_workers p) \<Longrightarrow> \<not> own_step (pe_worker P i) (ps_workers p ! i) t"
    and "\<And>k. k < length (ps_callers p) \<Longrightarrow> call_step P k p = None"
  shows "\<not> pool_own_step P p p'"
proof
  assume "pool_own_step P p p'"
  then show False
  proof cases
    case (acc_acts i W s c ac sh)
    with assms(1) [OF acc_acts(2)] own_step_acc show False by blast
  next
    case (inf_acts i W s d th sh)
    with assms(1) [OF inf_acts(2)] own_step_inf show False by blast
  qed (use assms(2) in simp)
qed

end
