(* ===== verification/Pool_Properties.thy ===== *)
theory Pool_Properties
  imports Pool_Runs
begin

text \<open>
  What the users of a pool get, whatever the interleaving of the callers and of the workers' threads
  and whatever the user's code does: a call of \<open>predict\<close> or \<open>try_predict\<close> that returns an output
  returns the one computed for its own input, one that returns an error has a reason for it, a
  request is with one worker at most, and the only wait that can outlast all work is the wait for
  room.
\<close>

text \<open>Only a caller whose request was taken gets a reply.\<close>

lemma explained_accepted:
  assumes "reply_explained pb m A (s, r)"
  obtains inp where "(inp, s) \<in> A"
proof -
  have "s \<in> snd ` A"
    using assms
    by (cases r; cases "projl r") (force simp: batch_ok_def dest: nth_mem)+
  then show thesis using that by auto
qed

lemma mset_concat_cong:
  "(\<And>x. x \<in> set xs \<Longrightarrow> mset (f x) = mset (g x)) \<Longrightarrow> mset (concat (map f xs)) = mset (concat (map g xs))"
  by (induction xs) auto

lemma distinct_count: "distinct xs \<Longrightarrow> count (mset xs) x = (if x \<in> set xs then 1 else 0)"
  by (simp add: distinct_count_atmost_1)

context pool_model
begin

lemma reach_pool_inv: "pool_reach P cfg queue_sz n p \<Longrightarrow> pool_inv p"
  by (rule psys.reach_inv)

lemma accepted_senders:
  assumes "pool_inv p"
  shows "mset (map snd (concat (map wk_accepted (ps_workers p)))) =
    mset (map ca_sender (filter (\<lambda>c. was_queued (ca_pc c)) (ps_callers p)))"
proof -
  have "map snd (concat (map queued_msg cs)) = map ca_sender (filter (\<lambda>c. was_queued (ca_pc c)) cs)"
    for cs :: "('i, 's, 'o, 'e) caller list"
    by (induction cs) (auto simp: queued_msg_def ca_msg_def)
  moreover have "mset (map snd (concat (map wk_accepted (ps_workers p)))) =
      mset (map snd (concat (map queued_msg (ps_callers p))))"
    using assms by (simp add: pool_inv_defs)
  ultimately show ?thesis by simp
qed

lemma queued_senders:
  assumes "pool_inv p"
  shows "distinct (map snd (concat (map wk_accepted (ps_workers p))))"
proof -
  have "distinct (map ca_sender (filter (\<lambda>c. was_queued (ca_pc c)) (ps_callers p)))"
    using assms by (simp add: pool_inv_defs distinct_map_filter)
  with accepted_senders [OF assms] show ?thesis
    by (metis mset_eq_imp_distinct_iff)
qed

lemma accepted_distinct:
  assumes "pool_inv p" and "i < n"
  shows "distinct (map snd (wk_accepted (ps_workers p ! i)))"
proof -
  have "ps_workers p ! i \<in> set (ps_workers p)"
    using assms by (simp add: pool_inv_defs)
  then obtain xs ys where split: "ps_workers p = xs @ ps_workers p ! i # ys"
    by (meson split_list)
  define w where "w = ps_workers p ! i"
  from split have "ps_workers p = xs @ w # ys" by (simp add: w_def)
  from queued_senders [OF assms(1), unfolded this] show ?thesis
    by (simp add: w_def [symmetric])
qed

lemma accepted_caller:
  assumes "pool_inv p" and "i < n" and "(inp, s) \<in> set (wk_accepted (ps_workers p ! i))"
  obtains c where "c \<in> set (ps_callers p)" "ca_msg c = (inp, s)" "was_queued (ca_pc c)"
proof -
  have "(inp, s) \<in> set (concat (map wk_accepted (ps_workers p)))"
    using assms by (auto simp: pool_inv_defs)
  then have "(inp, s) \<in> set (concat (map queued_msg (ps_callers p)))"
    using assms(1) by (metis callers_inv_def pool_inv_def mset_eq_setD)
  then show thesis
    using that by (auto simp: queued_msg_def split: if_splits)
qed

text \<open>A request a worker took from a caller's sender is that caller's request.\<close>

lemma accepted_input:
  assumes "pool_inv p" and "i < n" and "(inp, ca_sender c) \<in> set (wk_accepted (ps_workers p ! i))"
    and "c \<in> set (ps_callers p)"
  shows "inp = ca_input c"
proof -
  obtain c' where c': "c' \<in> set (ps_callers p)" "ca_msg c' = (inp, ca_sender c)"
    using accepted_caller [OF assms(1-3)] by blast
  then have "c' = c"
    using assms(1,4) by (auto simp: pool_inv_defs ca_msg_def distinct_map dest: inj_onD)
  with c' show ?thesis by (simp add: ca_msg_def)
qed

lemma returned_reply:
  assumes "pool_inv p" and "c \<in> set (ps_callers p)" and "ca_pc c = CallReturned b r"
  obtains (Routing) "\<not> b" "r = Inl NoAvailableWorkersError \<or> r = Inl QueueFullError \<and> \<not> ca_waits c"
    | (Dropped) "b" "r = Inl InternalError"
    | (Replied) i where "b" "i < n" "Reply (ca_sender c) r \<in> set (sh_log (wk_shared (ps_workers p ! i)))"
proof -
  have ok: "call_ok (ps_workers p) (ca_msg c) (ca_waits c) (CallReturned b r)"
    and len: "length (ps_workers p) = n"
    using assms by (auto simp: pool_inv_defs caller_ok_def)
  show thesis
  proof (cases "b \<and> r \<noteq> Inl InternalError")
    case True
    with ok have "Reply (ca_sender c) r \<in> set (pool_log (ps_workers p))"
      by (simp add: answered_def ca_msg_def)
    then obtain w where "w \<in> set (ps_workers p)" "Reply (ca_sender c) r \<in> set (sh_log (wk_shared w))"
      by (auto simp: pool_log_def)
    with True len show thesis
      using Replied by (auto simp: in_set_conv_nth)
  qed (use ok Routing Dropped in \<open>auto split: if_splits\<close>)
qed

lemma reached_worker:
  assumes "pool_inv p" and "i < n"
  shows "worker_reach (pe_worker P i) cfg queue_sz (ps_workers p ! i)"
  using assms by (simp add: pool_inv_defs)

abbreviation "bs \<equiv> unat (ic_batch_size cfg)"

lemma returned_output:
  assumes "pool_inv p" and "c \<in> set (ps_callers p)" and "ca_pc c = CallReturned b (Inr out)"
  shows "\<exists>i < n. \<exists>q q' ins outs k. ia_predict_batch (we_args (pe_worker P i)) q ins = Returned (Inr outs, q')
    \<and> 0 < length ins \<and> length ins \<le> bs \<and> length outs = length ins
    \<and> k < length ins \<and> ins ! k = ca_input c \<and> outs ! k = out"
  using assms
proof (cases rule: returned_reply)
  case (Replied i)
  note reach = reached_worker [OF assms(1) Replied(2)]
  note explained = worker_model.reached_replies [OF workers [OF Replied(2)] reach Replied(3)]
  then obtain inp where inp: "(inp, ca_sender c) \<in> set (wk_accepted (ps_workers p ! i))"
    by (rule explained_accepted)
  with accepted_input [OF assms(1) Replied(2) this assms(2)]
  have "(ca_input c, ca_sender c) \<in> set (wk_accepted (ps_workers p ! i))" by simp
  from worker_model.reached_output [OF workers [OF Replied(2)] reach
      accepted_distinct [OF assms(1) Replied(2)] this Replied(3)] Replied(2)
  show ?thesis by blast
qed simp_all

lemma returned_error:
  assumes "pool_inv p" and "c \<in> set (ps_callers p)" and "ca_pc c = CallReturned b (Inl e)"
  shows "case e of
      QueueFullError \<Rightarrow> \<not> b \<and> \<not> ca_waits c
    | NoAvailableWorkersError \<Rightarrow> \<not> b
    | InternalError \<Rightarrow> b
    | TimeoutError \<Rightarrow> False
    | InvalidPredictorOutput \<Rightarrow> b \<and> (\<exists>i < n. \<exists>q q' ps outs.
        ia_predict_batch (we_args (pe_worker P i)) q (map fst ps) = Returned (Inr outs, q')
        \<and> length outs \<noteq> length ps \<and> length ps \<le> bs \<and> ca_msg c \<in> set ps)
    | InferenceError err \<Rightarrow> b \<and> (\<exists>i < n. \<exists>q q' ps.
        ia_predict_batch (we_args (pe_worker P i)) q (map fst ps) = Returned (Inl err, q')
        \<and> length ps \<le> bs \<and> ca_msg c \<in> set ps)"
  using assms
proof (cases rule: returned_reply)
  case (Replied i)
  note reach = reached_worker [OF assms(1) Replied(2)]
  note explained = worker_model.reached_replies [OF workers [OF Replied(2)] reach Replied(3)]
  have own: "ca_msg c \<in> set ps"
    if ok: "batch_ok bs (set (wk_accepted (ps_workers p ! i))) ps" and s: "ca_sender c \<in> snd ` set ps" for ps
  proof -
    obtain inp where "(inp, ca_sender c) \<in> set ps" using s by auto
    with accepted_input [OF assms(1) Replied(2) _ assms(2), of inp] ok show ?thesis
      by (auto simp: batch_ok_def ca_msg_def)
  qed
  show ?thesis
  proof (cases e)
    case InvalidPredictorOutput
    with explained obtain q q' ps outs where call:
        "ia_predict_batch (we_args (pe_worker P i)) q (map fst ps) = Returned (Inr outs, q')"
        "length outs \<noteq> length ps" and ps: "batch_ok bs (set (wk_accepted (ps_workers p ! i))) ps"
        "ca_sender c \<in> snd ` set ps"
      unfolding InvalidPredictorOutput reply_explained.simps by blast
    then have "length ps \<le> bs" by (simp add: batch_ok_def)
    with InvalidPredictorOutput call own [OF ps] Replied(1,2) show ?thesis by simp blast
  next
    case (InferenceError err)
    with explained obtain q q' ps where call:
        "ia_predict_batch (we_args (pe_worker P i)) q (map fst ps) = Returned (Inl err, q')"
      and ps: "batch_ok bs (set (wk_accepted (ps_workers p ! i))) ps" "ca_sender c \<in> snd ` set ps"
      unfolding InferenceError reply_explained.simps by blast
    then have "length ps \<le> bs" by (simp add: batch_ok_def)
    with InferenceError call own [OF ps] Replied(1,2) show ?thesis by simp blast
  qed (use explained Replied(1) in simp_all)
qed auto

subsection \<open>When nothing can move\<close>

lemma outcome_of_settled: "s \<in> set (settled es) \<Longrightarrow> outcome_of s es \<noteq> None"
  by (induction es rule: outcome_of.induct) auto

lemma settled_pool_log: "settled (pool_log ws) = concat (map (\<lambda>w. settled (sh_log (wk_shared w))) ws)"
  by (induction ws) (simp_all add: pool_log_def)

lemma acc_step_any_clock:
  "acc_step w imax Q J (AccRecv now) x = Some y \<Longrightarrow> \<exists>z. acc_step w imax Q J (AccRecv 0) x = Some z"
  by (cases x; cases "ac_pc (fst x)")
    (auto simp: recv_first_def recv_more_def case_prod_unfold split: recv_outcome.splits)

lemma inf_step_any_answer:
  "inf_step args J d x = Some y \<Longrightarrow> \<exists>z. inf_step args J (inf_answer ph gone d) x = Some z"
  by (cases x; cases d; cases "it_pc (fst x)")
    (auto simp: inf_receive_def Let_def split: prod.splits recv_outcome.splits option.splits)

lemma stuck_worker:
  assumes "pool_inv p" and "\<And>p'. \<not> pool_own_step P p p'" and "i < n"
  shows "\<not> own_step (pe_worker P i) (ps_workers p ! i) t"
proof
  let ?W = "pe_worker P i" and ?s = "ps_workers p ! i"
  have i: "i < length (ps_workers p)" using assms(1,3) by (simp add: pool_inv_defs)
  assume "own_step ?W ?s t"
  then consider (acc) c y where "acc_step (we_worker ?W) (we_imax ?W) (we_requests ?W) (we_jobs ?W) c
        (wk_acc ?s, wk_shared ?s) = Some y"
    | (inf) d y where "inf_step (we_args ?W) (we_jobs ?W) d (wk_inf ?s, wk_shared ?s) = Some y"
    unfolding own_step_def by blast
  then show False
  proof cases
    case acc
    obtain c' z where "clock_in_range (we_imax ?W) c'"
        "acc_step (we_worker ?W) (we_imax ?W) (we_requests ?W) (we_jobs ?W) c' (wk_acc ?s, wk_shared ?s) = Some z"
    proof (cases "\<exists>now. c = AccRecv now")
      case True
      with acc acc_step_any_clock clock_room [OF assms(3)] that show thesis by blast
    next
      case False
      then have "clock_in_range (we_imax ?W) c" by (cases c) auto
      with acc that show thesis by blast
    qed
    with acc_acts [OF i refl refl] assms(2) show False by (cases z) blast
  next
    case inf
    then obtain z where "inf_step (we_args ?W) (we_jobs ?W) (inf_answer (ps_phase p) (sender_gone (ps_callers p)) d)
        (wk_inf ?s, wk_shared ?s) = Some z"
      using inf_step_any_answer by blast
    with inf_acts [OF i refl refl] assms(2) show False by (cases z) blast
  qed
qed

lemma stuck_pool_settled:
  assumes "pool_inv p" and "\<And>p'. \<not> pool_own_step P p p'"
  shows "mset (settled (pool_log (ps_workers p))) =
    mset (map ca_sender (filter (\<lambda>c. was_queued (ca_pc c)) (ps_callers p)))"
proof -
  have "mset (settled (sh_log (wk_shared w))) = mset (map snd (wk_accepted w))" if w: "w \<in> set (ps_workers p)" for w
  proof -
    obtain i where i: "i < n" "w = ps_workers p ! i"
      using w assms(1) by (auto simp: pool_inv_defs in_set_conv_nth)
    have "(own_step (pe_worker P i) ^^ 0) w w" by simp
    then show ?thesis
      unfolding i(2)
      by (rule worker_model.reached_own_steps(2) [OF workers [OF i(1)] reached_worker [OF assms(1) i(1)]])
        (rule stuck_worker [OF assms i(1)])
  qed
  then have "mset (settled (pool_log (ps_workers p))) = mset (map snd (concat (map wk_accepted (ps_workers p))))"
    unfolding settled_pool_log map_concat map_map comp_def by (intro mset_concat_cong) simp
  then show ?thesis
    using accepted_senders [OF assms(1)] by simp
qed

lemma stuck_calls:
  assumes "pool_inv p" and "\<And>p'. \<not> pool_own_step P p p'" and "c \<in> set (ps_callers p)"
  shows "call_over (ca_pc c) \<or> ca_pc c = CallAsleep"
proof -
  obtain k where k: "k < length (ps_callers p)" "c = ps_callers p ! k"
    using assms(3) by (auto simp: in_set_conv_nth)
  then have blocked: "call_step P k p = None"
    using assms(2) caller_acts [OF k(1)] by (cases "call_step P k p") auto
  show ?thesis
  proof (cases "ca_pc c")
    case CallPanicked
    with assms(1,3) show ?thesis by (auto simp: pool_inv_defs caller_ok_def)
  next
    case (CallQueued reg)
    then have "ca_sender c \<in># mset (settled (pool_log (ps_workers p)))"
      using assms(3) unfolding stuck_pool_settled [OF assms(1,2)] by force
    then have "reply_of (ca_sender c) (ps_workers p) \<noteq> None"
      using outcome_of_settled by (simp add: reply_of_def)
    with CallQueued blocked k(2) show ?thesis by (auto simp: call_step_def)
  qed (use blocked k(2) in \<open>auto simp: call_step_def split: prod.splits\<close>)
qed

text \<open>When the handles are gone, so are the threads.\<close>

lemma stuck_closed:
  assumes "pool_inv p" and "\<And>p'. \<not> pool_own_step P p p'" and "ps_phase p = PoolClosed" and "i < n"
  shows "ac_pc (wk_acc (ps_workers p ! i)) = AccExited \<and> it_pc (wk_inf (ps_workers p ! i)) = InfReleased
    \<and> built_count (sh_log (wk_shared (ps_workers p ! i))) = drop_count (sh_log (wk_shared (ps_workers p ! i)))"
proof -
  let ?w = "ps_workers p ! i"
  have "(own_step (pe_worker P i) ^^ 0) ?w ?w" by simp
  moreover have "mp_senders_gone (we_requests (pe_worker P i)) (sh_requests (wk_shared ?w))"
    using assms(1,3,4) mpsc_channel.senders_gone [OF worker_model.axioms(1) [OF workers [OF assms(4)]]]
    by (simp add: pool_inv_defs)
  ultimately show ?thesis
    using worker_model.reached_own_steps(3) [OF workers [OF assms(4)] reached_worker [OF assms(1,4)]]
      stuck_worker [OF assms(1,2,4)] by blast
qed

text \<open>A request is with one worker exactly if its call was told so.\<close>

lemma accepted_count:
  assumes "pool_inv p" and "c \<in> set (ps_callers p)"
  shows "count (mset (concat (map wk_accepted (ps_workers p)))) (ca_msg c) = of_bool (was_queued (ca_pc c))"
proof -
  have "concat (map queued_msg cs) = map ca_msg (filter (\<lambda>c. was_queued (ca_pc c)) cs)"
    for cs :: "('i, 's, 'o, 'e) caller list"
    by (induction cs) (auto simp: queued_msg_def)
  then have accepted: "mset (concat (map wk_accepted (ps_workers p))) =
      mset (map ca_msg (filter (\<lambda>c. was_queued (ca_pc c)) (ps_callers p)))"
    using assms(1) by (simp add: pool_inv_defs)
  have senders: "inj_on ca_sender (set (ps_callers p))" "distinct (ps_callers p)"
    using assms(1) by (simp_all add: pool_inv_defs distinct_map)
  then have inj: "inj_on ca_msg (set (ps_callers p))"
    by (auto simp: inj_on_def ca_msg_def)
  then have "distinct (map ca_msg (filter (\<lambda>c. was_queued (ca_pc c)) (ps_callers p)))"
    using senders by (auto simp: distinct_map intro: inj_on_subset)
  moreover have "ca_msg c \<in> ca_msg ` {c \<in> set (ps_callers p). was_queued (ca_pc c)} \<longleftrightarrow> was_queued (ca_pc c)"
    using inj assms(2) by (auto dest: inj_onD)
  ultimately show ?thesis
    unfolding accepted by (simp add: distinct_count del: mset_map mset_filter)
qed

lemma returned_queued:
  assumes "pool_inv p" and "c \<in> set (ps_callers p)" and "ca_pc c = CallReturned b r"
  shows "b \<longleftrightarrow> r \<noteq> Inl NoAvailableWorkersError \<and> r \<noteq> Inl QueueFullError"
  using assms
proof (cases rule: returned_reply)
  case (Replied i)
  then show ?thesis
    using worker_model.reached_replies [OF workers [OF Replied(2)] reached_worker [OF assms(1) Replied(2)] Replied(3)]
    by auto
qed auto

lemma settled_accepted:
  assumes "pool_inv p"
  shows "mset (settled (pool_log (ps_workers p))) \<subseteq># mset (map snd (concat (map wk_accepted (ps_workers p))))"
proof -
  have "mset (concat (map f ws)) \<subseteq># mset (concat (map g ws))"
    if "\<And>w. w \<in> set ws \<Longrightarrow> mset (f w) \<subseteq># mset (g w)"
    for f g :: "('i, 's, 'p, 'f, 'q, 'j, 'o, 'e) worker_sys \<Rightarrow> 's list" and ws
    using that by (induction ws) (auto intro: subset_mset.add_mono)
  moreover have "mset (settled (sh_log (wk_shared w))) \<subseteq># mset (map snd (wk_accepted w))"
    if w: "w \<in> set (ps_workers p)" for w
  proof -
    obtain i where i: "i < n" "w = ps_workers p ! i"
      using w assms by (auto simp: pool_inv_defs in_set_conv_nth)
    show ?thesis
      unfolding i(2) by (rule worker_model.reached_settled [OF workers [OF i(1)] reached_worker [OF assms i(1)]])
  qed
  ultimately show ?thesis
    unfolding settled_pool_log map_concat map_map comp_def by simp
qed

end

lemma demo_pool_model:
  "pool_model demo_pool fs_permit (\<lambda>s. map_of (fs_futures s)) ff_items ff_cap ff_rx ff_tx ff_items ff_cap ff_rx ff_tx
     demo_cfg 1 2"
  by (rule demo_pool.pool_model_axioms)

subsection \<open>Properties\<close>

text \<open>C1: In a pool, a call that returns an output returns its own. In every reachable state of a pool
  of any size, under every interleaving of callers, router and workers, every cancellation and every
  behaviour of the user's code: if a call of \<open>predict\<close> or \<open>try_predict\<close> has returned \<open>Ok(out)\<close>, then on
  some worker a call of \<open>predict_batch\<close> got between one and \<open>batch_size\<close> inputs, had this call's input at
  some position, returned as many outputs, and had \<open>out\<close> at the same position.\<close>

theorem pool_predict_returns_own_output:
  assumes "pool_model P permit fut qi qc qr qt ji jc jr jt cfg queue_sz n" and "pool_reach P cfg queue_sz n p"
    and "c \<in> set (ps_callers p)" and "ca_pc c = CallReturned b (Inr out)"
  shows "\<exists>i < n. \<exists>q q' ins outs k. ia_predict_batch (we_args (pe_worker P i)) q ins = Returned (Inr outs, q')
    \<and> 0 < length ins \<and> length ins \<le> unat (ic_batch_size cfg) \<and> length outs = length ins
    \<and> k < length ins \<and> ins ! k = ca_input c \<and> outs ! k = out"
  by (rule pool_model.returned_output [OF assms(1) pool_model.reach_pool_inv [OF assms(1,2)] assms(3,4)])

theorem pool_predict_returns_own_output_witness:
  "\<exists>i < 2. \<exists>q q' ins outs k. ia_predict_batch (we_args (pe_worker demo_pool i)) q ins = Returned (Inr outs, q')
    \<and> k < length ins \<and> ins ! k = 6 \<and> outs ! k = 12"
proof (rule run_pool_cases [OF one_call_output])
  fix p assume p: "pool_reach demo_pool demo_cfg 1 2 p"
    "(ps_callers p, map wk_accepted (ps_workers p), settled (pool_log (ps_workers p))) =
      ([\<lparr>ca_input = 6, ca_sender = 2, ca_waits = True, ca_pc = CallReturned True (Inr 12)\<rparr>], [[(6, 2)], []], [2])"
  let ?c = "\<lparr>ca_input = 6, ca_sender = 2, ca_waits = True, ca_pc = CallReturned True (Inr 12)\<rparr> :: (nat, nat, nat, nat) caller"
  have c: "?c \<in> set (ps_callers p)" "ca_pc ?c = CallReturned True (Inr 12)"
    using p(2) by simp_all
  from pool_predict_returns_own_output [OF demo_pool_model p(1) c] show ?thesis by fastforce
qed

text \<open>C13: In a pool, every error a call returns has its reason. \<open>TimeoutError\<close> is never returned by
  \<open>predict\<close> itself; \<open>QueueFullError\<close> only by \<open>try_predict\<close>, and like \<open>NoAvailableWorkersError\<close> only for a
  request that was not queued; \<open>InternalError\<close> only for one that was; \<open>InvalidPredictorOutput\<close> and
  \<open>InferenceError\<close> only after a call of \<open>predict_batch\<close>, on a batch that held this request, that returned the
  wrong number of outputs or that error.\<close>

theorem pool_predict_errors_explained:
  assumes "pool_model P permit fut qi qc qr qt ji jc jr jt cfg queue_sz n" and "pool_reach P cfg queue_sz n p"
    and "c \<in> set (ps_callers p)" and "ca_pc c = CallReturned b (Inl e)"
  shows "case e of
      QueueFullError \<Rightarrow> \<not> b \<and> \<not> ca_waits c
    | NoAvailableWorkersError \<Rightarrow> \<not> b
    | InternalError \<Rightarrow> b
    | TimeoutError \<Rightarrow> False
    | InvalidPredictorOutput \<Rightarrow> b \<and> (\<exists>i < n. \<exists>q q' ps outs.
        ia_predict_batch (we_args (pe_worker P i)) q (map fst ps) = Returned (Inr outs, q')
        \<and> length outs \<noteq> length ps \<and> length ps \<le> unat (ic_batch_size cfg) \<and> ca_msg c \<in> set ps)
    | InferenceError err \<Rightarrow> b \<and> (\<exists>i < n. \<exists>q q' ps.
        ia_predict_batch (we_args (pe_worker P i)) q (map fst ps) = Returned (Inl err, q')
        \<and> length ps \<le> unat (ic_batch_size cfg) \<and> ca_msg c \<in> set ps)"
  by (rule pool_model.returned_error [OF assms(1) pool_model.reach_pool_inv [OF assms(1,2)] assms(3,4)])

theorem pool_predict_errors_explained_witness:
  "\<exists>p b. pool_reach demo_pool demo_cfg 1 2 p \<and> map ca_pc (ps_callers p) = [CallReturned b (Inl InternalError)] \<and> b"
proof (rule run_pool_cases [OF one_call_panic])
  let ?c = "\<lparr>ca_input = 0, ca_sender = 2, ca_waits = True, ca_pc = CallReturned True (Inl InternalError)\<rparr> :: (nat, nat, nat, nat) caller"
  fix p assume p: "pool_reach demo_pool demo_cfg 1 2 p" "ps_callers p = [?c]"
  then have c: "?c \<in> set (ps_callers p)" "ca_pc ?c = CallReturned True (Inl InternalError)"
    by simp_all
  from pool_predict_errors_explained [OF demo_pool_model p(1) c] p show ?thesis
    by (intro exI [of _ p] exI [of _ True]) simp
qed

text \<open>C12: In a pool, no request is duplicated and none is taken behind its caller's back. In every
  reachable state the request of a call is in the workers' channels, batches and logs together exactly
  once if the call awaits its reply or has returned anything but a routing error, and not at all if it
  is still on its way, asleep, or returned \<open>NoAvailableWorkersError\<close> or \<open>QueueFullError\<close>. The replies sent
  and senders dropped on all workers together are a sub-multiset of the requests taken.\<close>

theorem pool_request_taken_once:
  assumes "pool_model P permit fut qi qc qr qt ji jc jr jt cfg queue_sz n" and "pool_reach P cfg queue_sz n p"
    and "c \<in> set (ps_callers p)"
  shows "count (mset (concat (map wk_accepted (ps_workers p)))) (ca_msg c) =
      (case ca_pc c of
         CallReturned b r \<Rightarrow> if r = Inl NoAvailableWorkersError \<or> r = Inl QueueFullError then 0 else 1
       | CallQueued reg \<Rightarrow> 1
       | CallCancelled b \<Rightarrow> if b then 1 else 0
       | CallRouting reg pc \<Rightarrow> if pc = Routed (Inr ()) then 1 else 0
       | _ \<Rightarrow> 0)
    \<and> mset (settled (pool_log (ps_workers p))) \<subseteq># mset (map snd (concat (map wk_accepted (ps_workers p))))"
proof -
  have inv: "pool_model.pool_inv P qt cfg queue_sz n p"
    by (rule pool_model.reach_pool_inv [OF assms(1,2)])
  from pool_model.accepted_count [OF assms(1) inv assms(3)] pool_model.returned_queued [OF assms(1) inv assms(3)]
    pool_model.settled_accepted [OF assms(1) inv]
  show ?thesis by (cases "ca_pc c") (auto simp: route_done_iff)
qed

theorem pool_request_taken_once_witness:
  "\<exists>p. pool_reach demo_pool demo_cfg 1 2 p \<and> count (mset (concat (map wk_accepted (ps_workers p)))) (6, 2) = 1
    \<and> settled (pool_log (ps_workers p)) = [2]"
proof (rule run_pool_cases [OF one_call_output])
  let ?c = "\<lparr>ca_input = 6, ca_sender = 2, ca_waits = True, ca_pc = CallReturned True (Inr 12)\<rparr> :: (nat, nat, nat, nat) caller"
  fix p assume p: "pool_reach demo_pool demo_cfg 1 2 p"
    "(ps_callers p, map wk_accepted (ps_workers p), settled (pool_log (ps_workers p))) = ([?c], [[(6, 2)], []], [2])"
  then have c: "?c \<in> set (ps_callers p)" by simp
  from pool_request_taken_once [OF demo_pool_model p(1) c] p show ?thesis by (auto simp: ca_msg_def)
qed

text \<open>C11: Nothing in a pool gets stuck but the wait for room. In a reachable state from which neither a
  worker nor a call can take a step, every call has ended or is asleep in \<open>predict\<close> waiting to be
  notified, every request that was queued has been answered or its sender dropped, and no other; and if
  the handles have been dropped, every worker's threads have ended and have dropped every predictor
  ever built. This covers pools whose start failed.\<close>

theorem stuck_pool_waits_for_room:
  assumes "pool_model P permit fut qi qc qr qt ji jc jr jt cfg queue_sz n" and "pool_reach P cfg queue_sz n p"
    and "\<And>p'. \<not> pool_own_step P p p'"
  shows "(\<forall>c \<in> set (ps_callers p). call_over (ca_pc c) \<or> ca_pc c = CallAsleep)
    \<and> mset (settled (pool_log (ps_workers p))) =
        mset (map ca_sender (filter (\<lambda>c. was_queued (ca_pc c)) (ps_callers p)))
    \<and> (ps_phase p = PoolClosed \<longrightarrow> (\<forall>i < n. ac_pc (wk_acc (ps_workers p ! i)) = AccExited
        \<and> it_pc (wk_inf (ps_workers p ! i)) = InfReleased
        \<and> built_count (sh_log (wk_shared (ps_workers p ! i))) = drop_count (sh_log (wk_shared (ps_workers p ! i)))))"
proof -
  have inv: "pool_model.pool_inv P qt cfg queue_sz n p"
    by (rule pool_model.reach_pool_inv [OF assms(1,2)])
  show ?thesis
    using pool_model.stuck_calls [OF assms(1) inv assms(3)] pool_model.stuck_pool_settled [OF assms(1) inv assms(3)]
      pool_model.stuck_closed [OF assms(1) inv assms(3)] by blast
qed

theorem stuck_pool_waits_for_room_witness:
  "\<exists>p. pool_reach demo_pool demo_cfg 1 2 p \<and> map ca_pc (ps_callers p) = [CallReturned True (Inr 12)]
    \<and> mset (map ca_sender (filter (\<lambda>c. was_queued (ca_pc c)) (ps_callers p))) = {#2#}"
proof (rule run_pool_cases [OF one_call_idle])
  fix p assume p: "pool_reach demo_pool demo_cfg 1 2 p"
    "(map ca_pc (ps_callers p),
       map (\<lambda>w. (ac_pc (wk_acc w), it_pc (wk_inf w), sh_requests (wk_shared w), sh_jobs (wk_shared w))) (ps_workers p),
       settled (pool_log (ps_workers p))) =
     ([CallReturned True (Inr 12)], replicate 2 (AwaitFirst, InfWaiting (),
       \<lparr>ff_items = [], ff_cap = 1, ff_rx = True, ff_tx = True\<rparr>, \<lparr>ff_items = [], ff_cap = 1, ff_rx = True, ff_tx = True\<rparr>), [2])"
  then have "\<not> pool_own_step demo_pool p p'" for p'
  proof (intro stuck_poolI)
    fix i t assume "i < length (ps_workers p)"
    then show "\<not> own_step (pe_worker demo_pool i) (ps_workers p ! i) t"
      using p(2) idle_worker_stuck [of "ps_workers p ! i" "()" 1 1]
      by (auto simp: demo_pool_parts numeral_eq_Suc map_eq_Cons_conv less_Suc_eq)
  next
    fix k assume "k < length (ps_callers p)"
    with p(2) show "call_step demo_pool k p = None"
      by (auto simp: call_step_def map_eq_Cons_conv)
  qed
  from stuck_pool_waits_for_room [OF demo_pool_model p(1) this] p show ?thesis by auto
qed

end
