(* ===== verification/Worker_Health.thy ===== *)
theory Worker_Health
  imports Pool_Invariant
begin

text \<open>
  A worker that serves undisturbed. As long as no predictor status has been stored, which only a
  panic of the user's code, the end of a rebuild or a failed start does, and handles exist, both
  halves of a started worker keep running, and every request that leaves the channel leaves it with
  exactly one \<open>notify_one\<close>.
\<close>

definition no_store :: "('s, 'o, 'e) effect list \<Rightarrow> bool" where
  "no_store es \<longleftrightarrow> (\<forall>st. StorePredictor st \<notin> set es)"

definition notifies :: "('s, 'o, 'e) effect list \<Rightarrow> ('s, 'o, 'e) effect list" where
  "notifies es = filter (\<lambda>e. e = NotifyOne \<or> e = NotifyWaiters) es"

fun draining :: "('i, 's) acc_pc \<Rightarrow> bool" where
  "draining DrainFlush \<longleftrightarrow> True" | "draining (DrainHandoff b) \<longleftrightarrow> True" | "draining _ \<longleftrightarrow> False"

fun serving :: "('p, 'i, 's) inf_pc \<Rightarrow> bool" where
  "serving (InfWaiting p) \<longleftrightarrow> True" | "serving (InfPredicting p ins ss) \<longleftrightarrow> True" | "serving _ \<longleftrightarrow> False"

lemma no_store_append [simp]: "no_store (xs @ ys) \<longleftrightarrow> no_store xs \<and> no_store ys"
  by (auto simp: no_store_def)

lemma notifies_append [simp]: "notifies (xs @ ys) = notifies xs @ notifies ys"
  by (simp add: notifies_def)

lemma no_store_Cons [simp]:
  "no_store (StorePredictor st # es) \<longleftrightarrow> False" "no_store []" "no_store (NotifyOne # es) = no_store es"
  "no_store (StoreWorker ws # es) = no_store es" "no_store (NotifyWaiters # es) = no_store es"
  "no_store (DropPredictor # es) = no_store es" "no_store (BuiltPredictor # es) = no_store es"
  by (auto simp: no_store_def)

lemma notifies_Cons [simp]:
  "notifies [] = []" "notifies (NotifyOne # es) = NotifyOne # notifies es"
  "notifies (NotifyWaiters # es) = NotifyWaiters # notifies es"
  "notifies (StoreWorker ws # es) = notifies es" "notifies (StorePredictor st # es) = notifies es"
  "notifies (BuiltPredictor # es) = notifies es" "notifies (DropPredictor # es) = notifies es"
  by (simp_all add: notifies_def)

lemma notifies_maps [simp]:
  "notifies (map Dropped ss) = []" "notifies (map (\<lambda>s. Reply s r) ss) = []" "notifies (map (Dropped \<circ> f) xs) = []"
  "notifies (map (\<lambda>(res, s). Reply s (Inr res)) ps) = []"
  by (auto simp: notifies_def filter_empty_conv)

lemma notifies_emit [simp]:
  "notifies (fst (emit_queue_depth obs i n)) = []" "notifies (fst (emit_batch_start obs t n)) = []"
  "notifies (fst (send_output out ss m obs)) = []"
  by (auto simp: notifies_def emit_defs send_output_def send_errors_def filter_empty_conv split: option.splits sum.splits)

lemma predictor_kept [simp]:
  "ws_predictor (set_worker_state st w) = ws_predictor w" "ws_predictor (increment_len w) = ws_predictor w"
  "ws_predictor (reset_batch_len w) = ws_predictor w"
  by (simp_all add: set_worker_state_def increment_len_def reset_batch_len_def)

lemma alive_byte: "ws_predictor w = 0 \<Longrightarrow> get_predictor_state w = Some Alive"
  by (simp add: get_predictor_state_def predictor_status_from_u8_def ALIVE_def)

definition started :: "('i, 's, 'p, 'f, 'q, 'j, 'o, 'e) worker_sys \<Rightarrow> bool" where
  "started s \<longleftrightarrow> it_ack (wk_inf s) = Some (Inr ())"

text \<open>An undisturbed worker of a pool that serves; \<open>qt\<close> tells whether its request channel has senders.\<close>

definition undisturbed ::
  "('i, 's, 'p, 'f, 'q, 'j, 'o, 'e) worker_env \<Rightarrow> inner_config \<Rightarrow> nat \<Rightarrow> ('q \<Rightarrow> bool)
     \<Rightarrow> ('i, 's, 'p, 'f, 'q, 'j, 'o, 'e) worker_sys \<Rightarrow> bool" where
  "undisturbed W cfg queue_sz qt s \<longleftrightarrow> worker_reach W cfg queue_sz s \<and> started s
     \<and> no_store (sh_log (wk_shared s)) \<and> qt (sh_requests (wk_shared s))"

context worker_model
begin

definition acc_fine :: "('i, 's) acc_task \<times> ('q, 'j, 's, 'o, 'e) worker_shared \<Rightarrow> bool" where
  "acc_fine c \<longleftrightarrow> \<not> acc_left (ac_pc (fst c)) \<and> \<not> draining (ac_pc (fst c)) \<and> ws_predictor (sh_state (snd c)) = 0"

text \<open>What a step does for waiting callers: nothing, or it takes one request and notifies one.\<close>

definition one_each ::
  "('q, 'j, 's, 'o, 'e) worker_shared \<Rightarrow> ('q, 'j, 's, 'o, 'e) worker_shared \<Rightarrow> bool" where
  "one_each sh sh' \<longleftrightarrow> (\<exists>es. sh_log sh' = sh_log sh @ es \<and>
     (notifies es = [] \<and> sh_requests sh' = sh_requests sh
      \<or> notifies es = [NotifyOne] \<and> (\<exists>m. qi (sh_requests sh) = m # qi (sh_requests sh'))))"

lemma one_each_none: "sh_log sh' = sh_log sh @ es \<Longrightarrow> notifies es = [] \<Longrightarrow> sh_requests sh' = sh_requests sh \<Longrightarrow> one_each sh sh'"
  by (auto simp: one_each_def)

lemma leave_stores: "\<not> no_store (sh_log (snd (acc_leave J True batch c)))"
  by simp

lemma recv_first_fine:
  assumes "recv_first (we_requests W) (we_jobs W) imax now (ac, sh) = Some c'" and "acc_fine (ac, sh)"
    and "qt (sh_requests sh)" and "no_store (sh_log (snd c'))"
  shows "acc_fine c' \<and> one_each sh (snd c')"
proof (cases rule: req.poll_recv_cases [of "sh_requests sh"])
  case (Msg m ms q)
  then show ?thesis
    using assms
    by (auto simp: recv_first_def acc_fine_def one_each_def case_prod_unfold split: option.splits if_splits)
qed (use assms in \<open>auto simp: recv_first_def\<close>)

lemma recv_more_fine:
  assumes "recv_more (we_requests W) (we_jobs W) (ac, sh) = Some c'" and "acc_fine (ac, sh)"
    and "qt (sh_requests sh)" and "no_store (sh_log (snd c'))"
  shows "acc_fine c' \<and> one_each sh (snd c')"
proof (cases rule: req.poll_recv_cases [of "sh_requests sh"])
  case (Msg m ms q)
  then show ?thesis
    using assms by (auto simp: recv_more_def acc_fine_def one_each_def case_prod_unfold split: if_splits)
qed (use assms in \<open>auto simp: recv_more_def\<close>)

lemma finish_sent_fine:
  assumes "finish_sent worker (we_jobs W) t k (ac, sh) = c'" and "ws_predictor (sh_state sh) = 0"
    and "no_store (sh_log (snd c'))"
  shows "acc_fine c' \<and> (\<exists>es. sh_log (snd c') = sh_log sh @ es \<and> notifies es = [])
    \<and> sh_requests (snd c') = sh_requests sh"
proof (cases "emit_batch_start (iw_obs worker) t k :: ('s, 'o, 'e, unit) run")
  case (Pair es r)
  then have "notifies es = []" by (metis fst_conv notifies_emit(2))
  then show ?thesis
    using assms Pair by (cases r) (auto simp: finish_sent_def acc_fine_def Let_def)
qed

lemma start_handoff_fine:
  assumes "start_handoff worker (we_requests W) (we_jobs W) b t (ac, sh) = c'" and "ws_predictor (sh_state sh) = 0"
    and "no_store (sh_log (snd c'))"
  shows "acc_fine c' \<and> one_each sh (snd c')"
proof (cases "emit_queue_depth (iw_obs worker) (iw_worker_id worker)
    (mp_len (we_requests W) (sh_requests sh)) :: ('s, 'o, 'e, unit) run")
  case (Pair es r)
  then have es: "notifies es = []" by (metis fst_conv notifies_emit(1))
  show ?thesis
  proof (cases "r \<noteq> Panicked \<and> buffer_is_empty b")
    case True
    with assms Pair es finish_sent_fine [of worker t "buffer_len b" ac "log_effects es (store_worker Running sh)"]
    show ?thesis
      by (cases r) (auto simp: start_handoff_def Let_def intro!: one_each_none)
  next
    case False
    with assms Pair es show ?thesis
      by (cases r) (auto simp: start_handoff_def acc_fine_def Let_def intro!: one_each_none)
  qed
qed

lemma send_job_fine:
  assumes "send_job worker (we_jobs W) b t (ac, sh) = c'" and "ws_predictor (sh_state sh) = 0"
    and "no_store (sh_log (snd c'))"
  shows "acc_fine c' \<and> one_each sh (snd c')"
proof (cases "mp_permit_send (we_jobs W) b (sh_jobs sh)")
  case (Pair lost j)
  with assms finish_sent_fine [of worker t "buffer_len b" ac
      "log_effects (map Dropped (concat (map sender_buffer lost))) (sh\<lparr>sh_jobs := j\<rparr>)"]
  show ?thesis
    by (auto simp: send_job_def intro!: one_each_none)
qed

lemma acc_step_fine:
  assumes "acc_step worker imax (we_requests W) (we_jobs W) c (ac, sh) = Some c'" and "acc_fine (ac, sh)"
    and "qt (sh_requests sh)" and "jr (sh_jobs sh)" and "no_store (sh_log (snd c'))"
  shows "acc_fine c' \<and> one_each sh (snd c')"
proof (cases c)
  case (AccRecv now)
  then show ?thesis
    using assms recv_first_fine recv_more_fine by (cases "ac_pc ac") auto
next
  case AccRun
  have pred: "ws_predictor (sh_state sh) = 0" using assms(2) by (simp add: acc_fine_def)
  show ?thesis
  proof (cases "ac_pc ac")
    case (AwaitPermit b t)
    then show ?thesis
      using assms AccRun
      by (auto simp: reserve_job_def job.reserve acc_fine_def split: if_splits intro!: one_each_none)
  next
    case (Handoff b t)
    with assms AccRun start_handoff_fine [OF _ pred] show ?thesis by auto
  next
    case (SendJob b t)
    with assms AccRun send_job_fine [OF _ pred] show ?thesis by auto
  qed (use assms AccRun pred in
      \<open>auto simp: check_predictor_alive_def use_permit_def alive_byte acc_fine_def swap_replace_def intro!: one_each_none\<close>)
qed (use assms in \<open>cases "ac_pc ac"; auto simp: acc_fine_def job.receiver_gone split: if_splits intro!: one_each_none\<close>)+

text \<open>The inference thread wakes nobody while it serves, and its first step starts it.\<close>

lemma inf_receive_fine:
  assumes "inf_receive (we_jobs W) gone q (th, sh) = Some c'" and "jt (sh_jobs sh)"
    and "it_pc th = InfWaiting q" and "no_store (sh_log (snd c'))"
  shows "serving (it_pc (fst c')) \<and> it_ack (fst c') = it_ack th \<and> ws_predictor (sh_state (snd c')) = ws_predictor (sh_state sh)
    \<and> one_each sh (snd c')"
proof (cases rule: job.poll_recv_cases [of "sh_jobs sh"])
  case (Msg b bs' j)
  with assms show ?thesis
    by (cases "filter_canceled gone b")
      (auto simp: inf_receive_def Let_def split_buffer_def intro!: one_each_none)
qed (use assms in \<open>auto simp: inf_receive_def\<close>)

lemma inf_predict_fine:
  assumes "inf_predict args latency q ins ss (th, sh) = c'" and "no_store (sh_log (snd c'))"
  shows "serving (it_pc (fst c')) \<and> it_ack (fst c') = it_ack th \<and> ws_predictor (sh_state (snd c')) = ws_predictor (sh_state sh)
    \<and> one_each sh (snd c')"
proof (cases "predict_on_batch (ia_predict_batch args) latency q ins")
  case (Returned out)
  obtain m res q' where out: "out = ((m, res), q')"
    by (metis surj_pair)
  obtain es r where es: "send_output res ss m (ia_obs args) = (es, r :: unit unwind)"
    by fastforce
  then have "notifies es = []" by (metis fst_conv notifies_emit(3))
  with assms Returned out es show ?thesis
    by (cases r) (auto simp: inf_predict_def intro!: one_each_none)
qed (use assms in \<open>auto simp: inf_predict_def\<close>)

lemma inf_step_fine:
  assumes "inf_step (we_args W) (we_jobs W) d (th, sh) = Some c'" and "jt (sh_jobs sh)"
    and "serving (it_pc th)" and "no_store (sh_log (snd c'))"
  shows "serving (it_pc (fst c')) \<and> it_ack (fst c') = it_ack th \<and> ws_predictor (sh_state (snd c')) = ws_predictor (sh_state sh)
    \<and> one_each sh (snd c')"
proof (cases d)
  case (InfReceive gone)
  with assms inf_receive_fine [of gone _ th sh c'] show ?thesis by (cases "it_pc th") auto
next
  case (InfPredict latency)
  with assms inf_predict_fine [OF _ assms(4)] show ?thesis by (cases "it_pc th") auto
qed (use assms in \<open>cases "it_pc th"; auto\<close>)+

lemma inf_start_fine:
  assumes "inf_step (we_args W) (we_jobs W) d (th, sh) = Some c'" and "it_pc th = InfStarting" and "it_ack th = None"
  shows "it_pc (fst c') \<noteq> InfStarting"
    and "it_ack (fst c') = Some (Inr ()) \<Longrightarrow> serving (it_pc (fst c')) \<and> sh_state (snd c') = sh_state sh \<and> one_each sh (snd c')"
  using assms
  by (cases d; auto simp: inf_start_def spawn_failed_def Let_def split: prod.splits sum.splits if_splits intro!: one_each_none)+

lemma inf_step_ack:
  assumes "inf_step (we_args W) (we_jobs W) d (th, sh) = Some c'" and "it_pc th \<noteq> InfStarting"
  shows "it_pc (fst c') \<noteq> InfStarting \<and> it_ack (fst c') = it_ack th"
  using assms
  by (cases d; cases "it_pc th")
    (auto simp: inf_receive_def inf_predict_def inf_handle_panic_def inf_rebuild_def inf_drop_def inf_die_def Let_def
      split: prod.splits recv_outcome.splits option.splits unwind.splits sum.splits if_splits)

subsection \<open>The invariant\<close>

definition health_inv :: "('i, 's, 'p, 'f, 'q, 'j, 'o, 'e) worker_sys \<Rightarrow> bool" where
  "health_inv s \<longleftrightarrow>
     (it_pc (wk_inf s) = InfStarting \<longrightarrow> it_ack (wk_inf s) = None)
     \<and> (no_store (sh_log (wk_shared s)) \<and> qt (sh_requests (wk_shared s)) \<and> (it_pc (wk_inf s) = InfStarting \<or> started s) \<longrightarrow>
          acc_fine (wk_acc s, wk_shared s) \<and> (started s \<longrightarrow> serving (it_pc (wk_inf s))))"

lemma sys_inv_open:
  assumes "sys_inv s"
  shows "jt (sh_jobs (wk_shared s)) \<longleftrightarrow> \<not> acc_left (ac_pc (wk_acc s))"
    and "qr (sh_requests (wk_shared s)) \<longleftrightarrow> ac_pc (wk_acc s) \<noteq> AccExited"
    and "jr (sh_jobs (wk_shared s)) \<longleftrightarrow> \<not> inf_gone (it_pc (wk_inf s))"
  using assms by (auto simp: sys_inv_def good_defs inf_good_def)

lemma health_start: "worker_start W cfg queue_sz s \<Longrightarrow> health_inv s"
  by (auto simp: worker_start_def new_worker_sys_def health_inv_def new_inf_thread_def new_acc_task_def
      acc_fine_def new_worker_state_def started_def)

lemma health_step:
  assumes "sys_inv s" and "health_inv s" and "worker_step W s t"
  shows "health_inv t"
  using assms(3)
proof (cases rule: worker_step.cases)
  case (acc_moves c ac sh)
  show ?thesis
  proof (cases "no_store (sh_log sh) \<and> qt (sh_requests sh) \<and> (it_pc (wk_inf s) = InfStarting \<or> started s)")
    case True
    have "no_store (sh_log (wk_shared s))"
      using True acc_step_log [OF acc_moves(2)] by (auto simp: prefix_def)
    moreover have "qt (sh_requests (wk_shared s))"
      using True acc_step_open [OF acc_moves(2)] by simp
    moreover have "jr (sh_jobs (wk_shared s))"
      using calculation True assms(2) sys_inv_open(3) [OF assms(1)]
      by (cases "it_pc (wk_inf s)") (auto simp: health_inv_def)
    ultimately show ?thesis
      using True assms(2) acc_step_fine [OF acc_moves(2)] acc_moves(1)
      by (auto simp: health_inv_def started_def)
  qed (use assms(2) acc_moves(1) in \<open>auto simp: health_inv_def started_def\<close>)
next
  case (inf_moves d th sh)
  have req: "sh_requests sh = sh_requests (wk_shared s)"
    by (rule inf_step_requests [OF assms(1) inf_moves(2)])
  have log: "no_store (sh_log sh) \<Longrightarrow> no_store (sh_log (wk_shared s))"
    using inf_step_log [OF inf_moves(2)] by (auto simp: prefix_def)
  show ?thesis
  proof (cases "it_pc (wk_inf s) = InfStarting")
    case True
    then have "it_ack (wk_inf s) = None" using assms(2) by (simp add: health_inv_def)
    from inf_start_fine [OF inf_moves(2) True this] True req log assms(2) inf_moves(1) show ?thesis
      by (auto simp: health_inv_def started_def acc_fine_def)
  next
    case False
    from inf_step_ack [OF inf_moves(2) False] have ack: "it_pc th \<noteq> InfStarting" "it_ack th = it_ack (wk_inf s)"
      by simp_all
    show ?thesis
    proof (cases "no_store (sh_log sh) \<and> qt (sh_requests sh) \<and> started s")
      case True
      then have fine: "acc_fine (wk_acc s, wk_shared s)" "serving (it_pc (wk_inf s))"
        using assms(2) log req by (auto simp: health_inv_def)
      then have "jt (sh_jobs (wk_shared s))"
        using sys_inv_open(1) [OF assms(1)] by (simp add: acc_fine_def)
      from inf_step_fine [OF inf_moves(2) this fine(2)] True fine(1) inf_moves(1) ack show ?thesis
        by (auto simp: health_inv_def started_def acc_fine_def)
    qed (use inf_moves(1) ack in \<open>auto simp: health_inv_def started_def\<close>)
  qed
next
  case (caller_pushes msg q)
  with assms(2) req.try_send_SendOk [OF caller_pushes(3)] show ?thesis
    by (auto simp: health_inv_def started_def acc_fine_def)
next
  case handles_dropped
  with assms(2) req.drop_senders show ?thesis
    by (auto simp: health_inv_def started_def acc_fine_def)
qed

lemma reached_health: "worker_reach W cfg queue_sz s \<Longrightarrow> health_inv s"
  by (induction rule: reach.induct) (auto intro: health_start health_step reach_sys_inv)

text \<open>The configuration in the shared state is the one the worker was started with.\<close>

lemma reached_config:
  "worker_reach W cfg queue_sz s \<Longrightarrow> ws_batch_size (sh_state (wk_shared s)) = ic_batch_size cfg
    \<and> ws_timeout (sh_state (wk_shared s)) = ic_timeout cfg"
  using reach_sys_inv [of s]
  by (auto simp: sys_inv_def good_defs inf_good_def shared_inv_def config_is_def ws_batch_size_def ws_timeout_def)

text \<open>The capacity of the request channel never changes, and it never holds more.\<close>

lemma poll_recv_cap:
  "mp_poll_recv (we_requests W) q = (r, q') \<Longrightarrow> qc q' = qc q \<and> length (qi q') \<le> length (qi q)"
  by (cases rule: req.poll_recv_cases [of q]) auto

lemma acc_step_cap:
  assumes "acc_step w imax (we_requests W) J c (ac, sh) = Some (ac', sh')"
  shows "qc (sh_requests sh') = qc (sh_requests sh) \<and> length (qi (sh_requests sh')) \<le> length (qi (sh_requests sh))"
  using assms req.drop_receiver [of "sh_requests sh"]
  by (cases c; cases "ac_pc ac")
    (auto simp: recv_first_def recv_more_def take_request_def check_predictor_alive_def drain_flush_def
      drain_handoff_def flush_buffer_def start_handoff_def reserve_job_def use_permit_def send_job_def
      acc_drop_def finish_sent_def acc_leave_def panic_guard_drop_def Let_def
      split: prod.splits recv_outcome.splits option.splits unwind.splits reserve_outcome.splits
        predictor_status.splits if_splits dest: poll_recv_cap)

lemma reached_room:
  "worker_reach W cfg queue_sz s \<Longrightarrow>
    qc (sh_requests (wk_shared s)) = queue_sz \<and> length (qi (sh_requests (wk_shared s))) \<le> queue_sz"
proof (induction rule: reach.induct)
  case (reach_start s)
  then show ?case
    using req.channel_new [OF queue_pos] by (auto simp: worker_start_def new_worker_sys_def)
next
  case (reach_step s t)
  from reach_step.hyps(2) show ?case
  proof (cases rule: worker_step.cases)
    case (acc_moves c ac sh)
    with acc_step_cap [OF acc_moves(2)] reach_step.IH show ?thesis by simp
  next
    case (inf_moves d th sh)
    with inf_step_requests [OF reach_sys_inv [OF reach_step.hyps(1)] inf_moves(2)] reach_step.IH show ?thesis
      by simp
  next
    case (caller_pushes msg q)
    with req.try_send_SendOk [OF caller_pushes(3)] reach_step.IH show ?thesis by simp
  next
    case handles_dropped
    with req.drop_senders reach_step.IH show ?thesis by simp
  qed
qed

lemmas reached_capacity = reached_room [THEN conjunct1]

subsection \<open>What the router meets\<close>

lemma undisturbed_fine:
  assumes "undisturbed W cfg queue_sz qt s"
  shows "acc_fine (wk_acc s, wk_shared s)" and "serving (it_pc (wk_inf s))"
    and "qr (sh_requests (wk_shared s))" and "jr (sh_jobs (wk_shared s))" and "jt (sh_jobs (wk_shared s))"
    and "the_status (sh_state (wk_shared s)) = Waiting \<or> the_status (sh_state (wk_shared s)) = Running"
    and "the_predictor (sh_state (wk_shared s)) = Alive"
proof -
  have inv: "sys_inv s" "health_inv s"
    using assms reach_sys_inv reached_health by (auto simp: undisturbed_def)
  show fine: "acc_fine (wk_acc s, wk_shared s)" "serving (it_pc (wk_inf s))"
    using assms inv(2) by (auto simp: undisturbed_def health_inv_def)
  show "qr (sh_requests (wk_shared s))" "jt (sh_jobs (wk_shared s))"
    using sys_inv_open(1,2) [OF inv(1)] fine(1) by (auto simp: acc_fine_def)
  show "jr (sh_jobs (wk_shared s))"
    using sys_inv_open(3) [OF inv(1)] fine(2) by (cases "it_pc (wk_inf s)") auto
  show "the_status (sh_state (wk_shared s)) = Waiting \<or> the_status (sh_state (wk_shared s)) = Running"
    using inv(1) fine(1) by (cases "ac_pc (wk_acc s)") (auto simp: sys_inv_def good_defs acc_fine_def)
  show "the_predictor (sh_state (wk_shared s)) = Alive"
    using fine(1) by (simp add: acc_fine_def the_predictor_def)
qed

text \<open>Where such a worker cannot move, its request channel is empty.\<close>

lemma undisturbed_stuck:
  assumes "undisturbed W cfg queue_sz qt s" and "\<And>t. \<not> own_step W s t"
  shows "qi (sh_requests (wk_shared s)) = []"
proof -
  have acc: "acc_step (we_worker W) (we_imax W) (we_requests W) (we_jobs W) c (wk_acc s, wk_shared s) = None" for c
    using assms(2) own_step_acc [of W c s]
    by (cases "acc_step (we_worker W) (we_imax W) (we_requests W) (we_jobs W) c (wk_acc s, wk_shared s)") auto
  have inf: "inf_step (we_args W) (we_jobs W) d (wk_inf s, wk_shared s) = None" for d
    using assms(2) own_step_inf [of W d s]
    by (cases "inf_step (we_args W) (we_jobs W) d (wk_inf s, wk_shared s)") auto
  have jobs: "ji (sh_jobs (wk_shared s)) = []"
    using inf_can_move [OF inf] undisturbed_fine(2) [OF assms(1)] by auto
  have "good (set (wk_accepted s)) (wk_acc s, wk_shared s)"
    using assms(1) reach_sys_inv by (auto simp: undisturbed_def sys_inv_def)
  then show ?thesis
    using acc_can_move [OF _ acc, of "set (wk_accepted s)"] jobs undisturbed_fine(1) [OF assms(1)]
    by (cases "ac_pc (wk_acc s)") (auto simp: acc_fine_def)
qed

end

end
