(* ===== verification/Pool_Wakeup.thy ===== *)
theory Pool_Wakeup
  imports Pool_Properties Worker_Health
begin

text \<open>
  No wake-up is lost while no worker crashes. A caller that found every queue full sleeps until it is
  notified; here it is proved that as long as it sleeps, or is about to, either a queue still holds a
  request, whose removal will notify somebody, or some other call is awake: it holds a notification it
  has not used, or is still searching. Together with \<open>stuck_calls\<close> this means that the pool can
  only come to rest with every call ended.

  Pools whose workers crash and recover are the subject of \<open>Pool_Recovery\<close>. The last section here shows
  two runs in which a caller sleeps although there is room.
\<close>

subsection \<open>Awake and asleep\<close>

text \<open>Whether a call holds a \<open>Notified\<close> future.\<close>

fun registered :: "('m, 'o, 'e) caller_pc \<Rightarrow> bool" where
  "registered (CallBegin reg) \<longleftrightarrow> reg"
| "registered (CallRouting reg pc) \<longleftrightarrow> reg"
| "registered CallAsleep \<longleftrightarrow> True"
| "registered (CallQueued reg) \<longleftrightarrow> reg"
| "registered _ \<longleftrightarrow> False"

text \<open>A search that has not met a full queue in its last pass.\<close>

fun open_place :: "route_place \<Rightarrow> bool" where
  "open_place (Second k live rb) \<longleftrightarrow> \<not> live"
| "open_place _ \<longleftrightarrow> True"

fun searching :: "('m, 'e) route_pc \<Rightarrow> bool" where
  "searching (Check msg place sink) \<longleftrightarrow> open_place place"
| "searching (CheckByte msg place sink word) \<longleftrightarrow> open_place place"
| "searching (Recheck msg place sink) \<longleftrightarrow> open_place place"
| "searching (RecheckByte msg place sink word) \<longleftrightarrow> open_place place"
| "searching (Router_Steps.Push msg place sink) \<longleftrightarrow> open_place place"
| "searching (PushByte msg place sink word) \<longleftrightarrow> open_place place"
| "searching (Send msg place sink) \<longleftrightarrow> open_place place"
| "searching _ \<longleftrightarrow> False"

text \<open>Calls that will certainly look at the queues, and calls that may be asleep before they do.\<close>

fun call_active :: "('m, 'o, 'e) caller_pc \<Rightarrow> bool" where
  "call_active (CallBegin reg) \<longleftrightarrow> True"
| "call_active (CallRouting reg pc) \<longleftrightarrow> searching pc"
| "call_active CallRegister \<longleftrightarrow> True"
| "call_active _ \<longleftrightarrow> False"

fun call_committed :: "('m, 'o, 'e) caller_pc \<Rightarrow> bool" where
  "call_committed (CallRouting reg pc) \<longleftrightarrow> reg \<and> \<not> searching pc \<and> \<not> route_done pc"
| "call_committed CallAsleep \<longleftrightarrow> True"
| "call_committed _ \<longleftrightarrow> False"

definition reg_ok :: "(nat \<Rightarrow> notified option) \<Rightarrow> ('m, 'o, 'e) caller_pc list \<Rightarrow> bool" where
  "reg_ok f pcs \<longleftrightarrow> (\<forall>k. f k \<noteq> None \<longleftrightarrow> k < length pcs \<and> registered (pcs ! k))"

definition nobody_forgotten :: "(nat \<Rightarrow> notified option) \<Rightarrow> ('m, 'o, 'e) caller_pc list \<Rightarrow> bool \<Rightarrow> bool" where
  "nobody_forgotten f pcs busy \<longleftrightarrow>
     (\<exists>k < length pcs. call_committed (pcs ! k) \<and> f k = Some Armed) \<longrightarrow>
     busy \<or> (\<exists>k < length pcs. call_active (pcs ! k) \<or> f k = Some WokenOne)"

text \<open>How the steps act on them.\<close>

lemma reg_ok_move:
  "reg_ok f pcs \<Longrightarrow> k < length pcs \<Longrightarrow> registered pc = registered (pcs ! k) \<Longrightarrow> reg_ok f (pcs[k := pc])"
  by (auto simp: reg_ok_def nth_list_update)

lemma reg_ok_enable:
  "reg_ok f pcs \<Longrightarrow> k < length pcs \<Longrightarrow> registered pc \<Longrightarrow> reg_ok (f(k \<mapsto> x)) (pcs[k := pc])"
  by (auto simp: reg_ok_def nth_list_update)

lemma reg_ok_forget:
  assumes "reg_ok f pcs" and "k < length pcs" and "\<not> registered pc" and "\<And>j. f' j = None \<longleftrightarrow> f j = None \<or> j = k"
  shows "reg_ok f' (pcs[k := pc])"
  using assms by (auto simp: reg_ok_def nth_list_update)

text \<open>A call that moves on:\<close>

lemma nobody_forgotten_move:
  assumes "nobody_forgotten f pcs busy" and "k < length pcs"
    and "call_committed pc \<Longrightarrow> call_committed (pcs ! k) \<or> call_active pc \<or> busy'"
    and "call_active (pcs ! k) \<Longrightarrow> call_active pc \<or> busy'" and "busy \<Longrightarrow> busy'"
  shows "nobody_forgotten f (pcs[k := pc]) busy'"
  unfolding nobody_forgotten_def
proof
  assume "\<exists>j < length (pcs[k := pc]). call_committed (pcs[k := pc] ! j) \<and> f j = Some Armed"
  then obtain j where j: "j < length pcs" "call_committed (pcs[k := pc] ! j)" "f j = Some Armed"
    by auto
  then have "call_committed (pcs ! j) \<or> call_active pc \<or> busy'"
    using assms(3) by (cases "j = k") auto
  then have "call_active pc \<or> busy' \<or> (\<exists>i < length pcs. call_active (pcs ! i) \<or> f i = Some WokenOne)"
    using j assms(1,5) unfolding nobody_forgotten_def by blast
  then show "busy' \<or> (\<exists>i < length (pcs[k := pc]). call_active (pcs[k := pc] ! i) \<or> f i = Some WokenOne)"
  proof (elim disjE exE conjE)
    assume "call_active pc"
    with assms(2) show ?thesis by (intro disjI2 exI [of _ k]) simp
  next
    fix i assume i: "i < length pcs" "call_active (pcs ! i)"
    show ?thesis
    proof (cases "i = k")
      case True
      with i assms(4) have "call_active pc \<or> busy'" by simp
      with assms(2) show ?thesis by (metis length_list_update nth_list_update_eq)
    next
      case False
      with i show ?thesis by (intro disjI2 exI [of _ i]) simp
    qed
  next
    fix i assume "i < length pcs" "f i = Some WokenOne"
    then show ?thesis by (intro disjI2 exI [of _ i]) simp
  qed simp
qed

text \<open>A call that has just become active settles it.\<close>

lemma nobody_forgotten_active: "k < length pcs \<Longrightarrow> call_active (pcs ! k) \<Longrightarrow> nobody_forgotten f pcs busy"
  by (auto simp: nobody_forgotten_def)

lemma nobody_forgotten_woken: "reg_ok f pcs \<Longrightarrow> f k = Some WokenOne \<Longrightarrow> nobody_forgotten f pcs busy"
  unfolding nobody_forgotten_def reg_ok_def by (metis option.discI)

text \<open>One notification makes up for one request that leaves a queue.\<close>

lemma nobody_forgotten_notify:
  assumes "wakes_one (b, f) (b', f')" and "reg_ok f' pcs"
  shows "nobody_forgotten f' pcs busy"
proof (cases "\<exists>c. f c = Some Armed")
  case True
  then obtain c where "f' = f(c \<mapsto> WokenOne)"
    using assms(1) by (auto simp: wakes_one_def)
  then show ?thesis by (intro nobody_forgotten_woken [OF assms(2), of c]) simp
next
  case False
  then have "f' = f" using assms(1) by (simp add: wakes_one_def)
  with False show ?thesis by (simp add: nobody_forgotten_def)
qed

text \<open>A future is dropped.\<close>

lemma nobody_forgotten_mono:
  assumes "nobody_forgotten f pcs busy" and "\<And>j. f' j = Some Armed \<Longrightarrow> f j = Some Armed"
    and "\<And>j. f j = Some WokenOne \<Longrightarrow> f' j = Some WokenOne"
  shows "nobody_forgotten f' pcs busy"
  using assms unfolding nobody_forgotten_def by blast

lemma nobody_forgotten_drop:
  assumes "notify_signal N permit fut" and "nobody_forgotten (fut s) pcs busy" and "k < length pcs"
    and "\<not> call_committed pc" and "\<not> call_active (pcs ! k)" and "reg_ok (fut (nt_drop N k s)) (pcs[k := pc])"
  shows "nobody_forgotten (fut (nt_drop N k s)) (pcs[k := pc]) busy"
proof (cases "fut s k = Some WokenOne")
  case True
  from notify_signal.drop_forwards [OF assms(1) this] assms(6) show ?thesis
    by (rule nobody_forgotten_notify)
next
  case False
  have "nobody_forgotten (fut s) (pcs[k := pc]) busy"
    by (rule nobody_forgotten_move [OF assms(2,3)]) (use assms(4,5) in auto)
  then show ?thesis
    unfolding notify_signal.drop_plain [OF assms(1) False]
    by (rule nobody_forgotten_mono) (use False in \<open>auto split: if_splits\<close>)
qed

subsection \<open>The router in an undisturbed pool\<close>

definition word_live :: "u64 \<Rightarrow> bool" where
  "word_live word \<longleftrightarrow> word_status word = Waiting \<or> word_status word = Running"

text \<open>It never sees a rebuilding or a dead worker, so it fails only for want of room.\<close>

fun route_calm :: "('m, 'e) route_pc \<Rightarrow> bool" where
  "route_calm (CheckByte msg place sink word) \<longleftrightarrow> word_live word"
| "route_calm (PushByte msg place sink word) \<longleftrightarrow> word_live word"
| "route_calm (Recheck msg place sink) \<longleftrightarrow> False"
| "route_calm (RecheckByte msg place sink word) \<longleftrightarrow> False"
| "route_calm (Routed (Inl (msg, e))) \<longleftrightarrow> e = QueueFullError"
| "route_calm _ \<longleftrightarrow> True"

fun call_calm :: "('m, 'o, 'e) caller_pc \<Rightarrow> bool" where
  "call_calm (CallRouting reg pc) \<longleftrightarrow> route_calm pc"
| "call_calm _ \<longleftrightarrow> True"

lemma route_full:
  "route_calm (route_pushed sz place sink (QueueFull m))"
  by (cases "(sz, m, place, sink)" rule: route_next.cases; simp add: route_verdict_def)

lemma route_full_committed:
  "\<not> open_place place \<Longrightarrow> \<not> searching (route_pushed sz place sink (QueueFull m))"
  by (cases "(sz, m, place, sink)" rule: route_next.cases; simp)

lemma route_next_first [simp]:
  "route_calm (route_next sz m (First k) sink)" "searching (route_next sz m (First k) sink)"
  by (cases k; simp)+

context worker_model
begin

lemma route_access_calm:
  assumes "undisturbed W cfg queue_sz qt s" and "route_step (we_requests W) sz (worker_view s) pc = (pc', w)"
    and "route_calm pc" and "route_target pc = Some i"
  shows "route_calm pc'"
    and "searching pc \<Longrightarrow> searching pc' \<or> qi (wr_queue w) \<noteq> []"
    and "\<not> searching pc \<Longrightarrow> \<not> searching pc'"
    and "qi (sh_requests (wk_shared s)) \<noteq> [] \<Longrightarrow> qi (wr_queue w) \<noteq> []"
proof -
  let ?q = "sh_requests (wk_shared s)"
  note fine = undisturbed_fine [OF assms(1)]
  have ok: "ws_ok (sh_state (wk_shared s))"
    using assms(1) reached_ws_ok by (auto simp: undisturbed_def)
  have live: "word_live (ws_word (sh_state (wk_shared s)))"
    using fine(6) by (simp add: word_live_def the_status_def)
  have cap: "0 < qc ?q"
    using assms(1) reached_capacity queue_pos by (auto simp: undisturbed_def)
  have "route_calm pc' \<and> (searching pc \<longrightarrow> searching pc' \<or> qi (wr_queue w) \<noteq> [])
    \<and> (\<not> searching pc \<longrightarrow> \<not> searching pc') \<and> (qi ?q \<noteq> [] \<longrightarrow> qi (wr_queue w) \<noteq> [])"
  proof (cases pc)
    case (Send m place sink)
    show ?thesis
    proof (cases rule: req.try_send_cases [of ?q m])
      case Full
      with cap have "qi ?q \<noteq> []" by auto
      with Full assms(2) Send route_full [of sz place sink m] route_full_committed [of place sz sink m] show ?thesis
        by (auto simp: worker_view_def)
    qed (use fine(3) assms(2) Send in \<open>auto simp: worker_view_def\<close>)
  next
    case (CheckByte m place sink word)
    then show ?thesis
      using assms(2,3) ok fine(7)
      by (cases place) (auto simp: worker_view_def read_snapshot_eq word_live_def accepts_secondary_def split: if_splits)
  qed (use assms(2-4) ok fine(7) live in \<open>auto simp: worker_view_def read_snapshot_eq word_live_def\<close>)
  then show "route_calm pc'"
    and "searching pc \<Longrightarrow> searching pc' \<or> qi (wr_queue w) \<noteq> []"
    and "\<not> searching pc \<Longrightarrow> \<not> searching pc'"
    and "qi (sh_requests (wk_shared s)) \<noteq> [] \<Longrightarrow> qi (wr_queue w) \<noteq> []"
    by simp_all
qed

end

subsection \<open>The invariant of a pool\<close>

lemma signal_effects_notifies: "signal_effects N (notifies es) s = signal_effects N es s"
  by (induction N es s rule: signal_effects.induct) (simp_all add: notifies_def)

lemma no_store_pool_log: "no_store (pool_log ws) \<longleftrightarrow> (\<forall>w \<in> set ws. no_store (sh_log (wk_shared w)))"
  by (auto simp: no_store_def pool_log_def)

context notify_signal
begin

lemma signal_keys: "fut (signal_effects N es s) k = None \<longleftrightarrow> fut s k = None"
proof (induction es arbitrary: s)
  case (Cons e es)
  then show ?case
    using notify_one_keys notify_waiters_keys by (cases e) auto
qed simp

end

text \<open>No predictor status has been stored: nobody's code has panicked and no rebuild has ended.\<close>

definition calm :: "('i, 's, 'p, 'f, 'q, 'j, 'o, 'e, 'n) pool_sys \<Rightarrow> bool" where
  "calm p \<longleftrightarrow> no_store (pool_log (ps_workers p))"

context pool_model
begin

definition busy :: "('i, 's, 'p, 'f, 'q, 'j, 'o, 'e, 'n) pool_sys \<Rightarrow> bool" where
  "busy p \<longleftrightarrow> (\<exists>i < n. qi (sh_requests (wk_shared (ps_workers p ! i))) \<noteq> [])"

definition wake_inv :: "('i, 's, 'p, 'f, 'q, 'j, 'o, 'e, 'n) pool_sys \<Rightarrow> bool" where
  "wake_inv p \<longleftrightarrow>
     (ps_phase p = PoolServing \<longrightarrow> (\<forall>i < n. started (ps_workers p ! i)))
     \<and> reg_ok (fut (ps_signal p)) (map ca_pc (ps_callers p))
     \<and> (ps_phase p = PoolServing \<and> calm p \<longrightarrow>
          (\<forall>pc \<in> ca_pc ` set (ps_callers p). call_calm pc)
          \<and> nobody_forgotten (fut (ps_signal p)) (map ca_pc (ps_callers p)) (busy p))"

lemma calm_worker:
  assumes "pool_inv p" and "wake_inv p" and "ps_phase p = PoolServing" and "calm p" and "i < n"
  shows "undisturbed (pe_worker P i) cfg queue_sz qt (ps_workers p ! i)"
  using assms by (auto simp: undisturbed_def wake_inv_def calm_def no_store_pool_log pool_inv_defs)

lemma calm_update:
  assumes "calm (p\<lparr>ps_workers := (ps_workers p)[i := t]\<rparr>)" and "i < length (ps_workers p)"
    and "prefix (sh_log (wk_shared (ps_workers p ! i))) (sh_log (wk_shared t))"
  shows "calm p" and "no_store (sh_log (wk_shared t))"
proof -
  have all: "no_store (sh_log (wk_shared ((ps_workers p)[i := t] ! j)))" if "j < length (ps_workers p)" for j
    using assms(1) that by (simp add: calm_def no_store_pool_log)
  show t: "no_store (sh_log (wk_shared t))"
    using all [OF assms(2)] assms(2) by simp
  have "no_store (sh_log (wk_shared (ps_workers p ! j)))" if "j < length (ps_workers p)" for j
    using all [OF that] that t assms(3) by (cases "j = i") (auto simp: prefix_def)
  then show "calm p"
    by (auto simp: calm_def no_store_pool_log in_set_conv_nth)
qed

text \<open>A worker moves.\<close>

lemma set_worker_wake:
  assumes "pool_inv p" and "wake_inv p" and "i < n" and "own_step (pe_worker P i) (ps_workers p ! i) t"
    and "started (ps_workers p ! i) \<Longrightarrow> started t"
    and "undisturbed (pe_worker P i) cfg queue_sz qt (ps_workers p ! i) \<Longrightarrow> no_store (sh_log (wk_shared t)) \<Longrightarrow>
      worker_model.one_each qi (wk_shared (ps_workers p ! i)) (wk_shared t)"
  shows "wake_inv (set_worker (pe_signal P) i t p)"
proof -
  let ?s = "ps_workers p ! i" and ?p = "set_worker (pe_signal P) i t p"
  let ?es = "drop (length (sh_log (wk_shared ?s))) (sh_log (wk_shared t))"
  have len: "length (ps_workers p) = n" using assms(1) by (simp add: pool_inv_defs)
  have reg: "reg_ok (fut (ps_signal ?p)) (map ca_pc (ps_callers ?p))"
    using assms(2) by (simp add: wake_inv_def set_worker_def reg_ok_def sig.signal_keys)
  have "nobody_forgotten (fut (ps_signal ?p)) (map ca_pc (ps_callers ?p)) (busy ?p)
      \<and> (\<forall>pc \<in> ca_pc ` set (ps_callers ?p). call_calm pc)" if phase: "ps_phase p = PoolServing" and calm': "calm ?p"
  proof -
    have "calm (p\<lparr>ps_workers := (ps_workers p)[i := t]\<rparr>)"
      using calm' by (simp add: calm_def set_worker_def)
    note calm = calm_update [OF this _ own_step_log [OF assms(4)]]
    then have "calm p" "no_store (sh_log (wk_shared t))" using assms(3) len by simp_all
    then have wake: "nobody_forgotten (fut (ps_signal p)) (map ca_pc (ps_callers p)) (busy p)"
      and calls: "\<forall>pc \<in> ca_pc ` set (ps_callers p). call_calm pc"
      and one: "worker_model.one_each qi (wk_shared ?s) (wk_shared t)"
      using assms(2,6) phase calm_worker [OF assms(1,2) phase _ assms(3)] by (simp_all add: wake_inv_def)
    have sig: "ps_signal ?p = signal_effects (pe_signal P) (notifies ?es) (ps_signal p)"
      by (simp add: set_worker_def signal_effects_notifies)
    from one consider (same) "notifies ?es = []" "sh_requests (wk_shared t) = sh_requests (wk_shared ?s)"
      | (taken) "notifies ?es = [NotifyOne]"
      unfolding worker_model.one_each_def [OF workers [OF assms(3)]] by auto
    then show ?thesis
    proof cases
      case same
      then have "busy ?p = busy p"
        using assms(3) len by (auto simp: busy_def set_worker_def nth_list_update)
      with same wake calls sig show ?thesis by (simp add: set_worker_def)
    next
      case taken
      then have "fut (ps_signal ?p) = fut (nt_notify_one (pe_signal P) (ps_signal p))"
        using sig by simp
      with nobody_forgotten_notify [OF sig.notify_one] reg calls show ?thesis
        by (simp add: set_worker_def)
    qed
  qed
  with reg assms(2,3,5) len show ?thesis
    by (auto simp: wake_inv_def set_worker_def nth_list_update)
qed

text \<open>A call moves.\<close>

lemma set_call_fields [simp]:
  "ps_workers (set_call k pc p) = ps_workers p" "ps_signal (set_call k pc p) = ps_signal p"
  "ps_phase (set_call k pc p) = ps_phase p" "map ca_pc (ps_callers (set_call k pc p)) = (map ca_pc (ps_callers p))[k := pc]"
  by (simp_all add: set_call_def map_update)

lemma set_call_wake:
  assumes "wake_inv p" and "ps_callers p1 = ps_callers p" and "ps_phase p1 = ps_phase p"
    and "ps_phase p = PoolServing \<Longrightarrow> \<forall>i < n. started (ps_workers p1 ! i)"
    and "reg_ok (fut (ps_signal p1)) ((map ca_pc (ps_callers p))[k := pc])"
    and "ps_phase p = PoolServing \<Longrightarrow> calm p1 \<Longrightarrow>
      calm p \<and> call_calm pc \<and> nobody_forgotten (fut (ps_signal p1)) ((map ca_pc (ps_callers p))[k := pc]) (busy p1)"
  shows "wake_inv (set_call k pc p1)"
proof -
  have "busy (set_call k pc p1) = busy p1" "calm (set_call k pc p1) = calm p1"
    by (simp_all add: busy_def calm_def)
  moreover have "call_calm pc'" if pc': "pc' \<in> ca_pc ` set (ps_callers (set_call k pc p1))"
    and calm: "ps_phase p = PoolServing" "calm p1" for pc'
  proof -
    have "pc' \<in> set ((map ca_pc (ps_callers p))[k := pc])"
      using pc' assms(2) set_call_fields(4) [of k pc p1] by (metis set_map)
    then have "pc' = pc \<or> pc' \<in> ca_pc ` set (ps_callers p)"
      using set_update_subset_insert [of "map ca_pc (ps_callers p)" k pc] by auto
    with assms(1) assms(6) [OF calm] calm show ?thesis by (auto simp: wake_inv_def)
  qed
  ultimately show ?thesis
    using assms by (simp add: wake_inv_def)
qed

lemma drop_future_wake:
  assumes "pool_inv p" and "wake_inv p" and "k < length (ps_callers p)"
    and "reg = registered (ca_pc (ps_callers p ! k))" and "\<not> call_active (ca_pc (ps_callers p ! k))"
    and "\<not> registered pc" and "\<not> call_committed pc" and "call_calm pc"
  shows "wake_inv (set_call k pc (drop_future (pe_signal P) reg k p))"
proof -
  let ?N = "pe_signal P" and ?pcs = "map ca_pc (ps_callers p)" and ?s = "ps_signal p"
  let ?p = "drop_future ?N reg k p"
  have reg0: "reg_ok (fut ?s) ?pcs" using assms(2) by (simp add: wake_inv_def)
  have same: "busy ?p = busy p" "calm ?p = calm p"
    by (simp_all add: busy_def calm_def)
  have f: "reg_ok (fut (ps_signal ?p)) (?pcs[k := pc])
    \<and> (nobody_forgotten (fut ?s) ?pcs (busy p) \<longrightarrow> nobody_forgotten (fut (ps_signal ?p)) (?pcs[k := pc]) (busy p))"
  proof (cases reg)
    case True
    have "reg_ok (fut (nt_drop ?N k ?s)) (?pcs[k := pc])"
      by (rule reg_ok_forget [OF reg0]) (use assms(3,6) sig.drop_keys in auto)
    with nobody_forgotten_drop [OF sig.notify_signal_axioms _ _ assms(7)] True assms(3,5) show ?thesis
      by (simp add: drop_future_def)
  next
    case False
    have "reg_ok (fut ?s) (?pcs[k := pc])"
      by (rule reg_ok_move [OF reg0]) (use assms(3,4,6) False in auto)
    moreover have "nobody_forgotten (fut ?s) ?pcs (busy p) \<Longrightarrow> nobody_forgotten (fut ?s) (?pcs[k := pc]) (busy p)"
      by (rule nobody_forgotten_move) (use assms(3,5,7) in auto)
    ultimately show ?thesis
      using False by (simp add: drop_future_def)
  qed
  show ?thesis
    by (rule set_call_wake [OF assms(2)]) (use f assms(2,8) same in \<open>auto simp: wake_inv_def\<close>)
qed

text \<open>One access of the router.\<close>

lemma route_call_wake:
  assumes "pool_inv p" and "wake_inv p" and "k < length (ps_callers p)"
    and "ca_pc (ps_callers p ! k) = CallRouting reg pc" and "route_target pc = Some i"
  shows "wake_inv (route_call P k reg pc p)"
proof -
  let ?c = "ps_callers p ! k" and ?ws = "ps_workers p"
  have len: "length ?ws = n" using assms(1) by (simp add: pool_inv_defs)
  have "call_ok ?ws (ca_msg ?c) (ca_waits ?c) (ca_pc ?c)"
    using assms(1) nth_mem [OF assms(3)] by (auto simp: pool_inv_defs caller_ok_def)
  then have ok: "route_ok n (ca_msg ?c) pc"
    using assms(4) len by simp
  with assms(5) have i: "i < n" by (cases pc) auto
  obtain pc' w where step: "route_step (we_requests (pe_worker P i)) n (worker_view (?ws ! i)) pc = (pc', w)"
    by fastforce
  let ?t = "worker_after (route_sent pc pc') w (?ws ! i)"
  let ?p = "p\<lparr>ps_workers := ?ws[i := ?t]\<rparr>"
  have t: "wk_inf ?t = wk_inf (?ws ! i)" "sh_log (wk_shared ?t) = sh_log (wk_shared (?ws ! i))"
    "sh_requests (wk_shared ?t) = wr_queue w"
    by (simp_all add: worker_after_def)
  have calm: "calm p" if "calm ?p"
    using calm_update [OF that] i len t(2) by simp
  have calls: "call_calm (CallRouting reg pc') \<and>
      nobody_forgotten (fut (ps_signal ?p)) ((map ca_pc (ps_callers p))[k := CallRouting reg pc']) (busy ?p)"
    if phase: "ps_phase p = PoolServing" and "calm p"
  proof -
    note und = calm_worker [OF assms(1,2) phase \<open>calm p\<close> i]
    have "call_calm (ca_pc ?c)" "nobody_forgotten (fut (ps_signal p)) (map ca_pc (ps_callers p)) (busy p)"
      using assms(2) phase \<open>calm p\<close> nth_mem [OF assms(3)] by (simp_all add: wake_inv_def)
    then have "route_calm pc" using assms(4) by simp
    note acc = worker_model.route_access_calm [OF workers [OF i] und step \<open>route_calm pc\<close> assms(5)]
    have found: "busy ?p" if "qi (wr_queue w) \<noteq> []"
      using that i len t(3) by (auto simp: busy_def intro!: exI [of _ i])
    have kept: "busy ?p" if busy: "busy p"
    proof -
      obtain j where j: "j < n" "qi (sh_requests (wk_shared (?ws ! j))) \<noteq> []"
        using busy by (auto simp: busy_def)
      show ?thesis
      proof (cases "j = i")
        case True
        with j acc(4) found show ?thesis by simp
      next
        case False
        with j show ?thesis by (auto simp: busy_def intro!: exI [of _ j])
      qed
    qed
    have "nobody_forgotten (fut (ps_signal p)) ((map ca_pc (ps_callers p))[k := CallRouting reg pc']) (busy ?p)"
      by (rule nobody_forgotten_move [OF \<open>nobody_forgotten _ _ _\<close>])
        (use acc(2,3) found kept assms(3-5) route_target_queued [OF assms(5)] in auto)
    with acc(1) show ?thesis by simp
  qed
  have "wake_inv (set_call k (CallRouting reg pc') ?p)"
  proof (rule set_call_wake [OF assms(2)])
    show "reg_ok (fut (ps_signal ?p)) ((map ca_pc (ps_callers p))[k := CallRouting reg pc'])"
      using assms(2-4) by (auto simp: wake_inv_def intro: reg_ok_move)
    show "\<forall>j < n. started (ps_workers ?p ! j)" if "ps_phase p = PoolServing"
      using that assms(2) i len t(1) by (auto simp: wake_inv_def started_def nth_list_update)
  qed (use calm calls in auto)
  then show ?thesis
    using assms(5) i step len by (simp add: route_call_def Let_def)
qed

lemma call_step_wake:
  assumes "pool_inv p" and "wake_inv p" and "k < length (ps_callers p)" and "call_step P k p = Some p'"
  shows "wake_inv p'"
proof -
  let ?c = "ps_callers p ! k" and ?pcs = "map ca_pc (ps_callers p)"
  have reg: "reg_ok (fut (ps_signal p)) ?pcs" and pcs: "k < length ?pcs" "?pcs ! k = ca_pc ?c"
    using assms(2,3) by (simp_all add: wake_inv_def)
  have ok: "call_ok (ps_workers p) (ca_msg ?c) (ca_waits ?c) (ca_pc ?c)"
    using assms(1,3) nth_mem [OF assms(3)] by (auto simp: pool_inv_defs caller_ok_def)
  have started: "ps_phase p = PoolServing \<Longrightarrow> \<forall>i < n. started (ps_workers p ! i)"
    using assms(2) by (simp add: wake_inv_def)
  note drop = drop_future_wake [OF assms(1-3)]
  show ?thesis
  proof (cases "ca_pc ?c")
    case (CallBegin reg')
    obtain pc start where start: "route_start n (ps_start p) (ca_msg ?c) = (pc :: ('i \<times> 's, 'e) route_pc, start)"
      by fastforce
    then have pc: "searching pc" "route_calm pc"
      using pool_pos by (auto simp: route_start_def split: if_splits)
    have "length (ps_workers p) = n" using assms(1) by (simp add: pool_inv_defs)
    then have p': "p' = set_call k (CallRouting reg' pc) (p\<lparr>ps_start := start\<rparr>)"
      using start CallBegin assms(4) by (simp add: call_step_def)
    show ?thesis
      unfolding p'
    proof (rule set_call_wake [OF assms(2)])
      show "reg_ok (fut (ps_signal (p\<lparr>ps_start := start\<rparr>))) (?pcs[k := CallRouting reg' pc])"
        using reg_ok_move [OF reg pcs(1)] pcs(2) CallBegin by simp
      have "nobody_forgotten (fut (ps_signal p)) (?pcs[k := CallRouting reg' pc]) b" for b
        by (rule nobody_forgotten_active [of k]) (use pcs pc in simp_all)
      then show "calm p \<and> call_calm (CallRouting reg' pc)
        \<and> nobody_forgotten (fut (ps_signal (p\<lparr>ps_start := start\<rparr>))) (?pcs[k := CallRouting reg' pc]) (busy (p\<lparr>ps_start := start\<rparr>))"
        if "calm (p\<lparr>ps_start := start\<rparr>)"
        using that pc by (simp add: calm_def)
    qed (use started in simp_all)
  next
    case (CallRouting reg' pc)
    have p': "p' = route_call P k reg' pc p"
      using assms(4) CallRouting by (simp add: call_step_def)
    show ?thesis
    proof (cases "route_target pc")
      case (Some i)
      from route_call_wake [OF assms(1-3) CallRouting Some] show ?thesis by (simp add: p')
    next
      case None
      then obtain r where pc: "pc = Routed r"
        using ok CallRouting by (cases pc) auto
      let ?next = "call_routed (ca_waits ?c) reg' r :: ('i \<times> 's, 'o, 'e) caller_pc"
      have p1: "p' = set_call k ?next (drop_future (pe_signal P) (reg' \<and> call_over ?next) k p)"
        by (simp add: p' pc route_call_def Let_def)
      show ?thesis
      proof (cases "call_over ?next")
        case True
        then have "\<not> registered ?next" "\<not> call_committed ?next" "call_calm ?next"
          by (cases ?next; simp)+
        then show ?thesis
          unfolding p1 using True CallRouting pc by (intro drop) auto
      next
        case False
        have next_pc: "registered ?next = reg'" "call_calm ?next"
          "call_committed ?next \<Longrightarrow> call_committed (ca_pc ?c)"
          using False CallRouting pc by (cases "(ca_waits ?c, reg', r)" rule: call_routed.cases; auto split: if_splits)+
        have "wake_inv (set_call k ?next p)"
        proof (rule set_call_wake [OF assms(2)])
          show "reg_ok (fut (ps_signal p)) (?pcs[k := ?next])"
            by (rule reg_ok_move [OF reg pcs(1)]) (use pcs(2) CallRouting next_pc(1) in simp)
          show "calm p \<and> call_calm ?next \<and> nobody_forgotten (fut (ps_signal p)) (?pcs[k := ?next]) (busy p)"
            if "ps_phase p = PoolServing" "calm p"
          proof -
            have "nobody_forgotten (fut (ps_signal p)) ?pcs (busy p)"
              using that assms(2) by (simp add: wake_inv_def)
            then have "nobody_forgotten (fut (ps_signal p)) (?pcs[k := ?next]) (busy p)"
              by (rule nobody_forgotten_move) (use pcs CallRouting pc next_pc(3) in auto)
            with that next_pc(2) show ?thesis by simp
          qed
        qed (use started in simp_all)
        with False show ?thesis by (simp add: p1 drop_future_def)
      qed
    qed
  next
    case CallRegister
    then have "\<not> registered (?pcs ! k)" using pcs(2) by simp
    then have none: "fut (ps_signal p) k = None"
      using reg by (auto simp: reg_ok_def)
    let ?p = "p\<lparr>ps_signal := nt_enable (pe_signal P) k (ps_signal p)\<rparr>"
    have p': "p' = set_call k (CallBegin True) ?p"
      using CallRegister assms(4) by (simp add: call_step_def)
    show ?thesis
      unfolding p'
    proof (rule set_call_wake [OF assms(2)])
      show "reg_ok (fut (ps_signal ?p)) (?pcs[k := CallBegin True])"
        using reg_ok_enable [OF reg pcs(1)] by (simp add: sig.enable [OF none])
      have "nobody_forgotten f (?pcs[k := CallBegin True]) b" for f b
        by (rule nobody_forgotten_active [of k]) (use pcs in simp_all)
      then show "calm p \<and> call_calm (CallBegin True :: ('i \<times> 's, 'o, 'e) caller_pc)
          \<and> nobody_forgotten (fut (ps_signal ?p)) (?pcs[k := CallBegin True]) (busy ?p)" if "calm ?p"
        using that by (simp add: calm_def)
    qed (use started in simp_all)
  next
    case CallAsleep
    let ?p = "p\<lparr>ps_signal := nt_finish (pe_signal P) k (ps_signal p)\<rparr>"
    have ready: "nt_ready (pe_signal P) k (ps_signal p)" and p': "p' = set_call k CallRegister ?p"
      using CallAsleep assms(4) by (auto simp: call_step_def split: if_splits)
    show ?thesis
      unfolding p'
    proof (rule set_call_wake [OF assms(2)])
      show "reg_ok (fut (ps_signal ?p)) (?pcs[k := CallRegister])"
        by (rule reg_ok_forget [OF reg pcs(1)]) (use sig.finish [OF ready] in auto)
      have "nobody_forgotten f (?pcs[k := CallRegister]) b" for f b
        by (rule nobody_forgotten_active [of k]) (use pcs in simp_all)
      then show "calm p \<and> call_calm (CallRegister :: ('i \<times> 's, 'o, 'e) caller_pc)
          \<and> nobody_forgotten (fut (ps_signal ?p)) (?pcs[k := CallRegister]) (busy ?p)" if "calm ?p"
        using that by (simp add: calm_def)
    qed (use started in simp_all)
  next
    case (CallQueued reg')
    then obtain out where "p' = set_call k (CallReturned True (await_reply out)) (drop_future (pe_signal P) reg' k p)"
      using assms(4) by (auto simp: call_step_def split: option.splits)
    with CallQueued show ?thesis by (auto intro!: drop)
  qed (use assms(4) in \<open>auto simp: call_step_def\<close>)
qed

lemma start_wake: "pool_start P cfg queue_sz n p \<Longrightarrow> wake_inv p"
  by (simp add: pool_start_def wake_inv_def reg_ok_def sig.notify_new)

lemma step_wake:
  assumes "pool_inv p" and "wake_inv p" and "pool_step P p p'"
  shows "wake_inv p'"
  using assms(3)
proof (cases rule: pool_step.cases)
  case own
  have len: "length (ps_workers p) = n" using assms(1) by (simp add: pool_inv_defs)
  from own show ?thesis
  proof (cases rule: pool_own_step.cases)
    case (acc_acts i W s c ac sh)
    have i: "i < n" using acc_acts(2) len by simp
    note step = acc_acts(6) [unfolded acc_acts(3,4)]
    show ?thesis
      unfolding acc_acts(1,4)
    proof (rule set_worker_wake [OF assms(1,2) i own_step_acc [OF step]])
      assume "undisturbed (pe_worker P i) cfg queue_sz qt (ps_workers p ! i)"
      note fine = this worker_model.undisturbed_fine [OF workers [OF i] this]
      assume "no_store (sh_log (wk_shared ((ps_workers p ! i)\<lparr>wk_acc := ac, wk_shared := sh\<rparr>)))"
      with worker_model.acc_step_fine [OF workers [OF i] step fine(2)] fine(1,5)
      show "worker_model.one_each qi (wk_shared (ps_workers p ! i))
          (wk_shared ((ps_workers p ! i)\<lparr>wk_acc := ac, wk_shared := sh\<rparr>))"
        by (simp add: undisturbed_def)
    qed (simp add: started_def)
  next
    case (inf_acts i W s d th sh)
    have i: "i < n" using inf_acts(2) len by simp
    note step = inf_acts(5) [unfolded inf_acts(3,4)]
    have "worker_model.health_inv qt (ps_workers p ! i)"
      using worker_model.reached_health [OF workers [OF i]] assms(1) i by (simp add: pool_inv_defs)
    then have run: "it_pc (wk_inf (ps_workers p ! i)) \<noteq> InfStarting" if "started (ps_workers p ! i)"
      using that by (auto simp: worker_model.health_inv_def [OF workers [OF i]] started_def)
    show ?thesis
      unfolding inf_acts(1,4)
    proof (rule set_worker_wake [OF assms(1,2) i own_step_inf [OF step]])
      show "started ((ps_workers p ! i)\<lparr>wk_inf := th, wk_shared := sh\<rparr>)" if "started (ps_workers p ! i)"
        using worker_model.inf_step_ack [OF workers [OF i] step run [OF that]] that by (simp add: started_def)
      assume "undisturbed (pe_worker P i) cfg queue_sz qt (ps_workers p ! i)"
      note fine = worker_model.undisturbed_fine [OF workers [OF i] this]
      assume "no_store (sh_log (wk_shared ((ps_workers p ! i)\<lparr>wk_inf := th, wk_shared := sh\<rparr>)))"
      with worker_model.inf_step_fine [OF workers [OF i] step fine(5,2)]
      show "worker_model.one_each qi (wk_shared (ps_workers p ! i))
          (wk_shared ((ps_workers p ! i)\<lparr>wk_inf := th, wk_shared := sh\<rparr>))"
        by simp
    qed
  next
    case (caller_acts k)
    show ?thesis by (rule call_step_wake [OF assms(1,2) caller_acts])
  qed
next
  case serves
  have "started (ps_workers p ! i)" if "i < n" for i
    using serves(3) assms(1) that by (simp add: started_def pool_inv_defs)
  moreover have "ps_callers p = []"
    using serves(2) assms(1) by (simp add: pool_inv_defs)
  ultimately show ?thesis
    using assms(2) serves(1) by (simp add: wake_inv_def nobody_forgotten_def)
next
  case (arrives tx inp waits)
  have "reg_ok f (pcs @ [CallBegin False])" if "reg_ok f pcs" for f and pcs :: "('i \<times> 's, 'o, 'e) caller_pc list"
    using that by (auto simp: reg_ok_def nth_append less_Suc_eq)
  moreover have "nobody_forgotten f (pcs @ [CallBegin False]) b" for f b and pcs :: "('i \<times> 's, 'o, 'e) caller_pc list"
    by (rule nobody_forgotten_active [of "length pcs"]) simp_all
  ultimately show ?thesis
    using assms(2) arrives by (auto simp: wake_inv_def calm_def busy_def)
next
  case (cancelled k)
  note drop = drop_future_wake [OF assms(1,2) cancelled(1)]
  from cancelled(2) show ?thesis
    by (auto simp: cancel_call_def split: caller_pc.splits intro!: drop)
next
  case closes
  with assms(2) show ?thesis by (simp add: wake_inv_def)
qed

lemma reach_wake: "pool_reach P cfg queue_sz n p \<Longrightarrow> wake_inv p"
  by (induction rule: reach.induct) (auto intro: start_wake step_wake reach_pool_inv)

text \<open>Where nothing can move a call is over or asleep, and nobody has notified it.\<close>

lemma stuck_sleepers:
  assumes "pool_inv p" and "wake_inv p" and "\<And>p'. \<not> pool_own_step P p p'" and "k < length (ps_callers p)"
  shows "call_over (ca_pc (ps_callers p ! k)) \<or> ca_pc (ps_callers p ! k) = CallAsleep
      \<and> fut (ps_signal p) k = Some Armed"
proof (cases "ca_pc (ps_callers p ! k) = CallAsleep")
  case True
  then have "fut (ps_signal p) k \<noteq> None"
    using assms(2,4) by (auto simp: wake_inv_def reg_ok_def)
  moreover have "call_step P k p = None"
    using assms(3) caller_acts [OF assms(4)] by (cases "call_step P k p") auto
  ultimately show ?thesis
    using True by (auto simp: call_step_def sig.ready split: if_splits)
qed (use stuck_calls [OF assms(1,3) nth_mem [OF assms(4)]] in auto)

text \<open>A calm pool that cannot move has nobody waiting.\<close>

lemma calm_stuck_calls:
  assumes "pool_reach P cfg queue_sz n p" and "calm p" and "\<And>p'. \<not> pool_own_step P p p'"
    and "c \<in> set (ps_callers p)"
  shows "call_over (ca_pc c)"
proof (rule ccontr)
  assume not_over: "\<not> call_over (ca_pc c)"
  have inv: "pool_inv p" "wake_inv p"
    using reach_pool_inv [OF assms(1)] reach_wake [OF assms(1)] by simp_all
  have phase: "ps_phase p = PoolServing"
    using inv(1) assms(4) not_over by (cases "ps_phase p") (auto simp: pool_inv_defs)
  note pcs = stuck_sleepers [OF inv assms(3)]
  obtain k where k: "k < length (ps_callers p)" "ps_callers p ! k = c"
    using assms(4) by (auto simp: in_set_conv_nth)
  then have "call_committed (map ca_pc (ps_callers p) ! k) \<and> fut (ps_signal p) k = Some Armed"
    using pcs [OF k(1)] not_over by auto
  moreover have "nobody_forgotten (fut (ps_signal p)) (map ca_pc (ps_callers p)) (busy p)"
    using inv(2) phase assms(2) by (simp add: wake_inv_def)
  ultimately consider "busy p"
    | j where "j < length (ps_callers p)"
        "call_active (ca_pc (ps_callers p ! j)) \<or> fut (ps_signal p) j = Some WokenOne"
    using k(1) by (auto simp: nobody_forgotten_def)
  then show False
  proof cases
    case 1
    then obtain i where i: "i < n" "qi (sh_requests (wk_shared (ps_workers p ! i))) \<noteq> []"
      by (auto simp: busy_def)
    then show False
      using worker_model.undisturbed_stuck [OF workers [OF i(1)] calm_worker [OF inv phase assms(2) i(1)]
          stuck_worker [OF inv(1) assms(3) i(1)]] by simp
  next
    case 2
    have "registered (map ca_pc (ps_callers p) ! j)" if "fut (ps_signal p) j = Some WokenOne"
      using that inv(2) unfolding wake_inv_def reg_ok_def by (metis option.discI)
    then have "registered (ca_pc (ps_callers p ! j))" if "fut (ps_signal p) j = Some WokenOne"
      using that 2(1) by simp
    with pcs [OF 2(1)] 2(2) show False
      by (cases "ca_pc (ps_callers p ! j)") auto
  qed
qed

end

subsection \<open>Runs\<close>

text \<open>One worker with a queue of one. Batches of one: the first request makes the predictor panic; the
  second is taken before the rebuild, the third queued after it, and the fourth caller finds the queue
  full. Then the accumulator drains the queue.\<close>

definition lost_cfg :: inner_config where
  "lost_cfg = \<lparr>ic_timeout = from_millis 5, ic_batch_size = 1\<rparr>"

definition lost_run :: "(nat, nat) pool_move list" where
  "lost_run =
     [PoolInf 0 (InfStart (\<lambda>_. False) True), PoolServe, PoolArrive 0 1 True] @ replicate 7 (PoolCall 0)
     @ PoolAcc 0 (AccRecv 0) # replicate 5 (PoolAcc 0 AccRun)
     @ PoolArrive 5 2 True # replicate 7 (PoolCall 1)
     @ [PoolAcc 0 (AccRecv 0), PoolInf 0 (InfReceive (\<lambda>_. False)), PoolInf 0 (InfPredict DURATION_ZERO), PoolAcc 0 AccRun,
        PoolInf 0 InfHandlePanic, PoolInf 0 (InfRebuild 0), PoolInf 0 InfFlush, PoolInf 0 InfRevive]
     @ PoolArrive 6 3 True # replicate 7 (PoolCall 2)
     @ PoolArrive 7 4 True # replicate 24 (PoolCall 3)
     @ replicate 2 (PoolAcc 0 AccRun) @ [PoolCall 0, PoolCall 1, PoolCall 2]"

text \<open>What is looked at: the calls, the signal, and the worker.\<close>

definition pool_view ::
  "('i, 's, 'p, 'f, 'q, 'j, 'o, 'e, 'n) pool_sys \<Rightarrow> ('i \<times> 's, 'o, 'e) caller_pc list \<times> 'n
     \<times> (('i, 's) acc_pc \<times> ('p, 'i, 's) inf_pc \<times> 'q \<times> 'j \<times> worker_state) list" where
  "pool_view p = (map ca_pc (ps_callers p), ps_signal p, map (\<lambda>w. (ac_pc (wk_acc w), it_pc (wk_inf w),
     sh_requests (wk_shared w), sh_jobs (wk_shared w), sh_state (wk_shared w))) (ps_workers p))"

abbreviation empty_fifo :: "'m fifo" where
  "empty_fifo \<equiv> \<lparr>ff_items = [], ff_cap = 1, ff_rx = True, ff_tx = True\<rparr>"

lemma lost_run_view:
  "map_option pool_view (run_pool demo_pool lost_run (new_pool demo_pool lost_cfg 1 1)) =
   Some (replicate 3 (CallReturned True (Inl InternalError)) @ [CallAsleep],
     \<lparr>fs_permit = False, fs_futures = [(3, Armed)]\<rparr>,
     [(AwaitFirst, InfWaiting (), empty_fifo, empty_fifo, new_worker_state lost_cfg)])"
  by (simp add: lost_run_def lost_cfg_def pool_view_def pool_run_defs from_recv_error_def Let_def duration_simps)

text \<open>Batches of three: the first request is queued, two callers register and wait for its removal. The
  notification goes to the first of them, but the second gets the place; the next notification goes
  to the future this one still holds.\<close>

definition late_cfg :: inner_config where
  "late_cfg = \<lparr>ic_timeout = from_millis 5, ic_batch_size = 3\<rparr>"

definition late_run :: "(nat, nat) pool_move list" where
  "late_run =
     [PoolInf 0 (InfStart (\<lambda>_. False) True), PoolServe, PoolArrive 5 1 True] @ replicate 7 (PoolCall 0)
     @ PoolArrive 6 2 True # replicate 8 (PoolCall 1) @ PoolArrive 7 3 True # replicate 8 (PoolCall 2)
     @ PoolAcc 0 (AccRecv 0) # replicate 7 (PoolCall 2) @ replicate 16 (PoolCall 1) @ [PoolAcc 0 (AccRecv 0)]"

lemma late_run_view:
  "map_option (\<lambda>p. (map ca_pc (ps_callers p), ps_signal p, map (\<lambda>w. (ac_pc (wk_acc w), sh_requests (wk_shared w),
       can_accept_primary (sh_state (wk_shared w)))) (ps_workers p), filter (\<lambda>e. e \<noteq> NotifyOne) (pool_log (ps_workers p))))
     (run_pool demo_pool late_run (new_pool demo_pool late_cfg 1 1)) =
   Some ([CallQueued False, CallAsleep, CallQueued True], \<lparr>fs_permit = False, fs_futures = [(2, WokenOne), (1, Armed)]\<rparr>,
     [(Selecting, empty_fifo, Some True)], [BuiltPredictor])"
  by (simp add: late_run_def late_cfg_def pool_run_defs can_accept_primary_def snapshot_def Let_def duration_simps)

text \<open>The same run to its end: the batch is predicted, and the caller that held the notification passes
  it on when it returns.\<close>

definition one_batch :: "instant \<Rightarrow> (nat, nat) pool_move list" where
  "one_batch now = PoolAcc 0 (AccTimer now) # replicate 5 (PoolAcc 0 AccRun)
     @ [PoolInf 0 (InfReceive (\<lambda>_. False)), PoolInf 0 (InfPredict DURATION_ZERO)]"

definition served_run :: "(nat, nat) pool_move list" where
  "served_run = late_run @ one_batch 5000000 @ [PoolCall 0, PoolCall 2] @ replicate 9 (PoolCall 1)
     @ PoolAcc 0 (AccRecv 6000000) # one_batch 11000000 @ [PoolCall 1]"

lemma served_run_view:
  "map_option (\<lambda>p. (pool_view p, filter (\<lambda>e. e \<in> range StorePredictor) (pool_log (ps_workers p))))
     (run_pool demo_pool served_run (new_pool demo_pool late_cfg 1 1)) =
   Some ((map (CallReturned True \<circ> Inr) [10, 12, 14], \<lparr>fs_permit = True, fs_futures = []\<rparr>,
     [(AwaitFirst, InfWaiting (), empty_fifo, empty_fifo, new_worker_state late_cfg)]), [])"
  by (simp add: served_run_def late_run_def one_batch_def late_cfg_def pool_view_def pool_run_defs image_iff Let_def duration_simps)

text \<open>The state of a single worker that is seen idle.\<close>

lemma idle_view_stuck:
  assumes "pool_view p = (pcs, sig, [(AwaitFirst, InfWaiting q, empty_fifo, empty_fifo, st)])"
    and "\<And>k. k < length pcs \<Longrightarrow> call_over (pcs ! k)
      \<or> pcs ! k = CallAsleep \<and> \<not> nt_ready (pe_signal P) k sig"
    and "we_requests (pe_worker P 0) = fifo_mpsc" and "we_jobs (pe_worker P 0) = fifo_mpsc"
  shows "\<not> pool_own_step P p p'"
proof (rule stuck_poolI)
  have p: "map ca_pc (ps_callers p) = pcs" "ps_signal p = sig"
    using assms(1) by (simp_all add: pool_view_def)
  fix i t assume "i < length (ps_workers p)"
  then show "\<not> own_step (pe_worker P i) (ps_workers p ! i) t"
    using assms(1,3,4) idle_worker_stuck [of "ps_workers p ! 0" q 1 1]
    by (auto simp: pool_view_def map_eq_Cons_conv)
next
  have p: "map ca_pc (ps_callers p) = pcs" "ps_signal p = sig"
    using assms(1) by (simp_all add: pool_view_def)
  fix k assume k: "k < length (ps_callers p)"
  have "call_over (ca_pc (ps_callers p ! k))
      \<or> ca_pc (ps_callers p ! k) = CallAsleep \<and> \<not> nt_ready (pe_signal P) k (ps_signal p)"
    using assms(2) [of k] k unfolding p(1) [symmetric] p(2) by simp
  then show "call_step P k p = None"
    by (cases "ca_pc (ps_callers p ! k)") (auto simp: call_step_def)
qed

lemma late_pool_model:
  "pool_model demo_pool fs_permit (\<lambda>s. map_of (fs_futures s)) ff_items ff_cap ff_rx ff_tx ff_items ff_cap ff_rx ff_tx
     late_cfg 1 1"
  unfolding demo_pool_def
  by (rule fifo_pool_model)
    (simp_all add: late_cfg_def instant_checked_add_def ONE_YEAR_def duration_simps)

subsection \<open>Properties\<close>

text \<open>While no worker crashes, no wake-up is lost and every call ends. For every pool that meets the
  contracts, every number of calls and every interleaving: if no predictor status has been stored so
  far (the user's code has not panicked), a state in which neither a worker nor a call can take a step
  has every call ended. In particular no call of \<open>predict\<close> sleeps while nothing is left to wake it.\<close>

theorem no_lost_wakeup:
  assumes "pool_model P permit fut qi qc qr qt ji jc jr jt cfg queue_sz n" and "pool_reach P cfg queue_sz n p"
    and "\<forall>w \<in> set (ps_workers p). \<forall>st. StorePredictor st \<notin> set (sh_log (wk_shared w))"
    and "\<And>p'. \<not> pool_own_step P p p'"
  shows "\<forall>c \<in> set (ps_callers p). call_over (ca_pc c)"
proof -
  have "calm p" using assms(3) by (simp add: calm_def no_store_pool_log) (simp add: no_store_def)
  with pool_model.calm_stuck_calls [OF assms(1,2) _ assms(4)] show ?thesis by blast
qed

theorem no_lost_wakeup_witness:
  "\<exists>p. pool_reach demo_pool late_cfg 1 1 p
    \<and> map ca_pc (ps_callers p) = map (CallReturned True \<circ> Inr) [10, 12, 14]
    \<and> (\<forall>c \<in> set (ps_callers p). call_over (ca_pc c))"
proof (rule run_pool_cases [OF served_run_view])
  fix p assume p: "pool_reach demo_pool late_cfg 1 1 p"
    "(pool_view p, filter (\<lambda>e. e \<in> range StorePredictor) (pool_log (ps_workers p))) =
      ((map (CallReturned True \<circ> Inr) [10, 12, 14], \<lparr>fs_permit = True, fs_futures = []\<rparr>,
        [(AwaitFirst, InfWaiting (), empty_fifo, empty_fifo, new_worker_state late_cfg)]), [])"
  have calm: "\<forall>w \<in> set (ps_workers p). \<forall>st. StorePredictor st \<notin> set (sh_log (wk_shared w))"
    using p(2) by (auto simp: filter_empty_conv pool_log_def)
  have stuck: "\<not> pool_own_step demo_pool p p'" for p'
    by (rule idle_view_stuck [OF conjunct1 [OF p(2) [unfolded prod.inject]]])
      (auto simp: demo_pool_parts nth_Cons' split: if_splits)
  from no_lost_wakeup [OF late_pool_model p(1) calm stuck] p show ?thesis
    by (auto simp: pool_view_def)
qed

text \<open>C37: A wake-up can be lost when a worker drains its queue. There is a run of a pool of one worker
  in which nothing can move any more, the worker is alive, its queue is empty and open and it would
  accept a request, and yet a caller of \<open>predict\<close> is asleep: the requests that made room were removed
  by \<open>handle_crashed_inf\<close>, which notifies nobody, after the rebuild had notified the callers that were
  waiting then.\<close>

theorem drain_loses_wakeup:
  "\<exists>p. pool_reach demo_pool lost_cfg 1 1 p \<and> (\<forall>p'. \<not> pool_own_step demo_pool p p')
    \<and> map ca_pc (ps_callers p) = replicate 3 (CallReturned True (Inl InternalError)) @ [CallAsleep]
    \<and> map (\<lambda>w. (can_accept_primary (sh_state (wk_shared w)), sh_requests (wk_shared w))) (ps_workers p) =
        [(Some True, empty_fifo)]"
proof (rule run_pool_cases [OF lost_run_view])
  fix p assume p: "pool_reach demo_pool lost_cfg 1 1 p"
    "pool_view p = (replicate 3 (CallReturned True (Inl InternalError)) @ [CallAsleep],
      \<lparr>fs_permit = False, fs_futures = [(3, Armed)]\<rparr>,
      [(AwaitFirst, InfWaiting (), empty_fifo, empty_fifo, new_worker_state lost_cfg)])"
  have "\<not> pool_own_step demo_pool p p'" for p'
    by (rule idle_view_stuck [OF p(2)])
      (auto simp: demo_pool_parts fifo_notify_ops numeral_eq_Suc less_Suc_eq)
  moreover have "can_accept_primary (new_worker_state lost_cfg) = Some True"
    by (simp add: can_accept_primary_def snapshot_def lost_cfg_def pool_run_defs)
  ultimately show ?thesis
    using p by (auto simp: pool_view_def intro!: exI [of _ p])
qed

text \<open>C39: A notification can go to a caller that no longer needs it. There is a run, without any panic, in
  which the queue has become empty and the worker would accept a request, but the caller that waits
  for room cannot move: the notification for the removed request is held by a caller whose own
  request has been queued, which keeps its \<open>Notified\<close> future while it awaits its reply.\<close>

theorem notification_held_by_queued_caller:
  "\<exists>p. pool_reach demo_pool late_cfg 1 1 p
    \<and> map ca_pc (ps_callers p) = [CallQueued False, CallAsleep, CallQueued True]
    \<and> nt_ready fifo_notify 2 (ps_signal p) \<and> call_step demo_pool 1 p = None
    \<and> map (\<lambda>w. (can_accept_primary (sh_state (wk_shared w)), sh_requests (wk_shared w))) (ps_workers p) =
        [(Some True, empty_fifo)]
    \<and> (\<forall>st. StorePredictor st \<notin> set (pool_log (ps_workers p)))"
proof (rule run_pool_cases [OF late_run_view])
  fix p assume p: "pool_reach demo_pool late_cfg 1 1 p"
    "(map ca_pc (ps_callers p), ps_signal p, map (\<lambda>w. (ac_pc (wk_acc w), sh_requests (wk_shared w),
       can_accept_primary (sh_state (wk_shared w)))) (ps_workers p), filter (\<lambda>e. e \<noteq> NotifyOne) (pool_log (ps_workers p))) =
     ([CallQueued False, CallAsleep, CallQueued True], \<lparr>fs_permit = False, fs_futures = [(2, WokenOne), (1, Armed)]\<rparr>,
     [(Selecting, empty_fifo, Some True)], [BuiltPredictor])"
  then have "ps_signal p = \<lparr>fs_permit = False, fs_futures = [(2, WokenOne), (1, Armed)]\<rparr>" by simp
  then have ready: "nt_ready fifo_notify 2 (ps_signal p)" "\<not> nt_ready fifo_notify 1 (ps_signal p)"
    by (simp_all add: fifo_notify_ops)
  have calls: "map ca_pc (ps_callers p) = [CallQueued False, CallAsleep, CallQueued True]" using p(2) by simp
  then have "ca_pc (ps_callers p ! 1) = CallAsleep"
    by (auto simp: map_eq_Cons_conv)
  with ready have "call_step demo_pool 1 p = None"
    by (simp add: call_step_def demo_pool_parts)
  moreover have "set (filter (\<lambda>e. e \<noteq> NotifyOne) (pool_log (ps_workers p))) = {BuiltPredictor}"
    using p(2) by simp
  then have "\<forall>st. StorePredictor st \<notin> set (pool_log (ps_workers p))"
    by auto
  ultimately show ?thesis
    using p ready calls by (auto intro!: exI [of _ p])
qed

end
