(* ===== verification/Pool_Termination.thy ===== *)
theory Pool_Termination
  imports Pool_Wakeup
begin

text \<open>
  A pool does not spin. Every step of a worker or of a call decreases a measure that only the users of
  the pool can increase, so between two arrivals the pool takes a bounded number of steps, however
  its calls wake each other up. The measure pays for the retries of a call in advance: a notification
  that has not been used pays for one more attempt, a step of a worker for all the notifications it
  can cause, and a request that has not been queued for the work it will cause.
\<close>

subsection \<open>Sums\<close>

lemma sum_list_update_nat:
  fixes f :: "'a \<Rightarrow> nat"
  assumes "k < length xs"
  shows "sum_list (map f (xs[k := x])) + f (xs ! k) = sum_list (map f xs) + f x"
proof -
  obtain ys y zs where "xs = ys @ y # zs" "length ys = k"
    using assms id_take_nth_drop [OF assms] by (metis length_take min.absorb4)
  then show ?thesis
    by (simp add: list_update_append nth_append)
qed

lemma sum_upd_nat:
  fixes g :: "'a \<Rightarrow> nat" and k c :: nat
  assumes "k < c"
  shows "(\<Sum>j<c. g ((f(k := x)) j)) + g (f k) = (\<Sum>j<c. g (f j)) + g x"
proof -
  have "(\<Sum>j<c. g ((f(k := x)) j)) = g x + (\<Sum>j\<in>{..<c} - {k}. g (f j))"
    using assms by (subst sum.remove [of _ k]) auto
  moreover have "(\<Sum>j<c. g (f j)) = g (f k) + (\<Sum>j\<in>{..<c} - {k}. g (f j))"
    using assms by (subst sum.remove [of _ k]) auto
  ultimately show ?thesis by simp
qed

subsection \<open>Notifications that have not been used\<close>

fun unused :: "notified option \<Rightarrow> nat" where
  "unused None = 0" | "unused (Some Armed) = 0" | "unused (Some _) = 1"

lemma unused_le: "unused f \<le> 1"
  by (cases f rule: unused.cases) simp_all

context notify_signal
begin

definition tokens :: "nat \<Rightarrow> 'n \<Rightarrow> nat" where
  "tokens c s = (\<Sum>j<c. unused (fut s j)) + (if permit s then 1 else 0)"

lemma tokens_le: "tokens c s \<le> c + 1"
proof -
  have "(\<Sum>j<c. unused (fut s j)) \<le> (\<Sum>j<c. 1)"
    by (rule sum_mono) (rule unused_le)
  then show ?thesis by (simp add: tokens_def)
qed

lemma tokens_enable:
  assumes "fut s k = None" and "k < c"
  shows "tokens c (nt_enable N k s) \<le> tokens c s"
  using sum_upd_nat [OF assms(2), of unused "fut s"] assms(1) enable_permit [OF assms(1)]
  by (simp add: tokens_def enable [OF assms(1)])

lemma tokens_finish:
  assumes "nt_ready N k s" and "k < c"
  shows "tokens c (nt_finish N k s) + 1 = tokens c s"
proof -
  from assms(1) obtain f where "fut s k = Some f" "f \<noteq> Armed"
    by (auto simp: ready)
  then have "unused (fut s k) = 1"
    by (cases f) simp_all
  with sum_upd_nat [OF assms(2), of unused "fut s" None] show ?thesis
    by (simp add: tokens_def finish [OF assms(1)] finish_permit [OF assms(1)])
qed

lemma tokens_drop:
  assumes "k < c"
  shows "tokens c (nt_drop N k s) \<le> tokens c s"
proof (cases "fut s k = Some WokenOne")
  case False
  from sum_upd_nat [OF assms, of unused "fut s" None] show ?thesis
    by (simp add: tokens_def drop_plain [OF False] drop_permit [OF False])
next
  case True
  let ?f = "(fut s)(k := None)" and ?s = "nt_drop N k s"
  have less: "(\<Sum>j<c. unused (?f j)) + 1 = (\<Sum>j<c. unused (fut s j))"
    using sum_upd_nat [OF assms, of unused "fut s" None] True by simp
  from drop_forwards [OF True] consider
    (woken) d where "?f d = Some Armed" "fut ?s = ?f(d \<mapsto> WokenOne)" "permit ?s = permit s"
    | (stored) "fut ?s = ?f" "permit ?s"
    by (auto simp: wakes_one_def split: if_splits)
  then show ?thesis
  proof cases
    case woken
    have "(\<Sum>j<c. unused ((?f(d \<mapsto> WokenOne)) j)) \<le> (\<Sum>j<c. unused (?f j)) + 1"
    proof (cases "d < c")
      case True
      from sum_upd_nat [OF this, of unused ?f "Some WokenOne"] show ?thesis by simp
    next
      case False
      then have "(\<Sum>j<c. unused ((?f(d \<mapsto> WokenOne)) j)) = (\<Sum>j<c. unused (?f j))"
        by (intro sum.cong) auto
      then show ?thesis by simp
    qed
    with woken less show ?thesis by (simp add: tokens_def)
  next
    case stored
    with less show ?thesis by (simp add: tokens_def)
  qed
qed

end

subsection \<open>What an access of the router adds to the work\<close>

context worker_model
begin

lemma route_access_measure:
  assumes "route_step (we_requests W) sz (worker_view s) pc = (pc', w)" and "route_target pc = Some i"
  shows "worker_measure qi ji (worker_after (route_sent pc pc') w s) =
    worker_measure qi ji s + (if route_done pc' then 16 else 0)"
proof (cases pc)
  case (Send m place sink)
  have lost: "\<not> route_done (route_pushed sz place sink (QueueFull m))"
    "\<not> route_done (route_pushed sz place sink (QueueClosed m))"
    by (auto simp: route_done_iff)
  show ?thesis
    by (cases rule: req.try_send_cases [of "sh_requests (wk_shared s)" m])
      (use assms Send lost in \<open>auto simp: worker_view_def worker_after_def worker_measure_def simp del: route_pushed.simps(2-5)\<close>)
next
  case (CheckByte m place sink word)
  then show ?thesis
    using assms by (auto simp: route_done_iff split: option.splits if_splits)
next
  case (RecheckByte m place sink word)
  then show ?thesis
    using assms by (auto simp: route_done_iff split: option.splits if_splits)
next
  case (PushByte m place sink word)
  then show ?thesis
    using assms by (auto simp: route_done_iff split: option.splits if_splits)
qed (use assms in auto)

end

subsection \<open>The measure\<close>

text \<open>An attempt of a call takes no more steps than this in a pool of \<open>n\<close> workers.\<close>

definition attempt_cost :: "nat \<Rightarrow> nat" where
  "attempt_cost n = 12 * n + 10"

text \<open>What a notification pays for, and what a step of a worker pays for, with \<open>c\<close> calls.\<close>

definition token_cost :: "nat \<Rightarrow> nat" where
  "token_cost n = attempt_cost n + 6"

definition work_cost :: "nat \<Rightarrow> nat \<Rightarrow> nat" where
  "work_cost n c = token_cost n * (c + 1) + 1"

definition first_cost :: "nat \<Rightarrow> bool \<Rightarrow> nat" where
  "first_cost n reg = (if reg then 0 else attempt_cost n + 6)"

fun call_weight :: "nat \<Rightarrow> nat \<Rightarrow> ('m, 'o, 'e) caller_pc \<Rightarrow> nat" where
  "call_weight n A (CallBegin reg) = 16 * A + first_cost n reg + attempt_cost n + 2"
| "call_weight n A (CallRouting reg pc) =
     (if route_done pc then 2 else 16 * A + first_cost n reg + route_rank n pc + 2)"
| "call_weight n A CallRegister = 16 * A + attempt_cost n + 4"
| "call_weight n A CallAsleep = 16 * A + 1"
| "call_weight n A (CallQueued reg) = 1"
| "call_weight n A _ = 0"

lemma route_start_rank: "0 < n \<Longrightarrow> route_rank n (fst (route_start n start msg)) < attempt_cost n"
  by (auto simp: route_start_def attempt_cost_def)

context pool_model
begin

definition pool_measure :: "('i, 's, 'p, 'f, 'q, 'j, 'o, 'e, 'n) pool_sys \<Rightarrow> nat" where
  "pool_measure p =
     (let c = length (ps_callers p); A = work_cost n c
      in A * sum_list (map (worker_measure qi ji) (ps_workers p))
         + sum_list (map (call_weight n A) (map ca_pc (ps_callers p)))
         + token_cost n * sig.tokens c (ps_signal p))"

text \<open>A step of a worker.\<close>

lemma set_worker_measure:
  assumes "i < length (ps_workers p)"
    and "worker_measure qi ji t < worker_measure qi ji (ps_workers p ! i)"
  shows "pool_measure (set_worker N i t p) < pool_measure p"
proof -
  let ?c = "length (ps_callers p)" and ?p = "set_worker N i t p"
  let ?A = "work_cost n ?c" and ?w = "\<lambda>p. sum_list (map (worker_measure qi ji) (ps_workers p))"
  have "?w ?p + 1 \<le> ?w p"
    using sum_list_update_nat [OF assms(1), of "worker_measure qi ji" t] assms(2) by (simp add: set_worker_def)
  then have "?A * ?w ?p + ?A \<le> ?A * ?w p"
    using mult_le_mono2 [of "?w ?p + 1" "?w p" ?A] by (simp only: distrib_left mult_1_right)
  moreover have "token_cost n * sig.tokens ?c (ps_signal ?p) \<le> token_cost n * (?c + 1)"
    using sig.tokens_le by (rule mult_le_mono2)
  then have "token_cost n * sig.tokens ?c (ps_signal ?p) < ?A"
    by (simp add: work_cost_def)
  ultimately show ?thesis
    by (simp add: pool_measure_def Let_def set_worker_def)
qed

text \<open>A step of a call that leaves the workers' measures, up to the work it hands over.\<close>

lemma set_call_measure:
  assumes "k < length (ps_callers p)" and "ps_callers p1 = ps_callers p"
    and "sum_list (map (worker_measure qi ji) (ps_workers p1)) = sum_list (map (worker_measure qi ji) (ps_workers p)) + m"
    and "m * work_cost n (length (ps_callers p)) + call_weight n (work_cost n (length (ps_callers p))) pc
      + token_cost n * sig.tokens (length (ps_callers p)) (ps_signal p1)
      < call_weight n (work_cost n (length (ps_callers p))) (ca_pc (ps_callers p ! k))
      + token_cost n * sig.tokens (length (ps_callers p)) (ps_signal p)"
  shows "pool_measure (set_call k pc p1) < pool_measure p"
proof -
  let ?A = "work_cost n (length (ps_callers p))" and ?pcs = "map ca_pc (ps_callers p)"
  have "sum_list (map (call_weight n ?A) (?pcs[k := pc])) + call_weight n ?A (ca_pc (ps_callers p ! k)) =
      sum_list (map (call_weight n ?A) ?pcs) + call_weight n ?A pc"
    using sum_list_update_nat [of k ?pcs "call_weight n ?A" pc] assms(1) by simp
  moreover have "length (ps_callers (set_call k pc p1)) = length (ps_callers p)"
    using assms(2) by (simp add: set_call_def)
  ultimately show ?thesis
    using assms(2-4) unfolding pool_measure_def Let_def set_call_fields by (simp add: algebra_simps)
qed

text \<open>Every step of a call.\<close>

lemma route_call_measure:
  assumes "pool_inv p" and "k < length (ps_callers p)"
    and "ca_pc (ps_callers p ! k) = CallRouting reg pc" and "route_target pc = Some i"
  shows "pool_measure (route_call P k reg pc p) < pool_measure p"
proof -
  let ?c = "ps_callers p ! k" and ?ws = "ps_workers p"
  have len: "length ?ws = n" using assms(1) by (simp add: pool_inv_defs)
  have "call_ok ?ws (ca_msg ?c) (ca_waits ?c) (ca_pc ?c)"
    using assms(1) nth_mem [OF assms(2)] by (auto simp: pool_inv_defs caller_ok_def)
  then have "route_ok n (ca_msg ?c) pc"
    using assms(3) len by simp
  with assms(4) have i: "i < n" by (cases pc) auto
  obtain pc' w where step: "route_step (we_requests (pe_worker P i)) n (worker_view (?ws ! i)) pc = (pc', w)"
    by fastforce
  let ?t = "worker_after (route_sent pc pc') w (?ws ! i)"
  let ?p = "p\<lparr>ps_workers := ?ws[i := ?t]\<rparr>" and ?m = "if route_done pc' then 16 else 0 :: nat"
  have "worker_measure qi ji ?t = worker_measure qi ji (?ws ! i) + ?m"
    by (rule worker_model.route_access_measure [OF workers [OF i] step assms(4)])
  then have "sum_list (map (worker_measure qi ji) (ps_workers ?p)) =
      sum_list (map (worker_measure qi ji) ?ws) + ?m"
    using sum_list_update_nat [of i ?ws "worker_measure qi ji" ?t] i len by simp
  moreover have "route_rank n pc' < route_rank n pc"
    by (rule route_step_rank [OF assms(4) step])
  ultimately have "pool_measure (set_call k (CallRouting reg pc') ?p) < pool_measure p"
    using route_target_queued [OF assms(4)] assms(3)
    by (intro set_call_measure [OF assms(2), where m = ?m]) auto
  then show ?thesis
    using assms(4) i step len by (simp add: route_call_def Let_def)
qed

lemma call_step_measure:
  assumes "pool_inv p" and "wake_inv p" and "k < length (ps_callers p)" and "call_step P k p = Some p'"
  shows "pool_measure p' < pool_measure p"
proof -
  let ?c = "ps_callers p ! k" and ?n = "length (ps_callers p)"
  have reg: "reg_ok (fut (ps_signal p)) (map ca_pc (ps_callers p))"
    using assms(2) by (simp add: wake_inv_def)
  have ok: "call_ok (ps_workers p) (ca_msg ?c) (ca_waits ?c) (ca_pc ?c)"
    using assms(1,3) nth_mem [OF assms(3)] by (auto simp: pool_inv_defs caller_ok_def)
  note down = set_call_measure [OF assms(3), where m = 0, simplified]
  note dropped = sig.tokens_drop [OF assms(3), of "ps_signal p", THEN mult_le_mono2, of "token_cost n"]
  show ?thesis
  proof (cases "ca_pc ?c")
    case (CallBegin reg')
    obtain pc start where start: "route_start n (ps_start p) (ca_msg ?c) = (pc :: ('i \<times> 's, 'e) route_pc, start)"
      by fastforce
    then have "\<not> route_done pc" "route_rank n pc < attempt_cost n"
      using pool_pos route_start_rank [OF pool_pos, of "ps_start p" "ca_msg ?c"]
      by (auto simp: route_start_def split: if_splits)
    moreover have "length (ps_workers p) = n" using assms(1) by (simp add: pool_inv_defs)
    then have "p' = set_call k (CallRouting reg' pc) (p\<lparr>ps_start := start\<rparr>)"
      using start CallBegin assms(4) by (simp add: call_step_def)
    ultimately show ?thesis
      using CallBegin by (auto intro!: down)
  next
    case (CallRouting reg' pc)
    have p': "p' = route_call P k reg' pc p"
      using assms(4) CallRouting by (simp add: call_step_def)
    show ?thesis
    proof (cases "route_target pc")
      case (Some i)
      from route_call_measure [OF assms(1,3) CallRouting Some] show ?thesis by (simp add: p')
    next
      case None
      then obtain r where pc: "pc = Routed r"
        using ok CallRouting by (cases pc) auto
      let ?next = "call_routed (ca_waits ?c) reg' r :: ('i \<times> 's, 'o, 'e) caller_pc"
      have "call_weight n A ?next < call_weight n A (ca_pc ?c)" for A
        using CallRouting pc
        by (cases "(ca_waits ?c, reg', r)" rule: call_routed.cases) (auto simp: first_cost_def)
      then have "pool_measure (set_call k ?next (drop_future (pe_signal P) (reg' \<and> call_over ?next) k p)) < pool_measure p"
        using dropped by (intro down add_less_le_mono) (simp_all add: drop_future_def)
      then show ?thesis
        by (simp add: p' pc route_call_def Let_def)
    qed
  next
    case CallRegister
    then have "\<not> registered (map ca_pc (ps_callers p) ! k)"
      using assms(3) by simp
    then have none: "fut (ps_signal p) k = None"
      using reg by (auto simp: reg_ok_def)
    have p': "p' = set_call k (CallBegin True) (p\<lparr>ps_signal := nt_enable (pe_signal P) k (ps_signal p)\<rparr>)"
      using CallRegister assms(4) by (simp add: call_step_def)
    show ?thesis
      unfolding p' using CallRegister sig.tokens_enable [OF none assms(3), THEN mult_le_mono2, of "token_cost n"]
      by (intro down add_less_le_mono) (simp_all add: first_cost_def)
  next
    case CallAsleep
    then have ready: "nt_ready (pe_signal P) k (ps_signal p)"
      and p': "p' = set_call k CallRegister (p\<lparr>ps_signal := nt_finish (pe_signal P) k (ps_signal p)\<rparr>)"
      using assms(4) by (auto simp: call_step_def split: if_splits)
    have "token_cost n * sig.tokens ?n (nt_finish (pe_signal P) k (ps_signal p)) + token_cost n =
        token_cost n * sig.tokens ?n (ps_signal p)"
      using sig.tokens_finish [OF ready assms(3)] by (metis distrib_left mult.right_neutral)
    then show ?thesis
      unfolding p' using CallAsleep by (intro down) (simp_all add: token_cost_def)
  next
    case (CallQueued reg')
    then obtain out where "p' = set_call k (CallReturned True (await_reply out)) (drop_future (pe_signal P) reg' k p)"
      using assms(4) by (auto simp: call_step_def split: option.splits)
    then show ?thesis
      using CallQueued dropped by (auto simp: drop_future_def intro!: down add_less_le_mono)
  qed (use assms(4) in \<open>auto simp: call_step_def\<close>)
qed

lemma own_step_pool_measure:
  assumes "pool_inv p" and "wake_inv p" and "pool_own_step P p q"
  shows "pool_measure q < pool_measure p"
proof -
  have len: "length (ps_workers p) = n" using assms(1) by (simp add: pool_inv_defs)
  have move: "pool_measure (set_worker (pe_signal P) i t p) < pool_measure p"
    if "i < n" "own_step (pe_worker P i) (ps_workers p ! i) t" for i t
  proof -
    have "worker_reach (pe_worker P i) cfg queue_sz (ps_workers p ! i)"
      using assms(1) that(1) by (simp add: pool_inv_defs)
    with worker_model.own_step_measure [OF workers [OF that(1)] worker_model.reach_sys_inv [OF workers [OF that(1)]] that(2)]
    show ?thesis
      using set_worker_measure that(1) len by simp
  qed
  from assms(3) show ?thesis
  proof (cases rule: pool_own_step.cases)
    case (acc_acts i W s c ac sh)
    with move [OF _ own_step_acc [OF acc_acts(6) [unfolded acc_acts(3,4)]]] len show ?thesis by simp
  next
    case (inf_acts i W s d th sh)
    with move [OF _ own_step_inf [OF inf_acts(5) [unfolded inf_acts(3,4)]]] len show ?thesis by simp
  next
    case (caller_acts k)
    show ?thesis by (rule call_step_measure [OF assms(1,2) caller_acts])
  qed
qed

lemma own_pool_steps:
  "pool_reach P cfg queue_sz n p \<Longrightarrow> (pool_own_step P ^^ k) p q \<Longrightarrow>
    pool_reach P cfg queue_sz n q \<and> pool_measure q + k \<le> pool_measure p"
proof (induction k arbitrary: q)
  case (Suc k)
  then obtain u where u: "(pool_own_step P ^^ k) p u" "pool_own_step P u q"
    by auto
  with Suc have "pool_reach P cfg queue_sz n u" "pool_measure u + k \<le> pool_measure p"
    by simp_all
  with own_step_pool_measure [OF reach_pool_inv reach_wake] u(2) show ?case
    by (fastforce intro: reach_step pool_step.own)
qed simp

end

subsection \<open>How large the measure is\<close>

text \<open>What the threads and the calls of a pool of \<open>n\<close> workers with queues of \<open>queue_sz\<close> can still do
  once \<open>c\<close> calls have arrived.\<close>

definition pool_budget :: "nat \<Rightarrow> nat \<Rightarrow> nat \<Rightarrow> nat" where
  "pool_budget n queue_sz c = work_cost n c * (n * (16 * queue_sz + 28) + 16 * c + 3)"

lemma sum_list_bound_nat: "(\<And>x. x \<in> set xs \<Longrightarrow> f x \<le> (b :: nat)) \<Longrightarrow> sum_list (map f xs) \<le> length xs * b"
  by (induction xs) (auto intro: add_mono)

text \<open>A call in the router has no more than one attempt before it.\<close>

fun route_short :: "nat \<Rightarrow> ('m, 'o, 'e) caller_pc \<Rightarrow> bool" where
  "route_short n (CallRouting reg pc) \<longleftrightarrow> route_rank n pc < attempt_cost n"
| "route_short n _ \<longleftrightarrow> True"

lemma call_weight_le: "route_short n w \<Longrightarrow> call_weight n A w \<le> 16 * A + 2 * token_cost n"
  by (cases w) (auto simp: first_cost_def token_cost_def)

lemma call_over_short: "call_over pc \<Longrightarrow> route_short n pc"
  by (cases pc) simp_all

lemma call_routed_short: "route_short n (call_routed waits reg r)"
  by (cases "(waits, reg, r)" rule: call_routed.cases) simp_all

context worker_model
begin

lemma reached_measure:
  assumes "worker_reach W cfg queue_sz s"
  shows "worker_measure qi ji s \<le> 16 * queue_sz + 28"
proof -
  have "acc_weight (ac_pc (wk_acc s)) \<le> 14" "inf_weight (it_pc (wk_inf s)) \<le> 8"
    by (cases "ac_pc (wk_acc s)"; simp) (cases "it_pc (wk_inf s)"; simp)
  moreover have "length (ji (sh_jobs (wk_shared s))) \<le> 1"
    using reach_sys_inv [OF assms] by (simp add: sys_inv_def good_defs)
  ultimately show ?thesis
    using reached_room [OF assms] by (simp add: worker_measure_def)
qed

end

context pool_model
begin

definition routes_short :: "('i, 's, 'p, 'f, 'q, 'j, 'o, 'e, 'n) pool_sys \<Rightarrow> bool" where
  "routes_short p \<longleftrightarrow> (\<forall>pc \<in> set (map ca_pc (ps_callers p)). route_short n pc)"

lemma set_call_short:
  assumes "routes_short p" and "ps_callers p1 = ps_callers p" and "route_short n pc"
  shows "routes_short (set_call k pc p1)"
  using assms set_update_subset_insert [of "map ca_pc (ps_callers p)" k pc]
  unfolding routes_short_def set_call_fields assms(2) by blast

lemma call_step_short:
  assumes "pool_inv p" and "routes_short p" and "k < length (ps_callers p)" and "call_step P k p = Some p'"
  shows "routes_short p'"
proof -
  let ?c = "ps_callers p ! k"
  note move = set_call_short [OF assms(2)]
  have len: "length (ps_workers p) = n" using assms(1) by (simp add: pool_inv_defs)
  have now: "route_short n (ca_pc ?c)"
    using assms(2,3) nth_mem [of k "ps_callers p"] by (auto simp: routes_short_def)
  show ?thesis
  proof (cases "ca_pc ?c")
    case (CallBegin reg)
    then show ?thesis
      using assms(4) route_start_rank [OF pool_pos, of "ps_start p" "ca_msg ?c", where ?'b = 'e]
      by (auto simp: call_step_def len split: prod.splits intro!: move)
  next
    case (CallRouting reg pc)
    then have "p' = route_call P k reg pc p" and rank: "route_rank n pc < attempt_cost n"
      using assms(4) now by (simp_all add: call_step_def)
    then show ?thesis
      by (auto simp: route_call_def Let_def len drop_future_def split: option.splits prod.splits route_pc.splits
          intro!: move call_routed_short dest!: route_step_rank)
  next
    case (CallQueued reg)
    then show ?thesis
      using assms(4) by (auto simp: call_step_def split: option.splits intro!: move)
  qed (use assms(4) in \<open>auto simp: call_step_def split: if_splits intro!: move\<close>)
qed

lemma reach_short: "pool_reach P cfg queue_sz n p \<Longrightarrow> routes_short p"
proof (induction rule: reach.induct)
  case (reach_start p)
  then show ?case by (simp add: pool_start_def routes_short_def)
next
  case (reach_step p p')
  have inv: "pool_inv p" using reach_step.hyps(1) by (rule reach_pool_inv)
  from reach_step.hyps(2) show ?case
  proof (cases rule: pool_step.cases)
    case own
    then show ?thesis
    proof (cases rule: pool_own_step.cases)
      case (caller_acts k)
      from call_step_short [OF inv reach_step.IH caller_acts] show ?thesis .
    qed (use reach_step.IH in \<open>simp_all add: routes_short_def set_worker_def\<close>)
  next
    case (cancelled k)
    then show ?thesis
      using set_call_short [OF reach_step.IH]
      by (auto simp: cancel_call_def split: caller_pc.splits)
  qed (use reach_step.IH in \<open>auto simp: routes_short_def\<close>)
qed

lemma pool_measure_le:
  assumes "pool_reach P cfg queue_sz n p"
  shows "pool_measure p \<le> pool_budget n queue_sz (length (ps_callers p))"
proof -
  let ?c = "length (ps_callers p)"
  let ?A = "work_cost n ?c"
  have inv: "pool_inv p" using assms by (rule reach_pool_inv)
  have "worker_measure qi ji w \<le> 16 * queue_sz + 28" if "w \<in> set (ps_workers p)" for w
    using that inv worker_model.reached_measure [OF workers] by (auto simp: pool_inv_defs in_set_conv_nth)
  then have "sum_list (map (worker_measure qi ji) (ps_workers p)) \<le> length (ps_workers p) * (16 * queue_sz + 28)"
    by (rule sum_list_bound_nat)
  then have "sum_list (map (worker_measure qi ji) (ps_workers p)) \<le> n * (16 * queue_sz + 28)"
    using inv by (simp add: pool_inv_defs)
  then have work: "?A * sum_list (map (worker_measure qi ji) (ps_workers p)) \<le> ?A * (n * (16 * queue_sz + 28))"
    by (rule mult_le_mono2)
  have "sum_list (map (call_weight n ?A) (map ca_pc (ps_callers p))) \<le> ?c * (16 * ?A + 2 * token_cost n)"
    using reach_short [OF assms]
      sum_list_bound_nat [of "map ca_pc (ps_callers p)" "call_weight n ?A" "16 * ?A + 2 * token_cost n"] call_weight_le
    unfolding routes_short_def length_map by blast
  moreover have "token_cost n * sig.tokens ?c (ps_signal p) \<le> token_cost n * (?c + 1)"
    using sig.tokens_le by (rule mult_le_mono2)
  then have "?c * (2 * token_cost n) + token_cost n * sig.tokens ?c (ps_signal p) \<le> 3 * ?A"
    by (simp add: work_cost_def algebra_simps)
  ultimately show ?thesis
    using work by (simp add: pool_measure_def Let_def pool_budget_def algebra_simps)
qed

text \<open>So a run of own steps can be continued to a state of rest.\<close>

lemma comes_to_rest:
  "pool_reach P cfg queue_sz n p \<Longrightarrow> \<exists>j q. (pool_own_step P ^^ j) p q \<and> (\<forall>q'. \<not> pool_own_step P q q')"
proof (induction "pool_measure p" arbitrary: p rule: less_induct)
  case less
  show ?case
  proof (cases "\<exists>p'. pool_own_step P p p'")
    case True
    then obtain p' where p': "pool_own_step P p p'" by blast
    have "pool_measure p' < pool_measure p"
      using own_step_pool_measure [OF reach_pool_inv reach_wake p'] less.prems by blast
    moreover have "pool_reach P cfg queue_sz n p'"
      using less.prems p' by (blast intro: reach.reach_step pool_step.own)
    ultimately obtain j q where "(pool_own_step P ^^ j) p' q" "\<forall>q'. \<not> pool_own_step P q q'"
      using less.hyps by blast
    with p' have "(pool_own_step P ^^ Suc j) p q" by (metis relpowp_Suc_I2)
    with \<open>\<forall>q'. \<not> _ q q'\<close> show ?thesis by blast
  next
    case False
    then have "(pool_own_step P ^^ 0) p p \<and> (\<forall>q'. \<not> pool_own_step P p q')" by simp
    then show ?thesis by blast
  qed
qed

end

subsection \<open>Property\<close>

text \<open>C6: A pool comes to rest. For every pool that meets the contracts, every reachable state and every
  interleaving: the workers and the calls that are there take at most
  \<open>work_cost n c * (n * (16 * queue_sz + 28) + 16 * c + 3)\<close> steps before they need something from outside,
  for \<open>n\<close> workers, queues of \<open>queue_sz\<close> and \<open>c\<close> calls, whoever is notified and however often a call
  tries again. Whatever they have done, they can go on to a state of rest, and if nobody's code has
  panicked by then every call has ended there.\<close>

theorem pool_comes_to_rest:
  assumes "pool_model P permit fut qi qc qr qt ji jc jr jt cfg queue_sz n" and "pool_reach P cfg queue_sz n p"
    and "(pool_own_step P ^^ k) p q"
  shows "\<exists>j r. k + j \<le> pool_budget n queue_sz (length (ps_callers p))
    \<and> (pool_own_step P ^^ j) q r \<and> (\<forall>r'. \<not> pool_own_step P r r')
    \<and> (calm r \<longrightarrow> (\<forall>c \<in> set (ps_callers r). call_over (ca_pc c)))"
proof -
  note own = pool_model.own_pool_steps [OF assms(1)]
  have q: "pool_reach P cfg queue_sz n q" using own [OF assms(2,3)] by simp
  with pool_model.comes_to_rest [OF assms(1)] obtain j r
    where r: "(pool_own_step P ^^ j) q r" "\<forall>r'. \<not> pool_own_step P r r'" by blast
  have "k + j \<le> pool_budget n queue_sz (length (ps_callers p))"
    using own [OF assms(2,3)] own [OF q r(1)] pool_model.pool_measure_le [OF assms(1,2)] by linarith
  moreover have "calm r \<Longrightarrow> \<forall>c \<in> set (ps_callers r). call_over (ca_pc c)"
    using pool_model.calm_stuck_calls [OF assms(1)] own [OF q r(1)] r(2) by blast
  ultimately show ?thesis using r by blast
qed

theorem pool_comes_to_rest_witness:
  "\<exists>p q j r. map ca_pc (ps_callers p) = [CallQueued False, CallAsleep, CallQueued True]
    \<and> pool_own_step demo_pool p q \<and> 1 + j \<le> pool_budget 1 1 3
    \<and> (pool_own_step demo_pool ^^ j) q r \<and> (\<forall>r'. \<not> pool_own_step demo_pool r r')
    \<and> (calm r \<longrightarrow> (\<forall>c \<in> set (ps_callers r). call_over (ca_pc c)))"
proof (rule run_pool_cases [OF late_run_view])
  fix p assume p: "pool_reach demo_pool late_cfg 1 1 p"
    "(map ca_pc (ps_callers p), ps_signal p, map (\<lambda>w. (ac_pc (wk_acc w), sh_requests (wk_shared w),
       can_accept_primary (sh_state (wk_shared w)))) (ps_workers p), filter (\<lambda>e. e \<noteq> NotifyOne) (pool_log (ps_workers p))) =
     ([CallQueued False, CallAsleep, CallQueued True], \<lparr>fs_permit = False, fs_futures = [(2, WokenOne), (1, Armed)]\<rparr>,
     [(Selecting, empty_fifo, Some True)], [BuiltPredictor])"
  then have calls: "map ca_pc (ps_callers p) = [CallQueued False, CallAsleep, CallQueued True]"
    and w: "length (ps_workers p) = 1" "ac_pc (wk_acc (ps_workers p ! 0)) = Selecting"
      "sh_requests (wk_shared (ps_workers p ! 0)) = empty_fifo"
    by (auto simp: map_eq_Cons_conv)
  let ?s = "ps_workers p ! 0" and ?W = "pe_worker demo_pool 0"
  obtain ac sh where acts: "acc_step (we_worker ?W) (we_imax ?W) (we_requests ?W) (we_jobs ?W) (AccTimer (ac_next_inf (wk_acc ?s)))
      (wk_acc ?s, wk_shared ?s) = Some (ac, sh)"
    using w by simp
  let ?q = "set_worker (pe_signal demo_pool) 0 (?s\<lparr>wk_acc := ac, wk_shared := sh\<rparr>) p"
  have step: "pool_own_step demo_pool p ?q"
    using w by (intro pool_own_step.acc_acts [OF _ refl refl _ acts]) simp_all
  then have "(pool_own_step demo_pool ^^ 1) p ?q" by (simp only: relpowp_1)
  from pool_comes_to_rest [OF late_pool_model p(1) this] obtain j r
    where "1 + j \<le> pool_budget 1 1 (length (ps_callers p))" "(pool_own_step demo_pool ^^ j) ?q r"
      "\<forall>r'. \<not> pool_own_step demo_pool r r'" "calm r \<longrightarrow> (\<forall>c \<in> set (ps_callers r). call_over (ca_pc c))"
    by blast
  moreover have "length (ps_callers p) = 3"
    using arg_cong [OF calls, of length] by simp
  ultimately show ?thesis
    using calls step by metis
qed

end
