(* ===== verification/Pool_Sound.thy ===== *)
theory Pool_Sound
  imports Pool_Termination
begin

text \<open>
  A pool whose user code is sound: the metrics hooks do not panic, and neither does \<open>predict_batch\<close> on a
  batch of the sizes the library makes, which it answers with one output per input or with an error.
  Then, once the pool serves, nothing goes wrong inside it: no status is stored, no request is dropped
  unless its caller has gone, no caller gets an error of the library's own, and every call ends.
\<close>

definition quiet_hook :: "metrics_hook \<Rightarrow> bool" where
  "quiet_hook obs \<longleftrightarrow> (\<forall>h ev. obs = Some h \<longrightarrow> \<not> h ev)"

text \<open>\<open>G\<close> holds of the predictors the factory builds, and is kept by the calls.\<close>

definition sound_code ::
  "('p \<Rightarrow> bool) \<Rightarrow> nat \<Rightarrow> ('i, 's, 'p, 'f, 'q, 'j, 'o, 'e) worker_env \<Rightarrow> bool" where
  "sound_code G bs W \<longleftrightarrow> quiet_hook (iw_obs (we_worker W)) \<and> quiet_hook (ia_obs (we_args W))
     \<and> (\<forall>k j q. ia_factory (we_args W) k j = Returned (Inr q) \<longrightarrow> G q)
     \<and> (\<forall>q ins. G q \<and> 0 < length ins \<and> length ins \<le> bs \<longrightarrow>
          (\<exists>res q'. ia_predict_batch (we_args W) q ins = Returned (res, q') \<and> G q'
            \<and> (\<forall>outs. res = Inr outs \<longrightarrow> length outs = length ins)))"

text \<open>What may be in the log of a worker then; \<open>gone\<close> tells which callers do not wait any more.\<close>

fun clean_effect :: "('s \<Rightarrow> bool) \<Rightarrow> ('s, 'o, 'e) effect \<Rightarrow> bool" where
  "clean_effect gone (StorePredictor st) \<longleftrightarrow> False"
| "clean_effect gone (Dropped s) \<longleftrightarrow> gone s"
| "clean_effect gone (Reply s (Inl e)) \<longleftrightarrow> (\<exists>err. e = InferenceError err)"
| "clean_effect gone _ \<longleftrightarrow> True"

definition clean :: "('s \<Rightarrow> bool) \<Rightarrow> ('s, 'o, 'e) effect list \<Rightarrow> bool" where
  "clean gone es \<longleftrightarrow> (\<forall>e \<in> set es. clean_effect gone e)"

fun held_predictor :: "('p, 'i, 's) inf_pc \<Rightarrow> 'p option" where
  "held_predictor (InfWaiting q) = Some q"
| "held_predictor (InfPredicting q ins ss) = Some q"
| "held_predictor _ = None"

lemma clean_append [simp]: "clean gone (xs @ ys) \<longleftrightarrow> clean gone xs \<and> clean gone ys"
  by (auto simp: clean_def)

lemma clean_Nil [simp]: "clean gone []"
  by (simp add: clean_def)

lemma clean_Cons [simp]: "clean gone (e # es) \<longleftrightarrow> clean_effect gone e \<and> clean gone es"
  by (auto simp: clean_def)

lemma clean_effect_mono: "clean_effect gone e \<Longrightarrow> (\<And>s. gone s \<Longrightarrow> gone' s) \<Longrightarrow> clean_effect gone' e"
  by (cases "(gone, e)" rule: clean_effect.cases) auto

lemma clean_mono: "clean gone es \<Longrightarrow> (\<And>s. gone s \<Longrightarrow> gone' s) \<Longrightarrow> clean gone' es"
  unfolding clean_def by (blast intro: clean_effect_mono)

lemma clean_no_store: "clean gone es \<Longrightarrow> no_store es"
  by (auto simp: clean_def no_store_def)

lemma clean_maps [simp]:
  "clean gone (map Dropped ss) \<longleftrightarrow> (\<forall>s \<in> set ss. gone s)"
  "clean gone (map (\<lambda>(res, s). Reply s (Inr res)) ps)"
  "clean gone (map (\<lambda>s. Reply s (Inl (InferenceError err))) ss)"
  by (auto simp: clean_def)

lemma quiet_emit:
  assumes "quiet_hook obs"
  shows "\<exists>es. emit_queue_depth obs i n = (es, Returned ()) \<and> clean gone es"
    and "\<exists>es. emit_batch_start obs t n = (es, Returned ()) \<and> clean gone es"
    and "\<exists>es. emit_inference_ok obs m = (es, Returned ()) \<and> clean gone es"
    and "\<exists>es. emit_inference_err obs m = (es, Returned ()) \<and> clean gone es"
  using assms by (auto simp: emit_defs quiet_hook_def split: option.splits)

lemma quiet_send_output:
  assumes "quiet_hook obs" and "\<forall>outs. res = Inr outs \<longrightarrow> length outs = length ss"
  shows "\<exists>es :: ('s, 'o, 'e) effect list. send_output res ss m obs = (es, Returned ()) \<and> clean gone es"
proof -
  obtain ok err where "emit_inference_ok obs m = (ok :: ('s, 'o, 'e) effect list, Returned ())" "clean gone ok"
      "emit_inference_err obs m = (err :: ('s, 'o, 'e) effect list, Returned ())" "clean gone err"
    using quiet_emit(3,4) [OF assms(1)] by metis
  with assms(2) show ?thesis
    by (cases res) (auto simp: send_output_def send_errors_def)
qed

text \<open>A worker that has not failed to start.\<close>

definition clean_worker ::
  "('p \<Rightarrow> bool) \<Rightarrow> ('s \<Rightarrow> bool) \<Rightarrow> ('i, 's, 'p, 'f, 'q, 'j, 'o, 'e) worker_sys \<Rightarrow> bool" where
  "clean_worker G gone s \<longleftrightarrow> (it_pc (wk_inf s) = InfStarting \<or> started s \<longrightarrow>
     clean gone (sh_log (wk_shared s)) \<and> (\<forall>q. held_predictor (it_pc (wk_inf s)) = Some q \<longrightarrow> G q))"

subsection \<open>The steps of a worker\<close>

context worker_model
begin

text \<open>The accumulator while it and its predictor are well.\<close>

lemma acc_step_clean:
  assumes "acc_step worker imax (we_requests W) (we_jobs W) c (ac, sh) = Some c'" and "acc_fine (ac, sh)"
    and "qt (sh_requests sh)" and "jr (sh_jobs sh)" and "clock_in_range imax c" and "quiet_hook (iw_obs worker)"
    and "has_permit (ac_pc ac) \<Longrightarrow> ji (sh_jobs sh) = []" and "jc (sh_jobs sh) = 1"
  shows "\<exists>es. sh_log (snd c') = sh_log sh @ es \<and> clean gone es"
proof -
  have pred: "get_predictor_state (sh_state sh) = Some Alive"
    using assms(2) by (simp add: acc_fine_def alive_byte)
  have sent: "\<exists>es. sh_log (snd (finish_sent worker (we_jobs W) t k (ac1, sh1))) = sh_log sh1 @ es \<and> clean gone es"
    for t k and ac1 :: "('i, 's) acc_task" and sh1 :: "('q, 'j, 's, 'o, 'e) worker_shared"
  proof -
    obtain es where "emit_batch_start (iw_obs worker) t k = (es :: ('s, 'o, 'e) effect list, Returned ())" "clean gone es"
      using quiet_emit(2) [OF assms(6)] by blast
    then show ?thesis by (simp add: finish_sent_def Let_def)
  qed
  show ?thesis
  proof (cases c)
    case (AccRecv now)
    then obtain far where far: "instant_checked_add imax now ONE_YEAR = Some far"
      using assms(5) by auto
    show ?thesis
    proof (cases rule: req.poll_recv_cases [of "sh_requests sh"])
      case (Msg m ms q)
      with assms(1) AccRecv far show ?thesis
        by (cases "ac_pc ac")
          (auto simp: recv_first_def recv_more_def reset_next_inf_def case_prod_unfold split: option.splits)
    qed (use assms(1,3) AccRecv in \<open>cases "ac_pc ac"; auto simp: recv_first_def recv_more_def\<close>)+
  next
    case AccRun
    show ?thesis
    proof (cases "ac_pc ac")
      case (Handoff b t)
      obtain es where es: "emit_queue_depth (iw_obs worker) (iw_worker_id worker)
          (mp_len (we_requests W) (sh_requests sh)) = (es :: ('s, 'o, 'e) effect list, Returned ())" "clean gone es"
        using quiet_emit(1) [OF assms(6)] by blast
      with assms(1) AccRun Handoff sent [of t "buffer_len b" ac "log_effects es (store_worker Running sh)"]
      show ?thesis by (auto simp: start_handoff_def Let_def)
    next
      case (AwaitPermit b t)
      with assms(1,4) AccRun show ?thesis
        by (auto simp: reserve_job_def job.reserve split: if_splits)
    next
      case (SendJob b t)
      then have "ji (sh_jobs sh) = []" using assms(7) by simp
      then obtain j where "mp_permit_send (we_jobs W) b (sh_jobs sh) = ([], j)"
        using assms(4,8) job.permit_send_ok [of "sh_jobs sh" b] by auto
      with assms(1) AccRun SendJob sent [of t "buffer_len b" ac "log_effects [] (sh\<lparr>sh_jobs := j\<rparr>)"]
      show ?thesis by (auto simp: send_job_def)
    qed (use assms(1,2) AccRun pred in
        \<open>auto simp: check_predictor_alive_def use_permit_def acc_fine_def swap_replace_def\<close>)
  qed (use assms(1,2) in \<open>cases "ac_pc ac"; auto simp: acc_fine_def split: if_splits\<close>)+
qed

text \<open>The inference thread, from its start to the end of a batch.\<close>

lemma inf_start_clean:
  assumes "inf_step (we_args W) (we_jobs W) d (th, sh) = Some c'" and "it_pc th = InfStarting"
    and "it_ack th = None" and "it_ack (fst c') = Some (Inr ())" and "sound_code G bs W"
  shows "sh_log (snd c') = sh_log sh @ [BuiltPredictor]"
    and "held_predictor (it_pc (fst c')) = Some q \<Longrightarrow> G q"
proof -
  obtain closed acked where d: "inf_start (we_args W) closed acked (th, sh) = c'"
    using assms(1,2,4) by (cases d) (auto simp: spawn_failed_def split: prod.splits)
  have built: "\<exists>k. ia_factory (we_args W) k (ia_worker_id (we_args W)) = Returned (Inr p)"
    if "spawn_predictor (ia_factory (we_args W)) (ia_worker_id (we_args W)) a bo mw cl (it_trace th) = (Inr p, t)" for a bo mw cl p t
    using spawn_loop_explained [OF that [unfolded spawn_predictor_def]] by (auto simp: explains_def split: if_splits)
  show "sh_log (snd c') = sh_log sh @ [BuiltPredictor]"
    and "held_predictor (it_pc (fst c')) = Some q \<Longrightarrow> G q"
    using d assms(3-5) built
    by (auto simp: inf_start_def Let_def sound_code_def split: prod.splits sum.splits if_splits) blast
qed

lemma inf_step_clean:
  assumes "inf_step (we_args W) (we_jobs W) d (th, sh) = Some c'" and "inf_good A (th, sh)"
    and "jt (sh_jobs sh)" and "serving (it_pc th)" and "\<And>q. held_predictor (it_pc th) = Some q \<Longrightarrow> G q"
    and "sound_code G bs W" and "\<And>g. d = InfReceive g \<Longrightarrow> g = gone"
  shows "\<exists>es. sh_log (snd c') = sh_log sh @ es \<and> clean gone es"
    and "held_predictor (it_pc (fst c')) = Some q \<Longrightarrow> G q"
proof -
  have "(\<exists>es. sh_log (snd c') = sh_log sh @ es \<and> clean gone es) \<and> (\<forall>q. held_predictor (it_pc (fst c')) = Some q \<longrightarrow> G q)"
  proof (cases "it_pc th")
    case (InfWaiting p)
    then have d: "inf_receive (we_jobs W) gone p (th, sh) = Some c'"
      using assms(1,7) by (cases d) auto
    show ?thesis
    proof (cases rule: job.poll_recv_cases [of "sh_jobs sh"])
      case (Msg b bs' j)
      then have "aligned b" using assms(2) by (auto simp: inf_defs)
      then obtain live where "filter_canceled gone b = Some live"
        by (rule filter_canceled_correct)
      with d Msg InfWaiting assms(5) show ?thesis
        by (cases "buffer_is_empty live") (auto simp: inf_receive_def Let_def split_buffer_def)
    qed (use d assms(3) in \<open>auto simp: inf_receive_def\<close>)
  next
    case (InfPredicting p ins ss)
    then obtain latency where d: "inf_predict (we_args W) latency p ins ss (th, sh) = c'"
      using assms(1) by (cases d) auto
    have len: "length ins = length ss" "0 < length ins" "length ins \<le> bs"
      using assms(2) InfPredicting by (auto simp: inf_defs batch_ok_def)
    moreover have "G p" using assms(5) InfPredicting by simp
    ultimately obtain res p' where call: "ia_predict_batch (we_args W) p ins = Returned (res, p')" "G p'"
        "\<forall>outs. res = Inr outs \<longrightarrow> length outs = length ss"
      using assms(6) unfolding sound_code_def by metis
    have "quiet_hook (ia_obs (we_args W))" using assms(6) by (simp add: sound_code_def)
    from quiet_send_output [OF this call(3)] obtain es
      where "send_output res ss \<lparr>im_size = length ins, im_latency = latency\<rparr> (ia_obs (we_args W)) =
        (es :: ('s, 'o, 'e) effect list, Returned ())" "clean gone es" by blast
    with d call show ?thesis
      by (auto simp: inf_predict_def predict_on_batch_def)
  qed (use assms(4) in auto)
  then show "\<exists>es. sh_log (snd c') = sh_log sh @ es \<and> clean gone es"
    and "held_predictor (it_pc (fst c')) = Some q \<Longrightarrow> G q" by auto
qed

lemma clean_worker_well:
  assumes "worker_reach W cfg queue_sz s" and "clean_worker G gone s" and "qt (sh_requests (wk_shared s))"
    and "it_pc (wk_inf s) = InfStarting \<or> started s"
  shows "acc_fine (wk_acc s, wk_shared s)" and "started s \<Longrightarrow> serving (it_pc (wk_inf s))"
proof -
  have "no_store (sh_log (wk_shared s))"
    using assms(2,4) clean_no_store by (auto simp: clean_worker_def)
  with reached_health [OF assms(1)] assms(3,4)
  show "acc_fine (wk_acc s, wk_shared s)" and "started s \<Longrightarrow> serving (it_pc (wk_inf s))"
    by (auto simp: health_inv_def)
qed

lemma acc_keeps_clean:
  assumes "worker_reach W cfg queue_sz s" and "clean_worker G gone s" and "qt (sh_requests (wk_shared s))"
    and "acc_step (we_worker W) (we_imax W) (we_requests W) (we_jobs W) c (wk_acc s, wk_shared s) = Some (ac, sh)"
    and "clock_in_range (we_imax W) c" and "sound_code G bs W"
  shows "clean_worker G gone (s\<lparr>wk_acc := ac, wk_shared := sh\<rparr>)"
proof (cases "it_pc (wk_inf s) = InfStarting \<or> started s")
  case True
  note well = clean_worker_well [OF assms(1-3) True]
  have inv: "sys_inv s" by (rule reach_sys_inv [OF assms(1)])
  have "jr (sh_jobs (wk_shared s))"
    using sys_inv_open(3) [OF inv] True well(2) by (cases "it_pc (wk_inf s)") auto
  moreover have "quiet_hook (iw_obs (we_worker W))"
    using assms(6) by (simp add: sound_code_def)
  moreover have "has_permit (ac_pc (wk_acc s)) \<Longrightarrow> ji (sh_jobs (wk_shared s)) = []" "jc (sh_jobs (wk_shared s)) = 1"
    using inv by (simp_all add: sys_inv_def good_defs)
  ultimately obtain es where "sh_log sh = sh_log (wk_shared s) @ es" "clean gone es"
    using acc_step_clean [OF assms(4) well(1) assms(3) _ assms(5)] by fastforce
  with True assms(2) show ?thesis
    by (simp add: clean_worker_def started_def)
qed (simp add: clean_worker_def started_def)

lemma inf_keeps_clean:
  assumes "worker_reach W cfg queue_sz s" and "clean_worker G gone s" and "qt (sh_requests (wk_shared s))"
    and "inf_step (we_args W) (we_jobs W) d (wk_inf s, wk_shared s) = Some (th, sh)"
    and "\<And>g. d = InfReceive g \<Longrightarrow> g = gone" and "sound_code G bs W"
  shows "clean_worker G gone (s\<lparr>wk_inf := th, wk_shared := sh\<rparr>)"
proof (cases "it_pc (wk_inf s) = InfStarting")
  case True
  have ack: "it_ack (wk_inf s) = None"
    using reached_health [OF assms(1)] True by (simp add: health_inv_def)
  have "it_pc th \<noteq> InfStarting"
    using inf_start_fine(1) [OF assms(4) True ack] by simp
  moreover have "sh_log sh = sh_log (wk_shared s) @ [BuiltPredictor] \<and> (\<forall>q. held_predictor (it_pc th) = Some q \<longrightarrow> G q)"
    if "it_ack th = Some (Inr ())"
    using inf_start_clean [OF assms(4) True ack _ assms(6)] that by simp
  ultimately show ?thesis
    using True assms(2) by (auto simp: clean_worker_def started_def)
next
  case False
  note ack = inf_step_ack [OF assms(4) False]
  show ?thesis
  proof (cases "started s")
    case True
    note well = clean_worker_well [OF assms(1-3)]
    have inv: "sys_inv s" by (rule reach_sys_inv [OF assms(1)])
    have "jt (sh_jobs (wk_shared s))"
      using sys_inv_open(1) [OF inv] well(1) True by (simp add: acc_fine_def)
    moreover have "inf_good (set (wk_accepted s)) (wk_inf s, wk_shared s)"
      using inv by (simp add: sys_inv_def)
    moreover have "G q" if "held_predictor (it_pc (wk_inf s)) = Some q" for q
      using that True assms(2) by (simp add: clean_worker_def)
    ultimately have "\<exists>es. sh_log sh = sh_log (wk_shared s) @ es \<and> clean gone es"
        "\<forall>q. held_predictor (it_pc th) = Some q \<longrightarrow> G q"
      using inf_step_clean [OF assms(4) _ _ well(2) _ assms(6,5)] True by simp_all
    with True assms(2) show ?thesis
      by (auto simp: clean_worker_def)
  next
    case unstarted: False
    then show ?thesis
      using False ack by (simp add: clean_worker_def started_def)
  qed
qed

end

subsection \<open>The pool\<close>

text \<open>The errors a call can have returned.\<close>

fun kept :: "('m, 'o, 'e) caller_pc \<Rightarrow> bool" where
  "kept (CallReturned b (Inl e)) \<longleftrightarrow> e = QueueFullError \<or> (\<exists>err. e = InferenceError err)"
| "kept _ \<longleftrightarrow> True"

lemma sender_gone_move:
  assumes "k < length cs" and "sender_gone cs s" and "call_over (ca_pc (cs ! k)) \<Longrightarrow> call_over pc"
  shows "sender_gone (cs[k := (cs ! k)\<lparr>ca_pc := pc\<rparr>]) s"
proof -
  obtain j where j: "j < length cs" "ca_sender (cs ! j) = s" "call_over (ca_pc (cs ! j))"
    using assms(2) by (auto simp: sender_gone_def in_set_conv_nth)
  let ?cs = "cs[k := (cs ! k)\<lparr>ca_pc := pc\<rparr>]"
  have "?cs ! j \<in> set ?cs" using j(1) by (intro nth_mem) simp
  moreover have "ca_sender (?cs ! j) = s \<and> call_over (ca_pc (?cs ! j))"
    using j assms(1,3) by (cases "j = k") auto
  ultimately show ?thesis by (auto simp: sender_gone_def)
qed

lemma outcome_of_Received: "outcome_of s es = Some (Received r) \<Longrightarrow> Reply s r \<in> set es"
  by (induction s es rule: outcome_of.induct) (auto split: if_splits)

lemma outcome_of_RecvError: "outcome_of s es = Some RecvError \<Longrightarrow> Dropped s \<in> set es"
  by (induction s es rule: outcome_of.induct) (auto split: if_splits)

lemma clean_worker_mono:
  "clean_worker G gone s \<Longrightarrow> (\<And>x. gone x \<Longrightarrow> gone' x) \<Longrightarrow> clean_worker G gone' s"
  by (auto simp: clean_worker_def intro: clean_mono)

lemma clean_worker_after [simp]: "clean_worker G gone (worker_after sent w s) = clean_worker G gone s"
  by (simp add: clean_worker_def worker_after_def started_def)

context pool_model
begin

definition clean_inv :: "('p \<Rightarrow> bool) \<Rightarrow> ('i, 's, 'p, 'f, 'q, 'j, 'o, 'e, 'n) pool_sys \<Rightarrow> bool" where
  "clean_inv G p \<longleftrightarrow>
     (ps_phase p \<noteq> PoolClosed \<longrightarrow> (\<forall>w \<in> set (ps_workers p). clean_worker G (sender_gone (ps_callers p)) w))
     \<and> (\<forall>pc \<in> set (map ca_pc (ps_callers p)). kept pc)"

lemma clean_calm:
  assumes "clean_inv G p" and "pool_inv p" and "wake_inv p" and "ps_phase p = PoolServing"
  shows "calm p" and "clean (sender_gone (ps_callers p)) (pool_log (ps_workers p))"
proof -
  have "clean (sender_gone (ps_callers p)) (sh_log (wk_shared w))" if "w \<in> set (ps_workers p)" for w
    using assms that by (fastforce simp: clean_inv_def wake_inv_def pool_inv_defs in_set_conv_nth clean_worker_def)
  then show log: "clean (sender_gone (ps_callers p)) (pool_log (ps_workers p))"
    by (auto simp: clean_def pool_log_def)
  show "calm p"
    unfolding calm_def by (rule clean_no_store [OF log])
qed

lemma set_worker_clean:
  assumes "pool_inv p" and "clean_inv G p" and "i < n"
    and "ps_phase p \<noteq> PoolClosed \<Longrightarrow> clean_worker G (sender_gone (ps_callers p)) (ps_workers p ! i)
      \<Longrightarrow> qt (sh_requests (wk_shared (ps_workers p ! i))) \<Longrightarrow> clean_worker G (sender_gone (ps_callers p)) t"
  shows "clean_inv G (set_worker N i t p)"
proof -
  have len: "length (ps_workers p) = n" using assms(1) by (simp add: pool_inv_defs)
  have "ps_phase p \<noteq> PoolClosed \<Longrightarrow> clean_worker G (sender_gone (ps_callers p)) t"
    using assms len by (simp add: clean_inv_def pool_inv_defs)
  then show ?thesis
    using assms(2) set_update_subset_insert [of "ps_workers p" i t]
    by (auto simp: clean_inv_def set_worker_def)
qed

lemma set_call_clean:
  assumes "clean_inv G p" and "k < length (ps_callers p)" and "ps_callers p1 = ps_callers p" and "ps_phase p1 = ps_phase p"
    and "\<And>g. \<forall>w \<in> set (ps_workers p). clean_worker G g w \<Longrightarrow> \<forall>w \<in> set (ps_workers p1). clean_worker G g w"
    and "\<not> call_over (ca_pc (ps_callers p ! k))" and "kept pc"
  shows "clean_inv G (set_call k pc p1)"
proof -
  let ?cs = "ps_callers (set_call k pc p1)"
  have cs: "?cs = (ps_callers p)[k := (ps_callers p ! k)\<lparr>ca_pc := pc\<rparr>]"
    using assms(3) by (simp add: set_call_def)
  have mono: "sender_gone (ps_callers p) s \<Longrightarrow> sender_gone ?cs s" for s
    unfolding cs using sender_gone_move [OF assms(2)] assms(6) by blast
  have "\<forall>w \<in> set (ps_workers p1). clean_worker G (sender_gone ?cs) w" if "ps_phase p \<noteq> PoolClosed"
  proof (rule assms(5), intro ballI)
    fix w assume "w \<in> set (ps_workers p)"
    with that assms(1) have "clean_worker G (sender_gone (ps_callers p)) w" by (simp add: clean_inv_def)
    then show "clean_worker G (sender_gone ?cs) w" by (rule clean_worker_mono) (rule mono)
  qed
  moreover have "\<forall>pc' \<in> set (map ca_pc ?cs). kept pc'"
    using assms(1,3,7) set_update_subset_insert [of "map ca_pc (ps_callers p)" k pc]
    unfolding clean_inv_def set_call_fields assms(3) by blast
  ultimately show ?thesis
    using assms(4) by (simp add: clean_inv_def)
qed

lemma call_step_clean:
  assumes "pool_inv p" and "wake_inv p" and "clean_inv G p" and "k < length (ps_callers p)"
    and "call_step P k p = Some p'"
  shows "clean_inv G p'"
proof -
  let ?c = "ps_callers p ! k"
  have len: "length (ps_workers p) = n" using assms(1) by (simp add: pool_inv_defs)
  have c: "?c \<in> set (ps_callers p)" using assms(4) by simp
  have not_over: "\<not> call_over (ca_pc ?c)"
    using assms(5) by (cases "ca_pc ?c") (auto simp: call_step_def)
  have phase: "ps_phase p = PoolServing"
    using assms(1) c not_over by (cases "ps_phase p") (auto simp: pool_inv_defs)
  note calm = clean_calm [OF assms(3,1,2) phase]
  note move = set_call_clean [OF assms(3,4) _ _ _ not_over]
  have ok: "call_ok (ps_workers p) (ca_msg ?c) (ca_waits ?c) (ca_pc ?c)"
    using assms(1) c by (auto simp: pool_inv_defs caller_ok_def)
  show ?thesis
  proof (cases "ca_pc ?c")
    case (CallBegin reg)
    then show ?thesis
      using assms(5) by (auto simp: call_step_def split: prod.splits intro!: move)
  next
    case (CallRouting reg pc)
    have p': "p' = route_call P k reg pc p"
      using assms(5) CallRouting by (simp add: call_step_def)
    show ?thesis
    proof (cases "route_target pc")
      case (Some i)
      then have i: "i < length (ps_workers p)" using ok CallRouting by (cases pc) auto
      have same: "\<forall>w \<in> set ((ps_workers p)[i := worker_after sent w' (ps_workers p ! i)]). clean_worker G g w"
        if all: "\<forall>w \<in> set (ps_workers p). clean_worker G g w" for sent w' g
      proof -
        have "clean_worker G g (worker_after sent w' (ps_workers p ! i))"
          using all i by simp
        then show ?thesis
          using all set_update_subset_insert [of "ps_workers p" i] by blast
      qed
      show ?thesis
        using Some i same by (auto simp: p' route_call_def Let_def split: prod.splits intro!: move)
    next
      case None
      then obtain r where pc: "pc = Routed r"
        using ok CallRouting by (cases pc) auto
      let ?next = "call_routed (ca_waits ?c) reg r :: ('i \<times> 's, 'o, 'e) caller_pc"
      have "call_calm (ca_pc ?c)"
        using assms(2) phase calm(1) c by (simp add: wake_inv_def)
      then have "kept ?next"
        using CallRouting pc by (cases "(ca_waits ?c, reg, r)" rule: call_routed.cases) auto
      then have "clean_inv G (set_call k ?next (drop_future (pe_signal P) (reg \<and> call_over ?next) k p))"
        by (intro move) simp_all
      then show ?thesis
        by (simp add: p' pc route_call_def Let_def)
    qed
  next
    case (CallQueued reg)
    then obtain out where out: "reply_of (ca_sender ?c) (ps_workers p) = Some out"
      and p': "p' = set_call k (CallReturned True (await_reply out)) (drop_future (pe_signal P) reg k p)"
      using assms(5) by (auto simp: call_step_def split: option.splits)
    have "kept (CallReturned True (await_reply out) :: ('i \<times> 's, 'o, 'e) caller_pc)"
    proof (cases out)
      case (Received r)
      then have "Reply (ca_sender ?c) r \<in> set (pool_log (ps_workers p))"
        using outcome_of_Received out by (simp add: reply_of_def)
      then have "clean_effect (sender_gone (ps_callers p)) (Reply (ca_sender ?c) r)"
        using calm(2) by (simp add: clean_def)
      then show ?thesis
        using Received by (cases r) auto
    next
      case RecvError
      then have "Dropped (ca_sender ?c) \<in> set (pool_log (ps_workers p))"
        using outcome_of_RecvError out by (simp add: reply_of_def)
      then have "sender_gone (ps_callers p) (ca_sender ?c)"
        using calm(2) by (auto simp: clean_def)
      then obtain c' where c': "c' \<in> set (ps_callers p)" "ca_sender c' = ca_sender ?c" "call_over (ca_pc c')"
        by (auto simp: sender_gone_def)
      then have "c' = ?c"
        using assms(1) c by (auto simp: pool_inv_defs distinct_map dest: inj_onD)
      with c' not_over show ?thesis by simp
    qed
    then show ?thesis
      unfolding p' by (intro move) simp_all
  qed (use assms(5) in \<open>auto simp: call_step_def split: if_splits intro!: move\<close>)
qed

lemma step_clean:
  assumes "\<And>i. i < n \<Longrightarrow> sound_code G bs (pe_worker P i)"
    and "pool_inv p" and "wake_inv p" and "clean_inv G p" and "pool_step P p p'"
  shows "clean_inv G p'"
proof -
  have len: "length (ps_workers p) = n" using assms(2) by (simp add: pool_inv_defs)
  note reach = reached_worker [OF assms(2)]
  from assms(5) show ?thesis
  proof (cases rule: pool_step.cases)
    case own
    then show ?thesis
    proof (cases rule: pool_own_step.cases)
      case (acc_acts i W s c ac sh)
      then have i: "i < n" using len by simp
      show ?thesis
        unfolding acc_acts(1)
        by (rule set_worker_clean [OF assms(2,4) i])
          (use worker_model.acc_keeps_clean [OF workers [OF i] reach [OF i] _ _ _ _ assms(1) [OF i]] acc_acts in simp)
    next
      case (inf_acts i W s d th sh)
      then have i: "i < n" using len by simp
      have "g = sender_gone (ps_callers p)" if "inf_answer (ps_phase p) (sender_gone (ps_callers p)) d = InfReceive g" for g
        using that by (cases d) auto
      then show ?thesis
        unfolding inf_acts(1)
        by (intro set_worker_clean [OF assms(2,4) i])
          (use worker_model.inf_keeps_clean [OF workers [OF i] reach [OF i] _ _ _ _ assms(1) [OF i]] inf_acts in simp)
    next
      case (caller_acts k)
      show ?thesis by (rule call_step_clean [OF assms(2-4) caller_acts])
    qed
  next
    case serves
    with assms(4) show ?thesis by (simp add: clean_inv_def)
  next
    case (arrives tx inp waits)
    have "sender_gone (ps_callers p @ [\<lparr>ca_input = inp, ca_sender = tx, ca_waits = waits, ca_pc = CallBegin False\<rparr>]) =
        sender_gone (ps_callers p)"
      by (auto simp: sender_gone_def fun_eq_iff)
    with assms(4) arrives show ?thesis by (simp add: clean_inv_def)
  next
    case (cancelled k)
    then have "\<not> call_over (ca_pc (ps_callers p ! k))"
      by (cases "ca_pc (ps_callers p ! k)") (auto simp: cancel_call_def)
    then show ?thesis
      using cancelled set_call_clean [OF assms(4) cancelled(1)]
      by (auto simp: cancel_call_def split: caller_pc.splits)
  next
    case closes
    with assms(4) show ?thesis by (simp add: clean_inv_def)
  qed
qed

lemma start_clean: "pool_start P cfg queue_sz n p \<Longrightarrow> clean_inv G p"
  by (fastforce simp: pool_start_def clean_inv_def clean_worker_def worker_start_def new_worker_sys_def new_inf_thread_def
      in_set_conv_nth)

lemma reach_clean:
  assumes "\<And>i. i < n \<Longrightarrow> sound_code G bs (pe_worker P i)" and "pool_reach P cfg queue_sz n p"
  shows "clean_inv G p"
  using assms(2)
  by (induction rule: reach.induct)
    (auto intro: start_clean step_clean [OF assms(1)] reach_pool_inv reach_wake)

lemma sound_stuck_calls:
  assumes "\<And>i. i < n \<Longrightarrow> sound_code G bs (pe_worker P i)" and "pool_reach P cfg queue_sz n p"
    and "\<forall>p'. \<not> pool_own_step P p p'"
  shows "\<forall>c \<in> set (ps_callers p). call_over (ca_pc c)"
proof (cases "ps_phase p")
  case PoolServing
  then have "calm p"
    using clean_calm [OF reach_clean [OF assms(1,2)] reach_pool_inv reach_wake] assms(2) by blast
  with calm_stuck_calls [OF assms(2)] assms(3) show ?thesis by blast
qed (use reach_pool_inv [OF assms(2)] in \<open>auto simp: pool_inv_defs\<close>)

end

subsection \<open>A sound pool to run\<close>

text \<open>The predictor of \<open>demo_pool\<close>, without its panic: it refuses batches that hold a zero.\<close>

definition sound_args :: "(unit, nat, nat, nat, nat) inf_args" where
  "sound_args = demo_args\<lparr>ia_predict_batch :=
     (\<lambda>p ins. Returned (if 0 \<in> set ins then Inl 7 else Inr (map (\<lambda>x. 2 * x) ins), p))\<rparr>"

definition sound_pool ::
  "(nat, nat, unit, nat, (nat \<times> nat) fifo, (nat, nat) worker_buffer fifo, nat, nat, fifo_signal) pool_env" where
  "sound_pool = fifo_pool (10 ^ 30) sound_args"

lemma sound_pool_parts:
  "we_requests (pe_worker sound_pool i) = fifo_mpsc" "we_jobs (pe_worker sound_pool i) = fifo_mpsc"
  "we_imax (pe_worker sound_pool i) = 10 ^ 30" "we_args (pe_worker sound_pool i) = sound_args"
  "iw_obs (we_worker (pe_worker sound_pool i)) = None" "pe_signal sound_pool = fifo_notify"
  by (simp_all add: sound_pool_def fifo_pool_def fifo_env_def)

lemma sound_args_parts:
  "ia_factory sound_args k j = Returned (Inr ())"
  "ia_predict_batch sound_args q ins = Returned (if 0 \<in> set ins then Inl 7 else Inr (map (\<lambda>x. 2 * x) ins), q)"
  "ia_retries sound_args = 0" "ia_obs sound_args = None"
  by (simp_all add: sound_args_def demo_args_def)

lemma sound_pool_model:
  "pool_model sound_pool fs_permit (\<lambda>s. map_of (fs_futures s)) ff_items ff_cap ff_rx ff_tx ff_items ff_cap ff_rx ff_tx
     demo_cfg 1 2"
  unfolding sound_pool_def
  by (rule fifo_pool_model)
    (simp_all add: demo_cfg_def instant_checked_add_def ONE_YEAR_def duration_simps)

lemma sound_pool_sound: "sound_code (\<lambda>_. True) bs (pe_worker sound_pool i)"
  by (auto simp: sound_code_def quiet_hook_def sound_pool_parts sound_args_parts)

lemma sound_call_arrives:
  "map_option ps_callers (run_pool sound_pool (pool_up @ [PoolArrive 6 2 True]) (new_pool sound_pool demo_cfg 1 2)) =
   Some [\<lparr>ca_input = 6, ca_sender = 2, ca_waits = True, ca_pc = CallBegin False\<rparr>]"
  by (simp add: pool_up_def demo_cfg_def sound_pool_parts sound_args_parts pool_run_defs Let_def duration_simps)

lemma sound_call_refused:
  "map_option ps_callers (run_pool sound_pool (one_call 0 2 @ [PoolCall 0]) (new_pool sound_pool demo_cfg 1 2)) =
   Some [\<lparr>ca_input = 0, ca_sender = 2, ca_waits = True, ca_pc = CallReturned True (Inl (InferenceError 7))\<rparr>]"
  by (simp add: one_call_def pool_up_def demo_cfg_def sound_pool_parts sound_args_parts pool_run_defs Let_def duration_simps)

subsection \<open>Properties\<close>

text \<open>C3: With sound user code a pool answers every call. For every pool whose hooks do not panic and
  whose predictors answer batches within the batch size with one output per input or an error, every
  number of calls, every interleaving and cancellation: a call that has returned either returned the
  output computed for its own input, or an error that its predictor returned for a batch with its
  request, or was a \<open>try_predict\<close> that found no room. No call is told that no worker is available, that
  something failed inside the library, or that the predictor's output was invalid.\<close>

theorem sound_pool_answers_calls:
  assumes "pool_model P permit fut qi qc qr qt ji jc jr jt cfg queue_sz n"
    and "\<And>i. i < n \<Longrightarrow> sound_code G (unat (ic_batch_size cfg)) (pe_worker P i)"
    and "pool_reach P cfg queue_sz n p" and "c \<in> set (ps_callers p)" and "ca_pc c = CallReturned b r"
  shows "case r of
      Inr out \<Rightarrow> \<exists>i < n. \<exists>q q' ins outs k. ia_predict_batch (we_args (pe_worker P i)) q ins = Returned (Inr outs, q')
        \<and> 0 < length ins \<and> length ins \<le> unat (ic_batch_size cfg) \<and> length outs = length ins
        \<and> k < length ins \<and> ins ! k = ca_input c \<and> outs ! k = out
    | Inl e \<Rightarrow> e = QueueFullError \<and> \<not> b \<and> \<not> ca_waits c
        \<or> (\<exists>err. e = InferenceError err \<and> b \<and> (\<exists>i < n. \<exists>q q' ps.
            ia_predict_batch (we_args (pe_worker P i)) q (map fst ps) = Returned (Inl err, q')
            \<and> length ps \<le> unat (ic_batch_size cfg) \<and> ca_msg c \<in> set ps))"
proof -
  have inv: "pool_model.pool_inv P qt cfg queue_sz n p"
    by (rule pool_model.reach_pool_inv [OF assms(1,3)])
  show ?thesis
  proof (cases r)
    case (Inl e)
    have "kept (ca_pc c)"
      using pool_model.reach_clean [OF assms(1-3)] assms(4) by (simp add: pool_model.clean_inv_def [OF assms(1)])
    then have "e = QueueFullError \<or> (\<exists>err. e = InferenceError err)"
      using assms(5) Inl by simp
    with pool_model.returned_error [OF assms(1) inv assms(4) assms(5) [unfolded Inl]] show ?thesis
      by (auto simp: Inl)
  next
    case (Inr out)
    with pool_model.returned_output [OF assms(1) inv assms(4) assms(5) [unfolded Inr]] Inr show ?thesis by simp
  qed
qed

theorem sound_pool_answers_calls_witness:
  "\<exists>p c. pool_reach sound_pool demo_cfg 1 2 p \<and> c \<in> set (ps_callers p)
    \<and> ca_pc c = CallReturned True (Inl (InferenceError 7))
    \<and> (\<exists>q q' ps. ia_predict_batch sound_args q (map fst ps) = Returned (Inl 7, q') \<and> ca_msg c \<in> set ps)"
proof (rule run_pool_cases [OF sound_call_refused])
  fix p assume p: "pool_reach sound_pool demo_cfg 1 2 p" "ps_callers p =
      [\<lparr>ca_input = 0, ca_sender = 2, ca_waits = True, ca_pc = CallReturned True (Inl (InferenceError 7))\<rparr>]"
  let ?c = "ps_callers p ! 0"
  have c: "?c \<in> set (ps_callers p)" "ca_pc ?c = CallReturned True (Inl (InferenceError 7))"
    using p(2) by simp_all
  from sound_pool_answers_calls [OF sound_pool_model sound_pool_sound p(1) c] c p(1) show ?thesis
    by (auto simp: sound_pool_parts)
qed

text \<open>C4: And it answers in bounded time. From every reachable state of such a pool, whatever its
  threads and calls have done since, they can go on to a state in which every call has ended, within
  \<open>pool_budget\<close> steps in all; so no call waits for ever, neither for its reply nor for room.\<close>

theorem sound_pool_ends_calls:
  assumes "pool_model P permit fut qi qc qr qt ji jc jr jt cfg queue_sz n"
    and "\<And>i. i < n \<Longrightarrow> sound_code G (unat (ic_batch_size cfg)) (pe_worker P i)"
    and "pool_reach P cfg queue_sz n p" and "(pool_own_step P ^^ k) p q"
  shows "\<exists>j r. k + j \<le> pool_budget n queue_sz (length (ps_callers p)) \<and> (pool_own_step P ^^ j) q r
    \<and> (\<forall>c \<in> set (ps_callers r). call_over (ca_pc c))"
proof -
  note own = pool_model.own_pool_steps [OF assms(1)]
  have q: "pool_reach P cfg queue_sz n q" using own [OF assms(3,4)] by simp
  with pool_model.comes_to_rest [OF assms(1)] obtain j r
    where r: "(pool_own_step P ^^ j) q r" "\<forall>r'. \<not> pool_own_step P r r'" by blast
  have reach: "pool_reach P cfg queue_sz n r" using own [OF q r(1)] by simp
  have "k + j \<le> pool_budget n queue_sz (length (ps_callers p))"
    using own [OF assms(3,4)] own [OF q r(1)] pool_model.pool_measure_le [OF assms(1,3)] by linarith
  with pool_model.sound_stuck_calls [OF assms(1,2) reach] r show ?thesis by blast
qed

theorem sound_pool_ends_calls_witness:
  "\<exists>p j r. map ca_pc (ps_callers p) = [CallBegin False] \<and> j \<le> pool_budget 2 1 1
    \<and> (pool_own_step sound_pool ^^ j) p r \<and> (\<forall>c \<in> set (ps_callers r). call_over (ca_pc c))"
proof (rule run_pool_cases [OF sound_call_arrives])
  fix p assume p: "pool_reach sound_pool demo_cfg 1 2 p"
    "ps_callers p = [\<lparr>ca_input = 6, ca_sender = 2, ca_waits = True, ca_pc = CallBegin False\<rparr>]"
  have "(pool_own_step sound_pool ^^ 0) p p" by simp
  from sound_pool_ends_calls [OF sound_pool_model sound_pool_sound p(1) this] obtain j r
    where "j \<le> pool_budget 2 1 1" "(pool_own_step sound_pool ^^ j) p r" "\<forall>c \<in> set (ps_callers r). call_over (ca_pc c)"
    using p(2) by auto
  moreover have "map ca_pc (ps_callers p) = [CallBegin False]" using p(2) by simp
  ultimately show ?thesis by metis
qed

end
