(* ===== verification/Batcher.thy ===== *)
theory Batcher
  imports Worker_Pool Dispatch
begin

text \<open>
  The handle callers use (\<open>src/batcher/mod.rs\<close>): submitting a request with \<open>try_predict\<close>,
  \<open>blocking_try_predict\<close>, \<open>predict\<close> and \<open>predict_with_timeout\<close>.

  A request method runs on the caller's side; everything else is an answer of the environment.
  Each call of \<open>try_push\<close> has its own interference, and \<open>predict\<close> sleeps between two attempts until
  a notification: a \<open>wake_up\<close> holds what happened to the pool in the meantime and the interference
  during the next attempt. The list of wake-ups is finite, and with none left the caller is still
  asleep. \<open>reply\<close> is what its receiver has yielded, if anything.
\<close>

datatype 'a poll = Ready 'a | Pending

record 'q wake_up =
  wu_meanwhile :: "'q worker_pool \<Rightarrow> 'q worker_pool"
  wu_env :: "'q interference"

datatype 'e submit = Submitted | Refused "'e batchinf_error" | Asleep

text \<open>\<open>rx.await?\<close> after a submission.\<close>

fun await_submit :: "'e submit \<Rightarrow> ('o, 'e) reply oneshot_outcome option \<Rightarrow> ('o, 'e) reply poll" where
  "await_submit Submitted (Some out) = Ready (await_reply out)"
| "await_submit Submitted None = Pending"
| "await_submit (Refused e) _ = Ready (Inl e)"
| "await_submit Asleep _ = Pending"

definition try_predict ::
  "('q, 'i \<times> 's) mpsc \<Rightarrow> 'q interference \<Rightarrow> 'q worker_pool \<Rightarrow> 'i \<Rightarrow> 's
     \<Rightarrow> ('o, 'e) reply oneshot_outcome option \<Rightarrow> (('o, 'e) reply poll \<times> 'q worker_pool) option" where
  "try_predict Q env p input tx reply =
     (case pool_push Q env p (input, tx) of
        None \<Rightarrow> None
      | Some (Inl e, p') \<Rightarrow> Some (await_submit (Refused e) reply, p')
      | Some (Inr _, p') \<Rightarrow> Some (await_submit Submitted reply, p'))"

text \<open>Its blocking counterpart panics inside an asynchronous context, once the request is queued.\<close>

definition blocking_try_predict ::
  "bool \<Rightarrow> ('q, 'i \<times> 's) mpsc \<Rightarrow> 'q interference \<Rightarrow> 'q worker_pool \<Rightarrow> 'i \<Rightarrow> 's
     \<Rightarrow> ('o, 'e) reply oneshot_outcome option \<Rightarrow> (('o, 'e) reply poll \<times> 'q worker_pool) option" where
  "blocking_try_predict in_async Q env p input tx reply =
     (case pool_push Q env p (input, tx) of
        None \<Rightarrow> None
      | Some (Inl e, p') \<Rightarrow> Some (await_submit (Refused e) reply, p')
      | Some (Inr _, p') \<Rightarrow> (if in_async then None else Some (await_submit Submitted reply, p')))"

text \<open>One attempt of \<open>predict\<close>: submitted, or the message handed back for the next attempt, or an
  error.\<close>

definition attempt ::
  "('q, 'm) mpsc \<Rightarrow> 'q interference \<Rightarrow> 'q worker_pool \<Rightarrow> 'm \<Rightarrow> (('e submit + 'm) \<times> 'q worker_pool) option" where
  "attempt Q env p msg =
     (case try_push Q env p msg of
        None \<Rightarrow> None
      | Some (Inr _, p') \<Rightarrow> Some (Inl Submitted, p')
      | Some (Inl (m, QueueFullError), p') \<Rightarrow> Some (Inr m, p')
      | Some (Inl (_, err), p') \<Rightarrow> Some (Inl (Refused err), p'))"

text \<open>The loop of \<open>predict\<close>: an attempt with the notification already enabled, then the sleep.\<close>

fun predict_loop ::
  "('q, 'm) mpsc \<Rightarrow> 'q interference \<Rightarrow> 'q wake_up list \<Rightarrow> 'q worker_pool \<Rightarrow> 'm
     \<Rightarrow> ('e submit \<times> 'q worker_pool) option" where
  "predict_loop Q env wakes p msg =
     (case attempt Q env p msg of
        None \<Rightarrow> None
      | Some (Inl r, p') \<Rightarrow> Some (r, p')
      | Some (Inr m, p') \<Rightarrow>
          (case wakes of
             [] \<Rightarrow> Some (Asleep, p')
           | w # ws \<Rightarrow> predict_loop Q (wu_env w) ws (wu_meanwhile w p') m))"

definition predict ::
  "('q, 'i \<times> 's) mpsc \<Rightarrow> 'q interference \<Rightarrow> 'q wake_up \<Rightarrow> 'q wake_up list \<Rightarrow> 'q worker_pool \<Rightarrow> 'i \<Rightarrow> 's
     \<Rightarrow> ('o, 'e) reply oneshot_outcome option \<Rightarrow> (('o, 'e) reply poll \<times> 'q worker_pool) option" where
  "predict Q env first wakes p input tx reply =
     (case attempt Q env p (input, tx) of
        None \<Rightarrow> None
      | Some (Inl r, p') \<Rightarrow> Some (await_submit r reply, p')
      | Some (Inr msg, p') \<Rightarrow>
          map_option (\<lambda>(r, p''). (await_submit r reply, p''))
            (predict_loop Q (wu_env first) wakes (wu_meanwhile first p') msg))"

definition emit_timeout :: "metrics_hook \<Rightarrow> ('s, 'o, 'e, unit) run" where
  "emit_timeout obs = (case obs of Some h \<Rightarrow> call_hook h on_request_timeout | None \<Rightarrow> ([], Returned ()))"

text \<open>The \<open>select!\<close>: a result of \<open>predict\<close> that is ready may win, and the timeout may win once it has
  elapsed. \<open>None\<close> is a panic (of the hook).\<close>

definition predict_with_timeout ::
  "metrics_hook \<Rightarrow> bool \<Rightarrow> bool \<Rightarrow> ('o, 'e) reply poll
     \<Rightarrow> (('s, 'o, 'e) effect list \<times> ('o, 'e) reply poll) unwind" where
  "predict_with_timeout obs elapsed timer_first res =
     (let by_timer = (case emit_timeout obs of
            (es, Returned _) \<Rightarrow> Returned (es, Ready (Inl TimeoutError))
          | (es, Panicked) \<Rightarrow> Panicked)
      in case res of
           Ready r \<Rightarrow> if elapsed \<and> timer_first then by_timer else Returned ([], Ready r)
         | Pending \<Rightarrow> if elapsed then by_timer else Returned ([], Pending))"

subsection \<open>What a caller can get\<close>

text \<open>Other threads keep the pool's size and store valid status codes only.\<close>

definition pool_live :: "'q worker_pool \<Rightarrow> bool" where
  "pool_live p \<longleftrightarrow> pool_ok (wp_pool p) \<and> wp_pool p \<noteq> []"

definition wake_ok :: "'q wake_up \<Rightarrow> bool" where
  "wake_ok w \<longleftrightarrow> env_ok (wu_env w) \<and> (\<forall>p. pool_live p \<longrightarrow> pool_live (wu_meanwhile w p))"

context mpsc_channel
begin

lemma attempt_outcome:
  fixes p :: "'q worker_pool"
  assumes "env_ok env" and "pool_live p"
  shows "\<exists>(r :: 'e submit + 'm) p'. attempt Q env p msg = Some (r, p') \<and> pool_live p'
    \<and> (r = Inl Submitted \<or> r = Inl (Refused NoAvailableWorkersError) \<or> r = Inr msg)"
proof -
  obtain r p' where pushed: "try_push Q env p msg = Some (r :: ('m, 'e) try_push_result, p')"
    and "pool_ok (wp_pool p')" "length (wp_pool p') = length (wp_pool p)"
    and r: "r = Inr () \<or> r = Inl (msg, QueueFullError) \<or> r = Inl (msg, NoAvailableWorkersError)"
    using try_push_safe [of env p msg] assms unfolding pool_live_def by blast
  then have "pool_live p'"
    using assms(2) by (auto simp: pool_live_def)
  with pushed r show ?thesis
    by (auto simp: attempt_def)
qed

lemma predict_loop_outcome:
  fixes p :: "'q worker_pool"
  assumes "env_ok env" and "\<forall>w \<in> set wakes. wake_ok w" and "pool_live p"
  shows "\<exists>(r :: 'e submit) p'. predict_loop Q env wakes p msg = Some (r, p')
    \<and> (r = Submitted \<or> r = Asleep \<or> r = Refused NoAvailableWorkersError)"
  using assms
proof (induction wakes arbitrary: env p)
  case Nil
  obtain r p' where "attempt Q env p msg = Some (r :: 'e submit + 'm, p')"
      "r = Inl Submitted \<or> r = Inl (Refused NoAvailableWorkersError) \<or> r = Inr msg"
    using attempt_outcome [OF Nil.prems(1,3)] by blast
  then show ?case by auto
next
  case (Cons w ws)
  have w: "env_ok (wu_env w)" "\<And>q. pool_live q \<Longrightarrow> pool_live (wu_meanwhile w q)"
    using Cons.prems(2) by (auto simp: wake_ok_def)
  obtain r p' where "attempt Q env p msg = Some (r :: 'e submit + 'm, p')" "pool_live p'"
      "r = Inl Submitted \<or> r = Inl (Refused NoAvailableWorkersError) \<or> r = Inr msg"
    using attempt_outcome [OF Cons.prems(1,3)] by blast
  with Cons.IH [OF w(1) _ w(2)] Cons.prems(2) show ?case by auto
qed

end

subsection \<open>Properties\<close>

text \<open>What the receiver of a sender can yield: what a worker sends to it for a batch, what it sends when the
  predictor has crashed, or nothing, when its sender is dropped.\<close>

inductive worker_yields :: "'s \<Rightarrow> ('o, 'e) reply oneshot_outcome \<Rightarrow> bool" for s :: 's where
  for_batch: "(s, x) \<in> set (replies (fst (send_output out senders m obs))) \<Longrightarrow> worker_yields s (Received x)"
| for_crash: "(s, x) \<in> set (replies (send_errors_on_crash senders)) \<Longrightarrow> worker_yields s (Received x)"
| for_drop: "worker_yields s RecvError"

lemma worker_yields_no_routing_error:
  assumes "worker_yields s out"
  shows "await_reply out \<notin> {Inl QueueFullError, Inl NoAvailableWorkersError, Inl TimeoutError}"
  using assms
proof (cases rule: worker_yields.cases)
  case (for_batch x out' senders m obs)
  then have "(s, x) \<in> set (batch_replies out' senders)"
    using replies_send_output [of out' senders m obs] send_output_panic_silent [of out' senders m obs]
    by (cases "snd (send_output out' senders m obs)") auto
  with for_batch(1) show ?thesis
    by (auto simp: batch_replies_def dest!: set_zip_rightD split: sum.splits if_splits)
qed (auto simp: effect_simps from_recv_error_def)

text \<open>C22: \<open>predict\<close> never panics and never reports a full queue: under any interference during its
  attempts and any activity between them, it is still waiting (for room or for its result), or
  returns what its receiver yielded (\<open>InternalError\<close> when the sender was dropped), or
  returns \<open>NoAvailableWorkersError\<close>. As its receiver yields only what a worker sends, by \<open>send_output\<close> and
  \<open>send_errors_on_crash\<close>, its result is never \<open>QueueFullError\<close>, and never \<open>TimeoutError\<close>.\<close>

theorem predict_never_reports_full_queue:
  fixes input :: 'i and sender :: 's and reply :: "('o, 'e) reply oneshot_outcome option"
  assumes "mpsc_channel Q items cap rx tx" and "env_ok env" and "\<forall>w \<in> set (first # wakes). wake_ok w"
    and "pool_live p" and "\<forall>out. reply = Some out \<longrightarrow> worker_yields sender out"
  shows "\<exists>r p'. predict Q env first wakes p input sender reply = Some (r, p')
    \<and> (r = Pending \<or> r = Ready (Inl NoAvailableWorkersError)
       \<or> (\<exists>out. reply = Some out \<and> r = Ready (await_reply out)))
    \<and> r \<noteq> Ready (Inl QueueFullError) \<and> r \<noteq> Ready (Inl TimeoutError)"
proof -
  have first: "env_ok (wu_env first)" "\<And>q. pool_live q \<Longrightarrow> pool_live (wu_meanwhile first q)"
    and wakes: "\<forall>w \<in> set wakes. wake_ok w"
    using assms(3) by (auto simp: wake_ok_def)
  obtain r p' where "attempt Q env p (input, sender) = Some (r :: 'e submit + 'i \<times> 's, p')" "pool_live p'"
      "r = Inl Submitted \<or> r = Inl (Refused NoAvailableWorkersError) \<or> r = Inr (input, sender)"
    using mpsc_channel.attempt_outcome [OF assms(1,2,4)] by blast
  moreover obtain r2 p2 where "pool_live p' \<Longrightarrow> predict_loop Q (wu_env first) wakes (wu_meanwhile first p')
      (input, sender) = Some (r2 :: 'e submit, p2)"
      "r2 = Submitted \<or> r2 = Asleep \<or> r2 = Refused NoAvailableWorkersError"
    using mpsc_channel.predict_loop_outcome [OF assms(1) first(1) wakes first(2)] by blast
  ultimately have "\<exists>r p'. predict Q env first wakes p input sender reply = Some (r, p')
    \<and> (r = Pending \<or> r = Ready (Inl NoAvailableWorkersError)
       \<or> (\<exists>out. reply = Some out \<and> r = Ready (await_reply out)))"
    by (cases reply) (auto simp: predict_def)
  then obtain r p' where run: "predict Q env first wakes p input sender reply = Some (r, p')"
    and r: "r = Pending \<or> r = Ready (Inl NoAvailableWorkersError) \<or> (\<exists>out. reply = Some out \<and> r = Ready (await_reply out))"
    by blast
  have "r \<noteq> Ready (Inl QueueFullError) \<and> r \<noteq> Ready (Inl TimeoutError)"
    using r assms(5) worker_yields_no_routing_error by fastforce
  with run r show ?thesis by blast
qed

definition demo_ref :: "(nat \<times> nat) list \<Rightarrow> (nat \<times> nat) fifo worker_ref" where
  "demo_ref queued = \<lparr>wr_state = new_worker_state \<lparr>ic_timeout = from_millis 5, ic_batch_size = 2\<rparr>,
     wr_queue = \<lparr>ff_items = queued, ff_cap = 1, ff_rx = True, ff_tx = True\<rparr>\<rparr>"

text \<open>A pool whose only queue is full until the worker takes the waiting request.\<close>

theorem predict_never_reports_full_queue_witness:
  "\<exists>r p'. predict fifo_mpsc quiet
      \<lparr>wu_meanwhile = (\<lambda>p. p\<lparr>wp_pool := map (\<lambda>w. w\<lparr>wr_queue := (wr_queue w)\<lparr>ff_items := []\<rparr>\<rparr>) (wp_pool p)\<rparr>),
       wu_env = quiet\<rparr> []
      \<lparr>wp_pool = [demo_ref [(7, 7)]], wp_start = 0\<rparr> 9 9 (Some RecvError :: (nat, nat) reply oneshot_outcome option)
      = Some (r, p')
    \<and> (r = Pending \<or> r = Ready (Inl NoAvailableWorkersError) \<or> r = Ready (await_reply RecvError))
    \<and> r \<noteq> Ready (Inl QueueFullError)"
proof -
  let ?w = "\<lparr>wu_meanwhile = (\<lambda>p. p\<lparr>wp_pool := map (\<lambda>w. w\<lparr>wr_queue := (wr_queue w)\<lparr>ff_items := []\<rparr>\<rparr>) (wp_pool p)\<rparr>),
       wu_env = quiet\<rparr> :: (nat \<times> nat) fifo wake_up"
  have q: "env_ok (quiet :: (nat \<times> nat) fifo interference)"
    by (simp add: env_ok_def quiet_def)
  moreover from this have "\<forall>w \<in> set [?w]. wake_ok w"
    by (auto simp: wake_ok_def pool_live_def pool_ok_def)
  moreover have "pool_live \<lparr>wp_pool = [demo_ref [(7, 7)]], wp_start = 0\<rparr>"
    by (simp add: pool_live_def pool_ok_def demo_ref_def status_simps)
  moreover have "\<forall>out. Some RecvError = Some out \<longrightarrow> worker_yields (9 :: nat) (out :: (nat, nat) reply oneshot_outcome)"
    by (simp add: for_drop)
  ultimately show ?thesis
    using predict_never_reports_full_queue [OF fifo.mpsc_channel_axioms, of quiet ?w "[]"
        "\<lparr>wp_pool = [demo_ref [(7, 7)]], wp_start = 0\<rparr>" "Some RecvError :: (nat, nat) reply oneshot_outcome option" 9 9]
    by auto
qed

text \<open>\<open>predict_with_timeout\<close> reports \<open>TimeoutError\<close> only once the timeout has elapsed, never keeps
  waiting after that, counts every timeout it reports exactly once with the metrics hook and nothing
  else, and otherwise returns what \<open>predict\<close> returned.\<close>

theorem timeout_is_reported_and_counted:
  assumes "res \<noteq> Ready (Inl TimeoutError)" and "\<not> hook on_request_timeout"
  shows "\<exists>es r. predict_with_timeout (Some hook) elapsed timer_first res = Returned (es, r)
    \<and> metrics_of es = (if r = Ready (Inl TimeoutError) then [on_request_timeout] else [])
    \<and> (r = Ready (Inl TimeoutError) \<longrightarrow> elapsed) \<and> (elapsed \<longrightarrow> r \<noteq> Pending)
    \<and> (r \<noteq> Ready (Inl TimeoutError) \<longrightarrow> r = res)"
  using assms by (cases res) (auto simp: predict_with_timeout_def emit_timeout_def call_hook_def Let_def)

theorem timeout_is_reported_and_counted_witness:
  "\<exists>es. predict_with_timeout (Some (\<lambda>_. False)) True False Pending = Returned (es, Ready (Inl TimeoutError))
    \<and> metrics_of es = [on_request_timeout]"
  using timeout_is_reported_and_counted [of Pending "\<lambda>_. False" True False] by auto

end
