(* ===== verification/Setup.thy ===== *)
theory Setup
  imports Worker_Properties Batcher
begin

text \<open>
  Starting a pool (\<open>src/setup/mod.rs\<close>): the workers and their handles, the wait for every worker's
  first build, and \<open>get_batcher\<close>. The acks that arrive, whether the ack channel then closes, and
  whether the startup timer has elapsed are answers of the environment.
\<close>

text \<open>\<open>init_worker_ref_pairs\<close>: for every worker, its accumulator's settings with its request
  receiver, and the router's handle with the sender of the same channel. The worker's index is cast
  to a \<open>u8\<close>.\<close>

definition init_worker_ref_pairs ::
  "('q, 'm) mpsc \<Rightarrow> worker_state list \<Rightarrow> nat \<Rightarrow> metrics_hook
     \<Rightarrow> (inference_worker \<times> 'q) list \<times> 'q worker_ref list" where
  "init_worker_ref_pairs Q states channel_sz obs =
     (let chans = map (\<lambda>_. mp_channel Q channel_sz) states
      in (map (\<lambda>(i, q). (\<lparr>iw_obs = obs, iw_worker_id = of_nat i\<rparr>, q)) (zip [0..<length states] chans),
          map (\<lambda>(st, q). \<lparr>wr_state = st, wr_queue = q\<rparr>) (zip states chans)))"

text \<open>\<open>poll_acks\<close> over the acks that arrive; \<open>closed\<close> says whether the channel is closed after them.
  The counter is a \<open>u8\<close> whose overflow panics: \<open>None\<close>.\<close>

fun poll_acks_from ::
  "u8 \<Rightarrow> bool \<Rightarrow> u8 \<Rightarrow> 'f start_ack list \<Rightarrow> ('f startup_error + unit) poll option" where
  "poll_acks_from pool_sz closed acked [] =
     Some (if closed then Ready (Inl StartupInternalError) else Pending)"
| "poll_acks_from pool_sz closed acked (ack # acks) =
     (case ack of
        Inl e \<Rightarrow> Some (Ready (Inl e))
      | Inr _ \<Rightarrow>
          (if acked = 255 then None
           else if acked + 1 = pool_sz then Some (Ready (Inr ()))
           else poll_acks_from pool_sz closed (acked + 1) acks))"

definition poll_acks :: "u8 \<Rightarrow> bool \<Rightarrow> 'f start_ack list \<Rightarrow> ('f startup_error + unit) poll option" where
  "poll_acks pool_sz closed acks = poll_acks_from pool_sz closed 0 acks"

definition collect_acks ::
  "u8 \<Rightarrow> bool \<Rightarrow> bool \<Rightarrow> bool \<Rightarrow> 'f start_ack list \<Rightarrow> ('f startup_error + unit) poll option" where
  "collect_acks pool_sz elapsed timer_first closed acks =
     (if elapsed \<and> timer_first then Some (Ready (Inl Timeout))
      else (case poll_acks pool_sz closed acks of
          Some Pending \<Rightarrow> Some (if elapsed then Ready (Inl Timeout) else Pending)
        | res \<Rightarrow> res))"

record 'q batchinf =
  bi_pool :: "'q worker_pool"
  bi_obs :: metrics_hook

text \<open>What \<open>get_batcher\<close> starts before it waits: the pool, and for each worker its settings, its queue,
  its status and the build settings of its thread.\<close>

record start_config =
  sc_retries :: u8
  sc_backoff :: duration
  sc_max_wait :: duration

definition start_workers ::
  "('q, 'm) mpsc \<Rightarrow> batcher_config \<Rightarrow> 'q worker_pool \<times> (inference_worker \<times> 'q) list \<times> start_config" where
  "start_workers Q config =
     (let conf = inner_config_from config;
          workers = map (\<lambda>_. new_worker_state conf) [0..<unat (pool_size config)];
          (inf_workers, worker_refs) =
            init_worker_ref_pairs Q workers (unat (queue_size config)) (config_metrics config);
          start = \<lparr>sc_retries = worker_start_retries config, sc_backoff = worker_start_backoff_start config,
                   sc_max_wait = max_worker_retry_wait config\<rparr>
      in (new_worker_pool worker_refs, inf_workers, start))"

text \<open>The time \<open>get_batcher\<close> then waits at most, having already used \<open>consumed\<close>.\<close>

definition startup_wait :: "batcher_config \<Rightarrow> duration \<Rightarrow> duration" where
  "startup_wait config consumed = saturating_sub (startup_timeout config) consumed"

definition get_batcher ::
  "('q, 'm) mpsc \<Rightarrow> batcher_config \<Rightarrow> duration \<Rightarrow> duration \<Rightarrow> bool \<Rightarrow> bool \<Rightarrow> 'f start_ack list
     \<Rightarrow> ('f startup_error + 'q batchinf) poll option" where
  "get_batcher Q config consumed waited timer_first closed acks =
     (case start_workers Q config of (pool, _, _) \<Rightarrow>
        (case collect_acks (pool_size config) (startup_wait config consumed \<le> waited) timer_first closed acks of
           None \<Rightarrow> None
         | Some Pending \<Rightarrow> Some Pending
         | Some (Ready (Inl e)) \<Rightarrow> Some (Ready (Inl e))
         | Some (Ready (Inr _)) \<Rightarrow> Some (Ready (Inr \<lparr>bi_pool = pool, bi_obs = config_metrics config\<rparr>))))"

subsection \<open>The acks\<close>

lemma poll_acks_from_eq:
  assumes "unat acked < unat pool_sz"
  shows "poll_acks_from pool_sz closed acked acks =
    (case List.find isl (take (unat pool_sz - unat acked) acks) of
       Some (Inl e) \<Rightarrow> Some (Ready (Inl e))
     | _ \<Rightarrow> Some (if unat pool_sz - unat acked \<le> length acks then Ready (Inr ())
         else if closed then Ready (Inl StartupInternalError) else Pending))"
  using assms
proof (induction acks arbitrary: acked)
  case (Cons ack acks)
  have bound: "unat pool_sz < 256"
    using unsigned_less [of pool_sz] by simp
  have step: "unat (acked + 1) = unat acked + 1"
    using Cons.prems bound by (simp add: unat_word_ariths)
  have "acked \<noteq> 255"
    using Cons.prems bound by auto
  moreover have "acked + 1 = pool_sz \<longleftrightarrow> unat acked + 1 = unat pool_sz"
    by (simp add: word_unat_eq_iff step)
  ultimately show ?case
    using Cons.IH [of "acked + 1"] Cons.prems step
    by (cases ack; cases "unat acked + 1 = unat pool_sz")
      (auto simp: take_Cons' Suc_diff_Suc)
qed auto

lemma start_workers_eq:
  "start_workers Q config =
     (let n = unat (pool_size config); st = new_worker_state (inner_config_from config);
          q = mp_channel Q (unat (queue_size config))
      in (new_worker_pool (replicate n \<lparr>wr_state = st, wr_queue = q\<rparr>),
          map (\<lambda>i. (\<lparr>iw_obs = config_metrics config, iw_worker_id = of_nat i\<rparr>, q)) [0..<n],
          \<lparr>sc_retries = worker_start_retries config, sc_backoff = worker_start_backoff_start config,
           sc_max_wait = max_worker_retry_wait config\<rparr>))"
  by (auto simp: start_workers_def init_worker_ref_pairs_def Let_def zip_replicate map_replicate_const
      intro!: nth_equalityI)

lemma get_batcher_Ok:
  assumes "get_batcher Q config consumed waited timer_first closed acks = Some (Ready (Inr b))"
  shows "poll_acks (pool_size config) closed acks = Some (Ready (Inr ()))"
    and "b = \<lparr>bi_pool = fst (start_workers Q config), bi_obs = config_metrics config\<rparr>"
  using assms
  by (auto simp: get_batcher_def collect_acks_def split: prod.splits option.splits poll.splits sum.splits if_splits)

text \<open>An \<open>Ok\<close> ack comes from a thread that has its predictor and waits for batches.\<close>

lemma inf_start_ack:
  assumes "fst (inf_start args closed acked (new_inf_thread, sh)) = th" and "it_ack th = Some (Inr ())"
  shows "\<exists>p. it_pc th = InfWaiting p"
  using assms by (auto simp: inf_start_def new_inf_thread_def Let_def split: prod.splits sum.splits if_splits)

lemma find_isl_None: "List.find isl xs = None \<longleftrightarrow> (\<forall>x \<in> set xs. \<not> isl x)"
  by (auto simp: find_None_iff)

lemma poll_acks_eq:
  assumes "n \<noteq> 0"
  shows "poll_acks n closed acks =
    (case List.find isl (take (unat n) acks) of
       Some (Inl e) \<Rightarrow> Some (Ready (Inl e))
     | _ \<Rightarrow> Some (if unat n \<le> length acks then Ready (Inr ())
         else if closed then Ready (Inl StartupInternalError) else Pending))"
proof -
  have "0 < unat n" using assms by (simp add: unat_gt_0)
  then show ?thesis
    using poll_acks_from_eq [of 0 n closed acks] by (simp add: poll_acks_def)
qed

lemma poll_acks_Ok:
  assumes "n \<noteq> 0" and "poll_acks n closed acks = Some (Ready (Inr ()))"
  shows "unat n \<le> length acks \<and> (\<forall>a \<in> set (take (unat n) acks). a = Inr ())"
proof -
  have eq: "(case List.find isl (take (unat n) acks) of
       Some (Inl e) \<Rightarrow> Some (Ready (Inl e))
     | _ \<Rightarrow> Some (if unat n \<le> length acks then Ready (Inr ())
         else if closed then Ready (Inl StartupInternalError) else Pending)) = Some (Ready (Inr ()))"
    using poll_acks_eq [OF assms(1), of closed acks] assms(2) by (rule subst)
  show ?thesis
  proof (cases "List.find isl (take (unat n) acks)")
    case None
    with eq show ?thesis
      by (auto simp: find_isl_None isl_def split: if_splits)
        (metis Inl_Inr_False old.sum.exhaust old.unit.exhaust)+
  next
    case (Some a)
    then have "isl a" by (auto simp: find_Some_iff)
    with eq Some show ?thesis by (cases a) auto
  qed
qed

subsection \<open>Properties\<close>

text \<open>The wait for the acks, for every pool size a \<open>NonZeroU8\<close> can hold: it never panics (the
  counter cannot overflow), reports the first failure among the first \<open>pool_size\<close> acks, succeeds
  exactly when \<open>pool_size\<close> successes have arrived before any failure, and reports an internal error
  when the channel closes before that; otherwise it keeps waiting.\<close>

theorem poll_acks_first_failure:
  assumes "n \<noteq> 0"
  shows "poll_acks n closed acks =
    (case List.find isl (take (unat n) acks) of
       Some (Inl e) \<Rightarrow> Some (Ready (Inl e))
     | _ \<Rightarrow> Some (if unat n \<le> length acks then Ready (Inr ())
         else if closed then Ready (Inl StartupInternalError) else Pending))"
  by (rule poll_acks_eq [OF assms])

theorem poll_acks_first_failure_witness:
  "poll_acks 3 False [Inr (), Inl (WorkerStartPanic 1), Inl (Timeout :: nat startup_error)]
     = Some (Ready (Inl (WorkerStartPanic 1)))"
proof -
  have "(3 :: u8) \<noteq> 0" and three: "unat (3 :: u8) = 3" by simp_all
  from poll_acks_first_failure [OF this(1), of False "[Inr (), Inl (WorkerStartPanic 1), Inl (Timeout :: nat startup_error)]"]
  show ?thesis unfolding three by simp
qed

text \<open>\<open>get_batcher\<close> hands out a batcher only when every worker is serving. If the acks that arrived
  are those of distinct workers of the pool, each sent by its inference thread at the end of its
  startup, and the result is \<open>Ok\<close>, then every worker of the pool has acked success and its thread has
  a predictor and waits for batches; the pool has \<open>pool_size\<close> workers, all alive and waiting.\<close>

theorem get_batcher_ok_all_serving:
  assumes "config_wf config"
    and "get_batcher Q config consumed waited timer_first closed
      (map (\<lambda>i. the (it_ack (threads i))) order) = Some (Ready (Inr b))"
    and "distinct order" and "set order \<subseteq> {..<unat (pool_size config)}"
    and "\<forall>i \<in> set order. it_ack (threads i) \<noteq> None"
    and "\<forall>i. threads i = fst (inf_start (args i) (gone i) (sent i) (new_inf_thread, sh i))"
  shows "(\<forall>i < unat (pool_size config). it_ack (threads i) = Some (Inr ()) \<and> (\<exists>p. it_pc (threads i) = InfWaiting p))
    \<and> length (wp_pool (bi_pool b)) = unat (pool_size config)
    \<and> (\<forall>w \<in> set (wp_pool (bi_pool b)). can_accept_primary (wr_state w) = Some True)"
proof -
  let ?n = "unat (pool_size config)"
  have ready: "?n \<le> length order" "\<forall>a \<in> set (take ?n (map (\<lambda>i. the (it_ack (threads i))) order)). a = Inr ()"
    using poll_acks_Ok [OF _ get_batcher_Ok(1) [OF assms(2)]] assms(1) by (auto simp: config_wf_def)
  have "length order \<le> ?n"
    using card_mono [OF _ assms(4)] assms(3) by (simp add: distinct_card)
  with ready have all: "length order = ?n" "\<forall>i \<in> set order. the (it_ack (threads i)) = Inr ()"
    by auto
  have order: "set order = {..<?n}"
    using card_subset_eq [OF _ assms(4)] assms(3) all(1) by (simp add: distinct_card)
  have acked: "it_ack (threads i) = Some (Inr ())" if "i < ?n" for i
  proof -
    have "i \<in> set order" using order that by simp
    with all(2) assms(5) show ?thesis
      by (cases "it_ack (threads i)") auto
  qed
  have serving: "\<exists>p. it_pc (threads i) = InfWaiting p" if "i < ?n" for i
    by (rule inf_start_ack [OF assms(6) [rule_format, symmetric] acked [OF that]])
  have "can_accept_primary (new_worker_state (inner_config_from config)) = Some True"
    using assms(1) by (simp add: can_accept_primary_def snapshot_eq the_snapshot_def accepts_primary_def
        status_simps ws_batch_size_def inner_config_from_def config_wf_def word_greater_zero_iff)
  moreover have "wp_pool (bi_pool b) = replicate ?n \<lparr>wr_state = new_worker_state (inner_config_from config),
      wr_queue = mp_channel Q (unat (queue_size config))\<rparr>"
    using get_batcher_Ok(2) [OF assms(2)] by (simp add: start_workers_eq new_worker_pool_def Let_def)
  ultimately show ?thesis
    using acked serving by simp
qed

definition demo_config :: batcher_config where
  "demo_config = build (configure 2 (from_millis 5) [PoolSize 2])"

definition demo_thread :: "nat \<Rightarrow> (unit, nat, nat, nat) inf_thread" where
  "demo_thread i = fst (inf_start demo_args (\<lambda>_. False) True
     (new_inf_thread, wk_shared demo_start))"

lemma demo_config_fields [simp]:
  "pool_size demo_config = 2" "batch_size demo_config = 2" "queue_size demo_config = 2"
  by (simp_all add: demo_config_def build_def configure_def builder_def setter_defs)

lemma demo_thread_ack [simp]: "it_ack (demo_thread i) = Some (Inr ())"
  by (simp add: demo_thread_def inf_start_def new_inf_thread_def demo_args_def spawn_predictor_def
      backoff_schedule_def u8_saturating_add_def try_make_predictor_def Let_def)

theorem get_batcher_ok_all_serving_witness:
  "\<exists>b. get_batcher fifo_mpsc demo_config DURATION_ZERO DURATION_ZERO False False
      (map (\<lambda>i. the (it_ack (demo_thread i))) [1, 0]) = Some (Ready (Inr b))
    \<and> (\<forall>i < 2. \<exists>p. it_pc (demo_thread i) = InfWaiting p)
    \<and> length (wp_pool (bi_pool b :: (nat \<times> nat) fifo worker_pool)) = 2"
proof -
  have two: "unat (2 :: u8) = 2" by simp
  have wait: "\<not> startup_wait demo_config DURATION_ZERO \<le> DURATION_ZERO"
    by (simp add: startup_wait_def saturating_sub_def demo_config_def build_def configure_def builder_def
        setter_defs duration_order_defs duration_simps DEFAULT_STARTUP_TIMEOUT_def)
  obtain pool rest where "start_workers (fifo_mpsc :: ((nat \<times> nat) fifo, nat \<times> nat) mpsc) demo_config = (pool, rest)"
    by (rule prod.exhaust)
  then obtain b where b: "get_batcher fifo_mpsc demo_config DURATION_ZERO DURATION_ZERO False False
      (map (\<lambda>i. the (it_ack (demo_thread i))) [1, 0]) = Some (Ready (Inr (b :: (nat \<times> nat) fifo batchinf)))"
    using wait by (cases rest) (auto simp: get_batcher_def collect_acks_def poll_acks_def)
  have hyps: "config_wf demo_config" "distinct [1, 0 :: nat]" "set [1, 0] \<subseteq> {..<unat (pool_size demo_config)}"
      "\<forall>i \<in> set [1, 0]. it_ack (demo_thread i) \<noteq> None"
    by (simp_all add: config_wf_def two)
  have threads: "\<forall>i. demo_thread i = fst (inf_start demo_args (\<lambda>_. False) True (new_inf_thread, wk_shared demo_start))"
    by (simp add: demo_thread_def)
  from get_batcher_ok_all_serving [OF hyps(1) b hyps(2-4) threads] b show ?thesis
    by (auto simp only: two demo_config_fields)
qed

text \<open>The workers \<open>get_batcher\<close> starts are wired one to one to the router: for every valid
  configuration the router has \<open>pool_size\<close> handles and there are as many workers; worker \<open>i\<close> reports
  as \<open>i\<close> (the cast to \<open>u8\<close> loses nothing), receives from the very channel handle \<open>i\<close> sends to,
  which is empty with the configured capacity, and its thread gets the configured build settings.\<close>

theorem start_workers_wiring:
  assumes "mpsc_channel Q items cap rx tx" and "config_wf config" and "start_workers Q config = (pool, workers, start)"
  shows "length (wp_pool pool) = unat (pool_size config) \<and> length workers = unat (pool_size config)
    \<and> (\<forall>i < unat (pool_size config).
        unat (iw_worker_id (fst (workers ! i))) = i \<and> snd (workers ! i) = wr_queue (wp_pool pool ! i)
        \<and> items (snd (workers ! i)) = [] \<and> cap (snd (workers ! i)) = unat (queue_size config)
        \<and> rx (snd (workers ! i)) \<and> ws_config (wr_state (wp_pool pool ! i)) = inner_config_from config)
    \<and> sc_retries start = worker_start_retries config \<and> sc_backoff start = worker_start_backoff_start config
    \<and> sc_max_wait start = max_worker_retry_wait config"
proof -
  have "0 < unat (queue_size config)"
    using assms(2) by (simp add: config_wf_def unat_gt_0)
  note chan = mpsc_channel.channel_new [OF assms(1) this]
  have "unat (pool_size config) < 2 ^ 8"
    using unsigned_less [of "pool_size config"] by simp
  then have "unat (of_nat i :: u8) = i" if "i < unat (pool_size config)" for i
    using that by (simp add: unsigned_of_nat take_bit_nat_eq_self)
  with assms(3) chan show ?thesis
    by (auto simp: start_workers_eq new_worker_pool_def Let_def status_simps)
qed

theorem start_workers_wiring_witness:
  "\<exists>pool workers start. start_workers (fifo_mpsc :: (nat fifo, nat) mpsc) demo_config = (pool, workers, start)
    \<and> length (wp_pool pool) = 2 \<and> unat (iw_worker_id (fst (workers ! 1))) = 1
    \<and> ff_cap (snd (workers ! 1)) = 2"
proof -
  have two: "unat (2 :: u8) = 2" "unat (2 :: u32) = 2" by simp_all
  obtain pool workers start where st: "start_workers (fifo_mpsc :: (nat fifo, nat) mpsc) demo_config = (pool, workers, start)"
    by (metis surj_pair)
  have "config_wf demo_config" by (simp add: config_wf_def)
  from start_workers_wiring [OF fifo.mpsc_channel_axioms this st] st show ?thesis
    by (auto simp: two dest!: spec [of _ 1])
qed

end
