(* ===== verification/Shutdown.thy ===== *)
theory Shutdown
  imports Setup
begin

text \<open>
  Waiting for the end (\<open>src/shutdown/mod.rs\<close>): every inference thread owns a clone of one watch
  sender, over which no value is ever sent, and releases it when its runner has ended
  (\<open>InfReleased\<close>). A \<open>ShutdownWaiter\<close> holds the receiver. \<open>changed()\<close> and \<open>has_changed()\<close> are
  tokio's and a parameter of the model: \<open>closed k\<close> says whether they fail while \<open>k\<close> senders are left,
  and \<open>watch_law\<close> states what tokio documents, that they fail exactly when none is.
\<close>

datatype watch_outcome = Changed | SenderDropped

definition watch_law :: "(nat \<Rightarrow> bool) \<Rightarrow> bool" where
  "watch_law closed \<longleftrightarrow> (\<forall>k. closed k \<longleftrightarrow> k = 0)"

text \<open>One poll of \<open>changed\<close>; no value is ever sent, so it does not return \<open>Changed\<close>.\<close>

definition poll_changed :: "(nat \<Rightarrow> bool) \<Rightarrow> nat \<Rightarrow> watch_outcome poll" where
  "poll_changed closed senders = (if closed senders then Ready SenderDropped else Pending)"

text \<open>\<open>wait\<close>: the loop over the polls of \<open>changed\<close>, each with the senders left by then.\<close>

fun wait_shutdown :: "(nat \<Rightarrow> bool) \<Rightarrow> nat list \<Rightarrow> unit poll" where
  "wait_shutdown closed [] = Pending"
| "wait_shutdown closed (senders # later) =
     (case poll_changed closed senders of
        Ready SenderDropped \<Rightarrow> Ready ()
      | Ready Changed \<Rightarrow> wait_shutdown closed later
      | Pending \<Rightarrow> wait_shutdown closed later)"

definition is_shutdown :: "(nat \<Rightarrow> bool) \<Rightarrow> nat \<Rightarrow> bool" where
  "is_shutdown closed senders = closed senders"

text \<open>The senders left: one for each thread that has not released its own. \<open>get_batcher\<close> has dropped
  the one it created.\<close>

definition shutdown_senders :: "('i, 's, 'p, 'f, 'q, 'j, 'o, 'e) worker_sys list \<Rightarrow> nat" where
  "shutdown_senders ws = length (filter (\<lambda>s. it_pc (wk_inf s) \<noteq> InfReleased) ws)"

lemma shutdown_senders_0: "shutdown_senders ws = 0 \<longleftrightarrow> (\<forall>s \<in> set ws. it_pc (wk_inf s) = InfReleased)"
  by (auto simp: shutdown_senders_def filter_empty_conv)

subsection \<open>Properties\<close>

text \<open>Shutdown is reported only when it is true: if a waiter over the workers' threads reports
  shutdown, or its wait resolves, then every worker's inference thread has ended and every predictor
  it ever built has been dropped; and if no thread of any worker can move and all handles are gone,
  it is reported.\<close>

theorem shutdown_reported_iff_released:
  assumes "watch_law closed" and "\<forall>s \<in> set ws. worker_model W qi qc qr qt ji jc jr jt cfg n \<and> worker_reach W cfg n s"
  shows "(is_shutdown closed (shutdown_senders ws) \<or> wait_shutdown closed [shutdown_senders ws] = Ready () \<longrightarrow>
      (\<forall>s \<in> set ws. it_pc (wk_inf s) = InfReleased
        \<and> built_count (sh_log (wk_shared s)) = drop_count (sh_log (wk_shared s))))
    \<and> ((\<forall>s \<in> set ws. (\<forall>u. \<not> own_step W s u) \<and> mp_senders_gone (we_requests W) (sh_requests (wk_shared s)))
      \<longrightarrow> is_shutdown closed (shutdown_senders ws) \<and> wait_shutdown closed [shutdown_senders ws] = Ready ())"
proof -
  have law: "closed k \<longleftrightarrow> k = 0" for k
    using assms(1) by (simp add: watch_law_def)
  have dropped: "built_count (sh_log (wk_shared s)) = drop_count (sh_log (wk_shared s))"
    if "s \<in> set ws" "it_pc (wk_inf s) = InfReleased" for s
    using worker_model.reached_predictors [of W qi qc qr qt ji jc jr jt cfg n s] assms(2) that by simp
  have released: "it_pc (wk_inf s) = InfReleased"
    if "s \<in> set ws" "\<And>u. \<not> own_step W s u" "mp_senders_gone (we_requests W) (sh_requests (wk_shared s))" for s
    using worker_model.reached_own_steps(3) [of W qi qc qr qt ji jc jr jt cfg n s 0 s] assms(2) that by simp
  show ?thesis
    using dropped released
    by (auto simp: is_shutdown_def poll_changed_def law shutdown_senders_0 split: if_splits)
qed

definition demo_over :: "(nat, nat) worker_move list" where
  "demo_over = [InfMove (InfStart (\<lambda>_. False) True), DropHandles, AccMove (AccRecv 0), AccMove AccDrop,
     InfMove (InfReceive (\<lambda>_. False)), InfMove InfDrop, InfMove InfRelease]"

lemma demo_over_state:
  "map_option (\<lambda>s. it_pc (wk_inf s)) (run_schedule demo_env demo_over demo_start) = Some InfReleased"
  by (simp add: demo_over_def run_defs acc_leave_def acc_drop_def inf_drop_def Let_def)

theorem shutdown_reported_iff_released_witness:
  "\<exists>s. worker_reach demo_env demo_cfg 4 s \<and> is_shutdown (\<lambda>k. k = 0) (shutdown_senders [s])
    \<and> built_count (sh_log (wk_shared s)) = drop_count (sh_log (wk_shared s))"
proof (rule run_demo_cases [OF demo_over_state])
  fix s assume s: "worker_reach demo_env demo_cfg 4 s" "it_pc (wk_inf s) = InfReleased"
  then have "\<forall>t \<in> set [s]. worker_model demo_env ff_items ff_cap ff_rx ff_tx ff_items ff_cap ff_rx ff_tx demo_cfg 4
      \<and> worker_reach demo_env demo_cfg 4 t"
    using demo_model by simp
  moreover have "watch_law (\<lambda>k. k = 0)" by (simp add: watch_law_def)
  ultimately show ?thesis
    using shutdown_reported_iff_released [of "\<lambda>k. k = 0" "[s]"] s
    by (auto simp: is_shutdown_def shutdown_senders_def)
qed

text \<open>A factory that builds one predictor and fails ever after.\<close>

definition once_env :: "(nat, nat, unit, nat, (nat \<times> nat) fifo, (nat, nat) worker_buffer fifo, nat, nat) worker_env" where
  "once_env = fifo_env (10 ^ 30) \<lparr>iw_obs = None, iw_worker_id = 0\<rparr>
     (demo_args\<lparr>ia_factory := \<lambda>k _. if k = 0 then Returned (Inr ()) else Returned (Inl 7)\<rparr>)"

definition once_run :: "(nat, nat) worker_move list" where
  "once_run = [InfMove (InfStart (\<lambda>_. False) True), Push (0, 1), AccMove (AccRecv 0), AccMove (AccTimer 5000000),
     AccMove AccRun, AccMove AccRun, AccMove AccRun, AccMove AccRun, AccMove AccRun,
     InfMove (InfReceive (\<lambda>_. False)), InfMove (InfPredict DURATION_ZERO), InfMove InfHandlePanic,
     InfMove (InfRebuild 0), InfMove InfDrop, InfMove InfRelease]"

lemma once_run_state:
  "map_option (\<lambda>s. (it_pc (wk_inf s), mp_senders_gone (we_requests once_env) (sh_requests (wk_shared s))))
     (run_schedule once_env once_run (new_worker_sys (we_requests once_env) (we_jobs once_env) demo_cfg 4 0)) =
     Some (InfReleased, False)"
  by (simp add: once_env_def once_run_def run_defs panic_defs inf_drop_def store_dead_def set_dead_def
      sleep_with_exit.simps Let_def duration_simps duration_order_defs)

text \<open>C40: A waiter can resolve while a handle is alive. There is a run of a pool of one worker in which
  the predictor panics and its rebuild fails: the inference thread ends and releases its sender, so
  \<open>is_shutdown\<close> is true and \<open>wait\<close> resolves, although the handles that send requests still exist.\<close>

theorem shutdown_reported_with_live_handle:
  "\<exists>s. worker_reach once_env demo_cfg 4 s \<and> \<not> mp_senders_gone (we_requests once_env) (sh_requests (wk_shared s))
    \<and> is_shutdown (\<lambda>k. k = 0) (shutdown_senders [s]) \<and> wait_shutdown (\<lambda>k. k = 0) [shutdown_senders [s]] = Ready ()"
  by (rule run_cases [OF once_run_state])
    (auto simp: is_shutdown_def poll_changed_def watch_law_def shutdown_senders_def)

end
