(* ===== verification/Pool_Setup.thy ===== *)
theory Pool_Setup
  imports Pool_Sound Shutdown
begin

text \<open>
  The pool that \<open>get_batcher\<close> starts (\<open>src/setup/mod.rs\<close>): \<open>run_worker\<close> for every pair of
  \<open>init_worker_ref_pairs\<close>, with the settings that reach each thread through \<open>make_runner\<close>. It is a pool
  in the sense of \<open>Pool_System\<close>, so what is proved of those holds of every configured batcher.
\<close>

text \<open>What the user hands over: a factory, which may answer each worker and each call differently, and
  the predictor's \<open>predict_batch\<close>.\<close>

record ('i, 'p, 'f, 'o, 'e) user_code =
  uc_factory :: "nat \<Rightarrow> nat \<Rightarrow> u8 \<Rightarrow> ('f + 'p) unwind"
  uc_predict_batch :: "'p \<Rightarrow> 'i list \<Rightarrow> (('e + 'o list) \<times> 'p) unwind"

definition make_runner_args ::
  "inference_worker \<Rightarrow> start_config \<Rightarrow> (nat \<Rightarrow> u8 \<Rightarrow> ('f + 'p) unwind)
     \<Rightarrow> ('p \<Rightarrow> 'i list \<Rightarrow> (('e + 'o list) \<times> 'p) unwind) \<Rightarrow> ('p, 'i, 'o, 'e, 'f) inf_args" where
  "make_runner_args worker start factory predict_batch =
     \<lparr>ia_factory = factory, ia_predict_batch = predict_batch, ia_worker_id = iw_worker_id worker,
      ia_retries = sc_retries start, ia_backoff = sc_backoff start, ia_max_wait = sc_max_wait start,
      ia_obs = iw_obs worker\<rparr>"

text \<open>\<open>run_worker\<close>: both halves, on the request receiver of the worker and the state it shares with
  the router; \<open>now\<close> is the task's first reading of the clock.\<close>

definition run_worker ::
  "('j, ('i, 's) worker_buffer) mpsc \<Rightarrow> instant \<Rightarrow> worker_state \<Rightarrow> 'q
     \<Rightarrow> ('i, 's, 'p, 'f, 'q, 'j, 'o, 'e) worker_sys" where
  "run_worker J now state receiver =
     \<lparr>wk_acc = new_acc_task now, wk_inf = new_inf_thread,
      wk_shared = \<lparr>sh_state = state, sh_requests = receiver, sh_jobs = mp_channel J JOB_QUEUE_DEPTH, sh_log = []\<rparr>,
      wk_accepted = []\<rparr>"

definition batcher_env ::
  "('q, 'i \<times> 's) mpsc \<Rightarrow> ('j, ('i, 's) worker_buffer) mpsc \<Rightarrow> 'n notify \<Rightarrow> instant
     \<Rightarrow> ('i, 'p, 'f, 'o, 'e) user_code \<Rightarrow> batcher_config \<Rightarrow> ('i, 's, 'p, 'f, 'q, 'j, 'o, 'e, 'n) pool_env" where
  "batcher_env Q J N imax code config =
     (case start_workers Q config of (pool, workers, start) \<Rightarrow>
       \<lparr>pe_worker = (\<lambda>i. let worker = fst (workers ! i) in
          \<lparr>we_requests = Q, we_jobs = J, we_imax = imax, we_worker = worker,
           we_args = make_runner_args worker start (uc_factory code i) (uc_predict_batch code)\<rparr>),
        pe_signal = N\<rparr>)"

definition batcher_start ::
  "('q, 'i \<times> 's) mpsc \<Rightarrow> ('j, ('i, 's) worker_buffer) mpsc \<Rightarrow> 'n notify \<Rightarrow> (nat \<Rightarrow> instant)
     \<Rightarrow> batcher_config \<Rightarrow> ('i, 's, 'p, 'f, 'q, 'j, 'o, 'e, 'n) pool_sys" where
  "batcher_start Q J N now config =
     (case start_workers Q config of (pool, workers, start) \<Rightarrow>
       \<lparr>ps_workers = map (\<lambda>i. run_worker J (now i) (wr_state (wp_pool pool ! i)) (snd (workers ! i))) [0..<length workers],
        ps_start = wp_start pool, ps_signal = nt_new N, ps_callers = [], ps_phase = PoolStarting\<rparr>)"

lemma batcher_env_worker:
  assumes "i < unat (pool_size config)"
  shows "pe_worker (batcher_env Q J N imax code config) i =
    (let worker = \<lparr>iw_obs = config_metrics config, iw_worker_id = of_nat i\<rparr> in
       \<lparr>we_requests = Q, we_jobs = J, we_imax = imax, we_worker = worker,
        we_args = make_runner_args worker
          \<lparr>sc_retries = worker_start_retries config, sc_backoff = worker_start_backoff_start config,
           sc_max_wait = max_worker_retry_wait config\<rparr> (uc_factory code i) (uc_predict_batch code)\<rparr>)"
  using assms by (simp add: batcher_env_def start_workers_eq Let_def)

lemma batcher_env_signal [simp]: "pe_signal (batcher_env Q J N imax code config) = N"
  by (simp add: batcher_env_def split: prod.splits)

lemma batcher_start_workers:
  "ps_workers (batcher_start Q J N now config) =
    map (\<lambda>i. new_worker_sys Q J (inner_config_from config) (unat (queue_size config)) (now i)) [0..<unat (pool_size config)]"
  by (simp add: batcher_start_def start_workers_eq new_worker_pool_def run_worker_def new_worker_sys_def Let_def)

lemma batcher_pool_model:
  assumes "mpsc_channel Q qi qc qr qt" and "mpsc_channel J ji jc jr jt" and "notify_signal N permit fut"
    and "config_wf config" and "clock_in_range imax (AccRecv 0)"
  shows "pool_model (batcher_env Q J N imax code config) permit fut qi qc qr qt ji jc jr jt
    (inner_config_from config) (unat (queue_size config)) (unat (pool_size config))"
proof (intro pool_model.intro pool_model_axioms.intro worker_model.intro worker_model_axioms.intro)
  show "ic_batch_size (inner_config_from config) \<noteq> 0" "0 < unat (queue_size config)" "0 < unat (pool_size config)"
    using assms(4) by (simp_all add: config_wf_def inner_config_from_def unat_gt_0)
qed (use assms in \<open>simp_all add: batcher_env_worker Let_def\<close>)

lemma batcher_pool_start:
  "pool_start (batcher_env Q J N imax code config) (inner_config_from config) (unat (queue_size config))
    (unat (pool_size config)) (batcher_start Q J N now config)"
  by (auto simp: pool_start_def batcher_start_workers worker_start_def batcher_env_worker Let_def)
    (simp_all add: batcher_start_def start_workers_eq new_worker_pool_def Let_def)

lemma batcher_sound_code:
  assumes "quiet_hook (config_metrics config)" and "i < unat (pool_size config)"
    and "\<And>k j q. uc_factory code i k j = Returned (Inr q) \<Longrightarrow> G q"
    and "\<And>q ins. G q \<Longrightarrow> 0 < length ins \<Longrightarrow> length ins \<le> unat (batch_size config) \<Longrightarrow>
      \<exists>res q'. uc_predict_batch code q ins = Returned (res, q') \<and> G q' \<and> (\<forall>outs. res = Inr outs \<longrightarrow> length outs = length ins)"
  shows "sound_code G (unat (ic_batch_size (inner_config_from config)))
    (pe_worker (batcher_env Q J N imax code config) i)"
  using assms by (simp add: sound_code_def batcher_env_worker make_runner_args_def inner_config_from_def Let_def)

text \<open>The workers report as \<open>0\<close> to \<open>pool_size - 1\<close>: the cast of the index to a \<open>u8\<close> loses nothing.\<close>

lemma worker_index:
  assumes "i < unat (pool_size config)"
  shows "unat (of_nat i :: u8) = i"
proof -
  have "unat (pool_size config) < 2 ^ 8" using unsigned_less [of "pool_size config"] by simp
  with assms have "i < 2 ^ 8" by linarith
  then show ?thesis by (simp add: unsigned_of_nat take_bit_nat_eq_self)
qed

end
