(* ===== verification/Pool_Startup.thy ===== *)
theory Pool_Startup
  imports Pool_Setup
begin

text \<open>
  The start of a pool as \<open>get_batcher\<close> lives through it (\<open>src/setup/mod.rs\<close>): the inference threads
  build their first predictors and send their acks, in any order, over a bounded channel;
  \<open>get_batcher\<close> receives them one by one, against its timer, and hands out the batcher, or fails and
  thereby drops the router and the ack receiver; or its caller drops it. \<open>boot_step\<close> interleaves these
  steps with everything a pool does (\<open>Pool_System\<close>), and adds nothing to it: its states are states of
  a pool, so the phases of \<open>Pool_System\<close> are not an assumption about \<open>get_batcher\<close>.

  The ack channel is a parameter under the contract \<open>mpsc_channel\<close>, like the others.
\<close>

subsection \<open>The ack of one worker\<close>

text \<open>What an ack says of the thread it comes from, by what the thread has done so far: a predictor at
  one of its calls of the factory, after failures at those before; a failure at every one of all attempts,
  and the one of the last; or nothing at all, not one look at the ack channel and not one call, since
  it could not be spawned.\<close>

definition attempts :: "('p, 'i, 'o, 'e, 'f) inf_args \<Rightarrow> nat" where
  "attempts args = unat (u8_saturating_add (ia_retries args) 1)"

definition never_ran :: "build_trace \<Rightarrow> bool" where
  "never_ran t \<longleftrightarrow> bt_polls t = 0 \<and> bt_calls t = 0 \<and> bt_slept t = []"

fun ack_ok :: "('p, 'i, 'o, 'e, 'f) inf_args \<Rightarrow> build_trace \<Rightarrow> 'f start_ack \<Rightarrow> bool" where
  "ack_ok args t (Inr u) \<longleftrightarrow> (\<exists>k p. k < attempts args \<and> k < bt_calls t
     \<and> ia_factory args k (ia_worker_id args) = Returned (Inr p)
     \<and> (\<forall>j < k. factory_fails (ia_factory args j (ia_worker_id args))))"
| "ack_ok args t (Inl (WorkerStartFailure w err)) \<longleftrightarrow> w = ia_worker_id args \<and> bt_calls t = attempts args
     \<and> ia_factory args (attempts args - 1) w = Returned (Inl err)
     \<and> (\<forall>j < attempts args. factory_fails (ia_factory args j w))"
| "ack_ok args t (Inl (WorkerStartPanic w)) \<longleftrightarrow> w = ia_worker_id args \<and> bt_calls t = attempts args
     \<and> ia_factory args (attempts args - 1) w = Panicked
     \<and> (\<forall>j < attempts args. factory_fails (ia_factory args j w))"
| "ack_ok args t (Inl StartupInternalError) \<longleftrightarrow> never_ran t"
| "ack_ok args t (Inl Timeout) \<longleftrightarrow> False"

lemma inf_start_ack_ok:
  assumes "inf_start args closed acked (th, sh) = (th', sh')" and "bt_calls (it_trace th) = 0"
    and "it_ack th = None" and "it_ack th' = Some ack"
  shows "ack_ok args (it_trace th') ack" and "isl ack \<Longrightarrow> it_pc th' = InfExiting"
proof -
  obtain r t where build: "spawn_predictor (ia_factory args) (ia_worker_id args) (u8_saturating_add (ia_retries args) 1)
      (ia_backoff args) (ia_max_wait args) closed (it_trace th) = (r, t)"
    by fastforce
  let ?waits = "backoff_schedule (u8_saturating_add (ia_retries args) 1) (ia_backoff args) (ia_max_wait args)"
  have len: "length ?waits = attempts args" by (simp add: attempts_def)
  have "0 < attempts args"
    by (simp add: attempts_def unat_gt_0 u8_saturating_add_one_pos)
  with len have waits: "?waits \<noteq> []" by (metis less_irrefl list.size(3))
  note ex = spawn_loop_explained [OF build [unfolded spawn_predictor_def], unfolded len]
  show "isl ack \<Longrightarrow> it_pc th' = InfExiting"
    using assms build by (cases r) (auto simp: inf_start_def Let_def split: if_splits)
  show "ack_ok args (it_trace th') ack"
  proof (cases r)
    case (Inr p)
    with assms build have "ack = Inr ()" "it_trace th' = t"
      by (auto simp: inf_start_def Let_def split: if_splits)
    moreover have "0 < bt_calls t" "bt_calls t \<le> attempts args" "ia_factory args (bt_calls t - 1) (ia_worker_id args) = Returned (Inr p)"
        "\<And>j. j < bt_calls t - 1 \<Longrightarrow> factory_fails (ia_factory args j (ia_worker_id args))"
      using ex waits Inr assms(2) by (auto simp: explains_def)
    ultimately show ?thesis
      by (auto intro!: exI [of _ "bt_calls t - 1"])
  next
    case (Inl failure)
    with ex waits assms build show ?thesis
      by (cases failure) (auto simp: inf_start_def Let_def explains_def)
  qed
qed

text \<open>A thread that acked a failure makes no further build, so its trace stays as it is; one that acked a
  success only adds to it.\<close>

lemma ack_ok_more: "ack_ok args t (Inr u) \<Longrightarrow> bt_calls t \<le> bt_calls t' \<Longrightarrow> ack_ok args t' (Inr u)"
  by auto

fun leaving_runner :: "('p, 'i, 's) inf_pc \<Rightarrow> bool" where
  "leaving_runner InfExiting \<longleftrightarrow> True"
| "leaving_runner InfExited \<longleftrightarrow> True"
| "leaving_runner InfReleased \<longleftrightarrow> True"
| "leaving_runner _ \<longleftrightarrow> False"

definition ack_inv :: "('i, 's, 'p, 'f, 'q, 'j, 'o, 'e) worker_env \<Rightarrow> ('i, 's, 'p, 'f, 'q, 'j, 'o, 'e) worker_sys \<Rightarrow> bool" where
  "ack_inv W s \<longleftrightarrow> (it_pc (wk_inf s) = InfStarting \<longrightarrow> it_ack (wk_inf s) = None \<and> never_ran (it_trace (wk_inf s)))
     \<and> (\<forall>ack. it_ack (wk_inf s) = Some ack \<longrightarrow> ack_ok (we_args W) (it_trace (wk_inf s)) ack
          \<and> (isl ack \<longrightarrow> leaving_runner (it_pc (wk_inf s))))"

lemma inf_step_starting:
  assumes "inf_step args J d (th, sh) = Some (th', sh')" and "it_pc th = InfStarting"
  obtains (Start) closed acked where "d = InfStart closed acked" "inf_start args closed acked (th, sh) = (th', sh')"
    | (Fails) "d = InfSpawnFails" "it_ack th' = Some (Inl StartupInternalError)" "it_pc th' = InfReleased"
        "it_trace th' = it_trace th"
proof (cases d)
  case InfSpawnFails
  with assms Fails show thesis by (auto simp: spawn_failed_def inf_drop_def split: prod.splits)
qed (use assms Start in auto)

lemma inf_step_trace:
  assumes "inf_step args J d (th, sh) = Some (th', sh')" and "it_pc th \<noteq> InfStarting"
  shows "bt_calls (it_trace th) \<le> bt_calls (it_trace th')"
    and "leaving_runner (it_pc th) \<Longrightarrow> leaving_runner (it_pc th') \<and> it_trace th' = it_trace th"
proof -
  have build: "bt_calls t \<le> bt_calls t'" if "spawn_predictor f w n b m e t = (r, t')" for f w n b m e t r t'
    using spawn_loop_explained [OF that [unfolded spawn_predictor_def]] by simp
  show "bt_calls (it_trace th) \<le> bt_calls (it_trace th')"
    using assms
    by (cases d; cases "it_pc th")
      (auto simp: inf_receive_def inf_predict_def inf_handle_panic_def inf_rebuild_def inf_drop_def inf_die_def Let_def
        split: prod.splits recv_outcome.splits option.splits unwind.splits sum.splits if_splits dest: build)
  show "leaving_runner (it_pc th) \<Longrightarrow> leaving_runner (it_pc th') \<and> it_trace th' = it_trace th"
    using assms by (cases d; cases "it_pc th") (auto simp: inf_drop_def split: prod.splits)
qed

context worker_model
begin

lemma ack_inv_step:
  assumes "ack_inv W s" and "worker_step W s t"
  shows "ack_inv W t"
  using assms(2)
proof (cases rule: worker_step.cases)
  case (inf_moves d th sh)
  show ?thesis
  proof (cases "it_pc (wk_inf s) = InfStarting")
    case True
    then have fresh: "it_ack (wk_inf s) = None" "never_ran (it_trace (wk_inf s))"
      using assms(1) by (simp_all add: ack_inv_def)
    from inf_moves(2) True show ?thesis
    proof (cases rule: inf_step_starting)
      case (Start closed acked)
      have "it_pc th \<noteq> InfStarting"
        using inf_start_fine(1) [OF inf_moves(2) True fresh(1)] by simp
      with inf_start_ack_ok [OF Start(2) _ fresh(1)] fresh(2) inf_moves(1) show ?thesis
        by (auto simp: ack_inv_def never_ran_def)
    qed (use inf_moves(1) fresh(2) in \<open>simp add: ack_inv_def\<close>)
  next
    case False
    note kept = inf_step_ack [OF inf_moves(2) False] and trace = inf_step_trace [OF inf_moves(2) False]
    have "ack_ok (we_args W) (it_trace th) ack \<and> (isl ack \<longrightarrow> leaving_runner (it_pc th))"
      if "it_ack (wk_inf s) = Some ack" for ack
      using assms(1) that trace ack_ok_more [OF _ trace(1)] by (cases ack) (auto simp: ack_inv_def simp del: ack_ok.simps)
    with kept inf_moves(1) show ?thesis
      by (simp add: ack_inv_def)
  qed
qed (use assms(1) in \<open>simp_all add: ack_inv_def\<close>)

lemma reached_ack: "worker_reach W cfg queue_sz s \<Longrightarrow> ack_inv W s"
proof (induction rule: reach.induct)
  case (reach_start s)
  then show ?case by (auto simp: worker_start_def new_worker_sys_def new_inf_thread_def ack_inv_def never_ran_def)
qed (rule ack_inv_step)

end

subsection \<open>\<open>get_batcher\<close> while it waits\<close>

text \<open>Where \<open>get_batcher\<close> is: waiting in \<open>collect_acks\<close>, returned with the batcher, returned with an
  error, dropped by its caller, or panicked on an overflow of its counter.\<close>

datatype 'f boot_status = Booting | Booted | BootFailed "'f startup_error" | BootAbandoned | BootPanicked

record ('i, 's, 'p, 'f, 'q, 'j, 'o, 'e, 'n, 'a) boot_sys =
  bo_pool :: "('i, 's, 'p, 'f, 'q, 'j, 'o, 'e, 'n) pool_sys"
  bo_acks :: 'a
  bo_acked :: u8
  bo_status :: "'f boot_status"

text \<open>One turn of the loop of \<open>poll_acks\<close>, given what \<open>rxs.recv()\<close> yields.\<close>

fun ack_turn :: "u8 \<Rightarrow> u8 \<Rightarrow> 'f start_ack recv_outcome \<Rightarrow> u8 \<times> 'f boot_status" where
  "ack_turn pool_sz acked RecvEmpty = (acked, Booting)"
| "ack_turn pool_sz acked RecvClosed = (acked, BootFailed StartupInternalError)"
| "ack_turn pool_sz acked (RecvMsg (Inl e)) = (acked, BootFailed e)"
| "ack_turn pool_sz acked (RecvMsg (Inr u)) =
     (if acked = 255 then (acked, BootPanicked)
      else (acked + 1, if acked + 1 = pool_sz then Booted else Booting))"

text \<open>These turns are those of \<open>poll_acks\<close> in \<open>Setup\<close>.\<close>

lemma ack_turn_poll_acks:
  "poll_acks_from pool_sz closed acked (a # acks) =
    (case ack_turn pool_sz acked (RecvMsg a) of
       (acked', Booting) \<Rightarrow> poll_acks_from pool_sz closed acked' acks
     | (_, Booted) \<Rightarrow> Some (Ready (Inr ()))
     | (_, BootFailed e) \<Rightarrow> Some (Ready (Inl e))
     | _ \<Rightarrow> None)"
  by (cases a) auto

definition close_pool ::
  "('i, 's, 'p, 'f, 'q, 'j, 'o, 'e, 'n) pool_env \<Rightarrow> ('i, 's, 'p, 'f, 'q, 'j, 'o, 'e, 'n) pool_sys
     \<Rightarrow> ('i, 's, 'p, 'f, 'q, 'j, 'o, 'e, 'n) pool_sys" where
  "close_pool P p = p\<lparr>ps_phase := PoolClosed, ps_workers :=
     map (\<lambda>i. drop_handles (we_requests (pe_worker P i)) (ps_workers p ! i)) [0..<length (ps_workers p)]\<rparr>"

text \<open>\<open>get_batcher\<close> reaches a status. When it stops waiting, \<open>poll_acks\<close> has ended or is dropped, and the
  ack receiver with it; unless it hands the router out, the router goes too.\<close>

fun boot_end ::
  "('i, 's, 'p, 'f, 'q, 'j, 'o, 'e, 'n) pool_env \<Rightarrow> ('a, 'f start_ack) mpsc \<Rightarrow> 'f boot_status
     \<Rightarrow> ('i, 's, 'p, 'f, 'q, 'j, 'o, 'e, 'n, 'a) boot_sys \<Rightarrow> ('i, 's, 'p, 'f, 'q, 'j, 'o, 'e, 'n, 'a) boot_sys" where
  "boot_end P A Booting b = b"
| "boot_end P A Booted b = b\<lparr>bo_status := Booted, bo_acks := snd (mp_drop_receiver A (bo_acks b)),
     bo_pool := (bo_pool b)\<lparr>ps_phase := PoolServing\<rparr>\<rparr>"
| "boot_end P A st b = b\<lparr>bo_status := st, bo_acks := snd (mp_drop_receiver A (bo_acks b)),
     bo_pool := close_pool P (bo_pool b)\<rparr>"

text \<open>What an inference thread sees of the ack channel during its start-up: a look can only see it
  closed if it is closed by the end, and only then does the send fail.\<close>

fun boot_answer :: "('a, 'f start_ack) mpsc \<Rightarrow> 'a \<Rightarrow> 's inf_choice \<Rightarrow> 's inf_choice" where
  "boot_answer A q (InfStart closed acked) = InfStart (\<lambda>k. mp_receiver_gone A q \<and> closed k) (\<not> mp_receiver_gone A q)"
| "boot_answer A q d = d"

text \<open>The thread's ack, if it has one to send, and then the end of its sender: the channel loses its
  last sender when no other thread is in its start-up.\<close>

definition send_ack :: "('a, 'f start_ack) mpsc \<Rightarrow> 'f start_ack option \<Rightarrow> bool \<Rightarrow> 'a \<Rightarrow> 'a" where
  "send_ack A ack final q =
     (let q1 = (case ack of None \<Rightarrow> q | Some a \<Rightarrow> snd (mp_try_send A a q))
      in if final then mp_drop_senders A q1 else q1)"

definition in_startup :: "('i, 's, 'p, 'f, 'q, 'j, 'o, 'e) worker_sys \<Rightarrow> bool" where
  "in_startup w \<longleftrightarrow> it_pc (wk_inf w) = InfStarting"

text \<open>The steps the pool and \<open>get_batcher\<close> make by themselves.\<close>

inductive boot_own_step ::
  "('i, 's, 'p, 'f, 'q, 'j, 'o, 'e, 'n) pool_env \<Rightarrow> ('a, 'f start_ack) mpsc \<Rightarrow> u8
     \<Rightarrow> ('i, 's, 'p, 'f, 'q, 'j, 'o, 'e, 'n, 'a) boot_sys \<Rightarrow> ('i, 's, 'p, 'f, 'q, 'j, 'o, 'e, 'n, 'a) boot_sys \<Rightarrow> bool"
  for P :: "('i, 's, 'p, 'f, 'q, 'j, 'o, 'e, 'n) pool_env" and A :: "('a, 'f start_ack) mpsc" and sz :: u8 where
  builds: "i < length (ps_workers p) \<Longrightarrow> p = bo_pool b \<Longrightarrow> W = pe_worker P i \<Longrightarrow> s = ps_workers p ! i
    \<Longrightarrow> in_startup s
    \<Longrightarrow> inf_step (we_args W) (we_jobs W) (boot_answer A (bo_acks b) d) (wk_inf s, wk_shared s) = Some (th, sh)
    \<Longrightarrow> p' = set_worker (pe_signal P) i (s\<lparr>wk_inf := th, wk_shared := sh\<rparr>) p
    \<Longrightarrow> boot_own_step P A sz b (b\<lparr>bo_pool := p',
          bo_acks := send_ack A (it_ack th) (\<forall>w \<in> set (ps_workers p'). \<not> in_startup w) (bo_acks b)\<rparr>)"
| runs: "pool_own_step P (bo_pool b) p' \<Longrightarrow> map in_startup (ps_workers p') = map in_startup (ps_workers (bo_pool b))
    \<Longrightarrow> boot_own_step P A sz b (b\<lparr>bo_pool := p'\<rparr>)"
| polls: "bo_status b = Booting \<Longrightarrow> mp_poll_recv A (bo_acks b) = (r, q) \<Longrightarrow> r \<noteq> RecvEmpty
    \<Longrightarrow> ack_turn sz (bo_acked b) r = (acked, st)
    \<Longrightarrow> boot_own_step P A sz b (boot_end P A st (b\<lparr>bo_acks := q, bo_acked := acked\<rparr>))"

text \<open>And those of the timer, of the caller of \<open>get_batcher\<close>, and of the users of the batcher.\<close>

inductive boot_step ::
  "('i, 's, 'p, 'f, 'q, 'j, 'o, 'e, 'n) pool_env \<Rightarrow> ('a, 'f start_ack) mpsc \<Rightarrow> u8
     \<Rightarrow> ('i, 's, 'p, 'f, 'q, 'j, 'o, 'e, 'n, 'a) boot_sys \<Rightarrow> ('i, 's, 'p, 'f, 'q, 'j, 'o, 'e, 'n, 'a) boot_sys \<Rightarrow> bool"
  for P :: "('i, 's, 'p, 'f, 'q, 'j, 'o, 'e, 'n) pool_env" and A :: "('a, 'f start_ack) mpsc" and sz :: u8 where
  boot_own: "boot_own_step P A sz b b' \<Longrightarrow> boot_step P A sz b b'"
| times_out: "bo_status b = Booting \<Longrightarrow> boot_step P A sz b (boot_end P A (BootFailed Timeout) b)"
| abandoned: "bo_status b = Booting \<Longrightarrow> boot_step P A sz b (boot_end P A BootAbandoned b)"
| used: "bo_status b = Booted \<Longrightarrow> pool_step P (bo_pool b) p' \<Longrightarrow> boot_step P A sz b (b\<lparr>bo_pool := p'\<rparr>)"

text \<open>The start: the pool before its first step, and the ack channel with room for every worker.\<close>

definition boot_start ::
  "('i, 's, 'p, 'f, 'q, 'j, 'o, 'e, 'n) pool_env \<Rightarrow> ('a, 'f start_ack) mpsc \<Rightarrow> inner_config \<Rightarrow> nat \<Rightarrow> u8
     \<Rightarrow> ('i, 's, 'p, 'f, 'q, 'j, 'o, 'e, 'n, 'a) boot_sys \<Rightarrow> bool" where
  "boot_start P A cfg queue_sz sz b \<longleftrightarrow> pool_start P cfg queue_sz (unat sz) (bo_pool b)
     \<and> bo_acks b = mp_channel A (unat sz) \<and> bo_acked b = 0 \<and> bo_status b = Booting"

abbreviation boot_reach ::
  "('i, 's, 'p, 'f, 'q, 'j, 'o, 'e, 'n) pool_env \<Rightarrow> ('a, 'f start_ack) mpsc \<Rightarrow> inner_config \<Rightarrow> nat \<Rightarrow> u8
     \<Rightarrow> ('i, 's, 'p, 'f, 'q, 'j, 'o, 'e, 'n, 'a) boot_sys \<Rightarrow> bool" where
  "boot_reach P A cfg queue_sz sz \<equiv> reach (boot_start P A cfg queue_sz sz) (boot_step P A sz)"

end
