(* ===== verification/Startup_Invariant.thy ===== *)
theory Startup_Invariant
  imports Pool_Startup
begin

text \<open>
  The invariant of a starting pool, in the locale \<open>boot_model\<close> over a pool and an ack channel that meet
  their contracts: the acks in the channel and the acks received are those the workers have sent, the
  status of \<open>get_batcher\<close> agrees with them, and the pool is a reachable pool. A measure that every own
  step decreases shows that a start-up ends.
\<close>

subsection \<open>The invariant\<close>

fun somes :: "'x option list \<Rightarrow> 'x list" where
  "somes [] = []"
| "somes (None # xs) = somes xs"
| "somes (Some x # xs) = x # somes xs"

lemma set_somes: "x \<in> set (somes xs) \<longleftrightarrow> Some x \<in> set xs"
  by (induction xs rule: somes.induct) auto

lemma somes_append: "somes (xs @ ys) = somes xs @ somes ys"
  by (induction xs rule: somes.induct) auto

lemma length_somes_le: "length (somes xs) \<le> length xs"
  by (induction xs rule: somes.induct) auto

lemma length_somes: "None \<notin> set xs \<Longrightarrow> length (somes xs) = length xs"
  by (induction xs rule: somes.induct) auto

lemma length_somes_less: "None \<in> set xs \<Longrightarrow> length (somes xs) < length xs"
proof (induction xs rule: somes.induct)
  case (2 xs)
  then show ?case using length_somes_le [of xs] by simp
qed auto

lemma somes_update:
  "i < length xs \<Longrightarrow> xs ! i = None \<Longrightarrow> mset (somes (xs[i := y])) = mset (somes xs) + mset (somes [y])"
proof (induction xs arbitrary: i rule: somes.induct)
  case (2 xs)
  then show ?case by (cases i; cases y) auto
next
  case (3 x xs)
  then show ?case by (cases i) auto
qed simp

definition start_views :: "('i, 's, 'p, 'f, 'q, 'j, 'o, 'e) worker_sys list \<Rightarrow> (bool \<times> 'f start_ack option) list" where
  "start_views ws = map (\<lambda>w. (in_startup w, it_ack (wk_inf w))) ws"

definition acks_of :: "('i, 's, 'p, 'f, 'q, 'j, 'o, 'e) worker_sys list \<Rightarrow> 'f start_ack list" where
  "acks_of ws = somes (map snd (start_views ws))"

lemma set_acks_of: "a \<in> set (acks_of ws) \<longleftrightarrow> (\<exists>w \<in> set ws. it_ack (wk_inf w) = Some a)"
  by (auto simp: acks_of_def start_views_def set_somes image_iff eq_commute)

lemma acks_of_update:
  "i < length ws \<Longrightarrow> it_ack (wk_inf (ws ! i)) = None \<Longrightarrow>
    mset (acks_of (ws[i := w])) = mset (acks_of ws) + mset (somes [it_ack (wk_inf w)])"
  by (simp add: acks_of_def start_views_def map_update somes_update)

lemma threads_views:
  fixes ws ws' :: "('i, 's, 'p, 'f, 'q, 'j, 'o, 'e) worker_sys list"
  assumes "map wk_inf ws = map wk_inf ws'"
  shows "start_views ws = start_views ws'"
proof -
  have "start_views us = map (\<lambda>th. (it_pc th = InfStarting, it_ack th)) (map wk_inf us)"
    for us :: "('i, 's, 'p, 'f, 'q, 'j, 'o, 'e) worker_sys list"
    by (simp add: start_views_def in_startup_def)
  then show ?thesis by (simp only: assms)
qed

lemma startup_failure_Some: "(\<exists>err. startup_failure w failure = Some err) \<longleftrightarrow> failure \<noteq> Cancelled"
  by (cases failure) auto

text \<open>What a step of a call or of an accumulator leaves alone.\<close>

lemma worker_after_threads [simp]: "map wk_inf (ws[i := worker_after sent w (ws ! i)]) = map wk_inf ws"
  by (cases "i < length ws") (simp_all add: map_update list_update_same_conv list_update_beyond worker_after_def)

lemma set_call_workers [simp]: "ps_workers (set_call k pc p) = ps_workers p"
  by (simp add: set_call_def)

lemma route_call_threads [simp]: "map wk_inf (ps_workers (route_call P k reg pc p)) = map wk_inf (ps_workers p)"
proof (cases "route_target pc")
  case None
  then show ?thesis by (cases pc) (simp_all add: route_call_def Let_def)
next
  case (Some i)
  then show ?thesis by (simp add: route_call_def Let_def case_prod_unfold)
qed

lemma call_step_threads:
  assumes "call_step P k p = Some p'"
  shows "map wk_inf (ps_workers p') = map wk_inf (ps_workers p)"
  using assms
  by (cases "ca_pc (ps_callers p ! k)")
    (auto simp: call_step_def case_prod_unfold split: option.splits if_splits)

locale boot_model =
  pool_model P permit fut qi qc qr qt ji jc jr jt cfg queue_sz n + acks: mpsc_channel A ai ac ar at
  for P :: "('i, 's, 'p, 'f, 'q, 'j, 'o, 'e, 'n) pool_env" and permit fut
    and qi :: "'q \<Rightarrow> ('i \<times> 's) list" and qc qr qt
    and ji :: "'j \<Rightarrow> ('i, 's) worker_buffer list" and jc jr jt cfg queue_sz n
    and A :: "('a, 'f start_ack) mpsc" and ai ac ar at
  + fixes sz :: u8
  assumes pool_size_fits: "unat sz = n"
begin

definition awaiting_acks :: "('i, 's, 'p, 'f, 'q, 'j, 'o, 'e, 'n, 'a) boot_sys \<Rightarrow> bool" where
  "awaiting_acks b \<longleftrightarrow> (let v = start_views (ps_workers (bo_pool b)); q = bo_acks b
     in ps_phase (bo_pool b) = PoolStarting \<and> ar q \<and> ac q = n \<and> (at q \<longleftrightarrow> True \<in> fst ` set v)
        \<and> unat (bo_acked b) < n
        \<and> mset (ai q) + replicate_mset (unat (bo_acked b)) (Inr ()) = mset (acks_of (ps_workers (bo_pool b)))
        \<and> (\<forall>x \<in> set v. fst x \<or> snd x \<noteq> None))"

definition boot_closed :: "('i, 's, 'p, 'f, 'q, 'j, 'o, 'e, 'n, 'a) boot_sys \<Rightarrow> bool" where
  "boot_closed b \<longleftrightarrow> ps_phase (bo_pool b) = PoolClosed \<and> ps_callers (bo_pool b) = [] \<and> \<not> ar (bo_acks b)"

definition status_ok :: "('i, 's, 'p, 'f, 'q, 'j, 'o, 'e, 'n, 'a) boot_sys \<Rightarrow> bool" where
  "status_ok b \<longleftrightarrow>
     (case bo_status b of
          Booting \<Rightarrow> awaiting_acks b
        | Booted \<Rightarrow> ps_phase (bo_pool b) \<noteq> PoolStarting
            \<and> (\<forall>x \<in> set (start_views (ps_workers (bo_pool b))). x = (False, Some (Inr ())))
        | BootFailed e \<Rightarrow> boot_closed b \<and> (e = Timeout \<or> Inl e \<in> set (acks_of (ps_workers (bo_pool b))))
        | BootAbandoned \<Rightarrow> boot_closed b
        | BootPanicked \<Rightarrow> False)"

definition boot_inv :: "('i, 's, 'p, 'f, 'q, 'j, 'o, 'e, 'n, 'a) boot_sys \<Rightarrow> bool" where
  "boot_inv b \<longleftrightarrow> pool_reach P cfg queue_sz n (bo_pool b) \<and> status_ok b"

lemma boot_start_inv:
  assumes "boot_start P A cfg queue_sz sz b"
  shows "boot_inv b"
proof -
  have start: "pool_start P cfg queue_sz n (bo_pool b)" and parts: "bo_acks b = mp_channel A n" "bo_acked b = 0"
      "bo_status b = Booting"
    using assms by (simp_all add: boot_start_def pool_size_fits)
  have views: "start_views (ps_workers (bo_pool b)) = replicate n (True, None)"
    using start by (intro nth_equalityI)
      (auto simp: pool_start_def start_views_def worker_start_def new_worker_sys_def new_inf_thread_def in_startup_def)
  moreover have "somes (replicate k (None :: 'f start_ack option)) = []" for k
    by (induction k) simp_all
  ultimately have "acks_of (ps_workers (bo_pool b)) = []"
    by (simp add: acks_of_def map_replicate)
  then show ?thesis
    using start parts views acks.channel_new [OF pool_pos] pool_pos
    by (auto simp: boot_inv_def status_ok_def awaiting_acks_def pool_start_def Let_def intro: reach_start)
qed

text \<open>A thread in its start-up leaves it with its next step, and while the ack channel is open it acks.\<close>

lemma startup_worker:
  assumes "pool_reach P cfg queue_sz n p" and "i < n" and "in_startup (ps_workers p ! i)"
  shows "it_ack (wk_inf (ps_workers p ! i)) = None" and "bt_calls (it_trace (wk_inf (ps_workers p ! i))) = 0"
  using worker_model.reached_ack [OF workers [OF assms(2)] reached_worker [OF reach_pool_inv [OF assms(1)] assms(2)]] assms(3)
  by (auto simp: ack_inv_def in_startup_def never_ran_def)

lemma startup_step:
  assumes "pool_reach P cfg queue_sz n p" and "i < n" and "in_startup (ps_workers p ! i)"
    and "inf_step (we_args (pe_worker P i)) (we_jobs (pe_worker P i)) d
      (wk_inf (ps_workers p ! i), wk_shared (ps_workers p ! i)) = Some (th, sh)"
  shows "it_pc th \<noteq> InfStarting"
    and "(\<And>closed acked. d = InfStart closed acked \<Longrightarrow> closed = (\<lambda>k. False) \<and> acked) \<Longrightarrow> it_ack th \<noteq> None"
proof -
  have pc: "it_pc (wk_inf (ps_workers p ! i)) = InfStarting" using assms(3) by (simp add: in_startup_def)
  show "it_pc th \<noteq> InfStarting"
    using worker_model.inf_start_fine(1) [OF workers [OF assms(2)] assms(4) pc startup_worker(1) [OF assms(1-3)]] by simp
  show "it_ack th \<noteq> None" if open_chan: "\<And>closed acked. d = InfStart closed acked \<Longrightarrow> closed = (\<lambda>k. False) \<and> acked"
    using assms(4) pc
  proof (cases rule: inf_step_starting)
    case (Start closed acked)
    let ?args = "we_args (pe_worker P i)"
    obtain r t where build: "spawn_predictor (ia_factory ?args) (ia_worker_id ?args) (u8_saturating_add (ia_retries ?args) 1)
        (ia_backoff ?args) (ia_max_wait ?args) closed (it_trace (wk_inf (ps_workers p ! i))) = (r, t)"
      by fastforce
    have "unat (u8_saturating_add (ia_retries ?args) 1) \<noteq> 0"
      using u8_saturating_add_one_pos by (simp add: unat_eq_0)
    then have "backoff_schedule (u8_saturating_add (ia_retries ?args) 1) (ia_backoff ?args) (ia_max_wait ?args) \<noteq> []"
      by (metis length_backoff_schedule list.size(3))
    then have "r \<noteq> Inl Cancelled"
      using spawn_loop_explained [OF build [unfolded spawn_predictor_def]] open_chan [OF Start(1)]
      by (auto simp: explains_def)
    then show ?thesis
      using Start(2) build open_chan [OF Start(1)]
      by (cases r) (auto simp: inf_start_def Let_def startup_failure_Some)
  qed simp
qed

lemma boot_answer_pool:
  assumes "inf_step args J (boot_answer A q d) (th, sh) = Some c" and "it_pc th = InfStarting"
    and "ar q \<longleftrightarrow> ph \<noteq> PoolClosed"
  shows "boot_answer A q d = inf_answer ph gone (boot_answer A q d)"
  using assms by (cases d) (auto simp: acks.receiver_gone)


lemma own_step_views:
  assumes "pool_reach P cfg queue_sz n p" and "pool_own_step P p p'"
    and "map in_startup (ps_workers p') = map in_startup (ps_workers p) \<or> (\<forall>w \<in> set (ps_workers p). \<not> in_startup w)"
  shows "start_views (ps_workers p') = start_views (ps_workers p)"
  using assms(2)
proof (cases rule: pool_own_step.cases)
  case (acc_acts i W s c ac sh)
  then show ?thesis
    by (intro threads_views) (simp add: set_worker_def map_update list_update_same_conv)
next
  case (inf_acts i W s d th sh)
  have i: "i < n"
    using inf_acts(2) reach_pool_inv [OF assms(1)] by (simp add: pool_inv_defs)
  have "\<not> in_startup (ps_workers p ! i)"
  proof
    assume st: "in_startup (ps_workers p ! i)"
    have "\<not> in_startup (ps_workers p' ! i)"
      using startup_step(1) [OF assms(1) i st] inf_acts by (simp add: set_worker_def in_startup_def)
    moreover have "length (ps_workers p') = length (ps_workers p)"
      using inf_acts(1) by (simp add: set_worker_def)
    ultimately have "map in_startup (ps_workers p') ! i \<noteq> map in_startup (ps_workers p) ! i"
      using st inf_acts(2) by simp
    then have "\<forall>w \<in> set (ps_workers p). \<not> in_startup w"
      using assms(3) by auto
    with st inf_acts(2) show False by simp
  qed
  then have "it_pc (wk_inf s) \<noteq> InfStarting" using inf_acts(4) by (simp add: in_startup_def)
  with worker_model.inf_step_ack [OF workers [OF i] inf_acts(5) [unfolded inf_acts(3)]]
  have "it_pc th \<noteq> InfStarting" "it_ack th = it_ack (wk_inf s)" by simp_all
  with inf_acts \<open>it_pc (wk_inf s) \<noteq> InfStarting\<close> show ?thesis
    by (simp add: start_views_def set_worker_def in_startup_def map_update list_update_same_conv)
next
  case (caller_acts k)
  then show ?thesis by (intro threads_views call_step_threads)
qed

text \<open>The steps that build are steps of the pool.\<close>

lemma boot_phase:
  assumes "boot_inv b" and "w \<in> set (ps_workers (bo_pool b))" and "in_startup w"
  shows "ar (bo_acks b) \<longleftrightarrow> ps_phase (bo_pool b) \<noteq> PoolClosed"
proof -
  have "(True, it_ack (wk_inf w)) \<in> set (start_views (ps_workers (bo_pool b)))"
    using assms(2,3) by (force simp: start_views_def)
  with assms(1) show ?thesis
    by (cases "bo_status b") (auto simp: boot_inv_def status_ok_def awaiting_acks_def boot_closed_def Let_def)
qed

lemma length_views [simp]: "length (start_views ws) = length ws"
  by (simp add: start_views_def)

lemma views_update:
  "i < length ws \<Longrightarrow> start_views (ws[i := w]) = (start_views ws)[i := (in_startup w, it_ack (wk_inf w))]"
  by (simp add: start_views_def map_update)

lemma all_acked_full:
  assumes "pool_reach P cfg queue_sz n p" and "n \<le> length (acks_of (ps_workers p))"
  shows "\<forall>w \<in> set (ps_workers p). it_ack (wk_inf w) \<noteq> None"
proof (rule ccontr)
  assume "\<not> ?thesis"
  then have "None \<in> set (map snd (start_views (ps_workers p)))"
    by (auto simp: start_views_def comp_def image_iff) metis
  from length_somes_less [OF this] have "length (acks_of (ps_workers p)) < n"
    using reach_pool_inv [OF assms(1)] by (simp add: acks_of_def pool_inv_defs)
  with assms(2) show False by simp
qed

lemma close_pool_reach:
  assumes "pool_reach P cfg queue_sz n p" and "ps_callers p = []"
  shows "pool_reach P cfg queue_sz n (close_pool P p)"
  using assms pool_step.closes [of p P] by (auto simp: close_pool_def intro: reach_step)

lemma drop_handles_threads: "map wk_inf (map (\<lambda>i. drop_handles (Q i) (ws ! i)) [0..<length ws]) = map wk_inf ws"
  by (rule nth_equalityI) (simp_all add: drop_handles_def)

lemma close_pool_fields [simp]:
  "ps_phase (close_pool P p) = PoolClosed" "ps_callers (close_pool P p) = ps_callers p"
  "start_views (ps_workers (close_pool P p)) = start_views (ps_workers p)"
  using threads_views [OF drop_handles_threads [of "\<lambda>i. we_requests (pe_worker P i)" "ps_workers p"]]
  by (simp_all add: close_pool_def)

lemma close_pool_acks [simp]: "acks_of (ps_workers (close_pool P p)) = acks_of (ps_workers p)"
  by (simp add: acks_of_def)

lemma boot_failed_inv:
  assumes "boot_inv b" and "bo_status b = Booting" and "st = BootAbandoned \<or> (\<exists>e. st = BootFailed e
      \<and> (e = Timeout \<or> Inl e \<in> set (acks_of (ps_workers (bo_pool b)))))"
  shows "boot_inv (boot_end P A st (b\<lparr>bo_acks := q, bo_acked := k\<rparr>))"
proof -
  have p: "pool_reach P cfg queue_sz n (bo_pool b)" "ps_callers (bo_pool b) = []"
    using assms(1,2) reach_pool_inv [of "bo_pool b"]
    by (auto simp: boot_inv_def status_ok_def awaiting_acks_def Let_def pool_inv_defs)
  with assms(3) close_pool_reach [OF p] acks.drop_receiver [of q] show ?thesis
    by (auto simp: boot_inv_def status_ok_def boot_closed_def)
qed

lemma polls_inv:
  assumes "boot_inv b" and "bo_status b = Booting" and "mp_poll_recv A (bo_acks b) = (r, q)" and "r \<noteq> RecvEmpty"
    and "ack_turn sz (bo_acked b) r = (acked, st)"
  shows "boot_inv (boot_end P A st (b\<lparr>bo_acks := q, bo_acked := acked\<rparr>))"
proof -
  let ?p = "bo_pool b" and ?k = "unat (bo_acked b)"
  have reach: "pool_reach P cfg queue_sz n ?p" and phase: "ps_phase ?p = PoolStarting" "?k < n"
    and chan: "ar (bo_acks b)" "ac (bo_acks b) = n" "at (bo_acks b) \<longleftrightarrow> True \<in> fst ` set (start_views (ps_workers ?p))"
    and acks: "mset (ai (bo_acks b)) + replicate_mset ?k (Inr ()) = mset (acks_of (ps_workers ?p))"
    and acked: "\<forall>x \<in> set (start_views (ps_workers ?p)). fst x \<or> snd x \<noteq> None"
    using assms(1,2) by (auto simp: boot_inv_def status_ok_def awaiting_acks_def Let_def)
  have len: "length (ps_workers ?p) = n"
    using reach_pool_inv [OF reach] by (simp add: pool_inv_defs)
  have small: "n \<le> 255" using unsigned_less [of sz, where ?'a = nat] pool_size_fits by simp
  show ?thesis
  proof (cases rule: acks.poll_recv_cases [of "bo_acks b"])
    case (Msg m ms q')
    then have rq: "r = RecvMsg m" "q = q'" using assms(3) by simp_all
    have m: "m \<in> set (acks_of (ps_workers ?p))"
      using acks Msg(1) by (metis add_mset_add_single list.set_intros(1) mset.simps(2) set_mset_mset union_iff)
    show ?thesis
    proof (cases m)
      case (Inl e)
      with assms(5) rq m show ?thesis
        by (intro boot_failed_inv [OF assms(1,2)]) auto
    next
      case (Inr u)
      have "bo_acked b \<noteq> 255" using phase(2) small by auto
      then have acked': "acked = bo_acked b + 1" and st: "st = (if bo_acked b + 1 = sz then Booted else Booting)"
        using assms(5) rq Inr by (auto split: if_splits)
      have k: "unat (bo_acked b + 1) = ?k + 1"
        using phase(2) small by (simp add: unat_word_ariths)
      then have last_ack: "bo_acked b + 1 = sz \<longleftrightarrow> ?k + 1 = n"
        by (simp add: word_unat_eq_iff pool_size_fits)
      have acks': "mset (ai q) + replicate_mset (?k + 1) (Inr ()) = mset (acks_of (ps_workers ?p))"
        using acks Msg Inr rq by simp
      show ?thesis
      proof (cases "?k + 1 = n")
        case True
        have size: "length (ai q) + n = length (acks_of (ps_workers ?p))"
          using arg_cong [OF acks', of size] True by simp
        moreover have "length (acks_of (ps_workers ?p)) \<le> n"
          using length_somes_le [of "map snd (start_views (ps_workers ?p))"] len by (simp add: acks_of_def)
        ultimately have "length (ai q) = 0" by linarith
        then have "ai q = []" by simp
        then have all: "mset (acks_of (ps_workers ?p)) = replicate_mset n (Inr ())" using acks' unfolding True by simp
        have "it_ack (wk_inf w) = Some (Inr ()) \<and> \<not> in_startup w" if w: "w \<in> set (ps_workers ?p)" for w
        proof -
          obtain i where i: "i < n" "w = ps_workers ?p ! i" using w len by (auto simp: in_set_conv_nth)
          obtain a where a: "it_ack (wk_inf w) = Some a"
            using all_acked_full [OF reach] size w by fastforce
          then have "a \<in># mset (acks_of (ps_workers ?p))"
            using w by (auto simp: set_acks_of)
          with all have "a = Inr ()" by (simp split: if_splits)
          with a startup_worker(1) [OF reach i(1)] i(2) show ?thesis by auto
        qed
        moreover have "pool_reach P cfg queue_sz n (?p\<lparr>ps_phase := PoolServing\<rparr>)"
          using calculation by (intro reach_step [OF reach] pool_step.serves) (auto simp: phase(1))
        moreover have "st = Booted" using st last_ack True by simp
        ultimately show ?thesis
          by (auto simp: boot_inv_def status_ok_def start_views_def)
      next
        case False
        then have "st = Booting" using st last_ack by simp
        then show ?thesis
          using reach phase chan acks' acked k False Msg rq assms(2)
          by (simp add: boot_inv_def status_ok_def awaiting_acks_def Let_def acked')
      qed
    qed
  next
    case Empty
    with assms(3,4) show ?thesis by simp
  next
    case Disconnected
    then have "True \<notin> fst ` set (start_views (ps_workers ?p))" using chan(3) by simp
    with acked have "None \<notin> set (map snd (start_views (ps_workers ?p)))" by force
    from length_somes [OF this] have "length (acks_of (ps_workers ?p)) = n"
      using len by (simp add: acks_of_def)
    moreover have "length (acks_of (ps_workers ?p)) = ?k"
      using arg_cong [OF acks, of size] Disconnected(1) by simp
    ultimately show ?thesis using phase(2) by simp
  qed
qed

lemma builds_inv:
  assumes "boot_inv b" and "i < length (ps_workers (bo_pool b))" and "in_startup (ps_workers (bo_pool b) ! i)"
    and "inf_step (we_args (pe_worker P i)) (we_jobs (pe_worker P i)) (boot_answer A (bo_acks b) d)
      (wk_inf (ps_workers (bo_pool b) ! i), wk_shared (ps_workers (bo_pool b) ! i)) = Some (th, sh)"
  defines "p' \<equiv> set_worker (pe_signal P) i ((ps_workers (bo_pool b) ! i)\<lparr>wk_inf := th, wk_shared := sh\<rparr>) (bo_pool b)"
  shows "pool_own_step P (bo_pool b) p'"
    and "boot_inv (b\<lparr>bo_pool := p',
      bo_acks := send_ack A (it_ack th) (\<forall>w \<in> set (ps_workers p'). \<not> in_startup w) (bo_acks b)\<rparr>)"
proof -
  let ?p = "bo_pool b" and ?q = "bo_acks b"
  let ?w = "ps_workers ?p ! i"
  have reach: "pool_reach P cfg queue_sz n ?p" using assms(1) by (simp add: boot_inv_def)
  have i: "i < n" using assms(2) reach_pool_inv [OF reach] by (simp add: pool_inv_defs)
  have pc: "it_pc (wk_inf ?w) = InfStarting" using assms(3) by (simp add: in_startup_def)
  note phase = boot_phase [OF assms(1) nth_mem [OF assms(2)] assms(3)]
  show own: "pool_own_step P ?p p'"
    unfolding p'_def
    using boot_answer_pool [OF assms(4) pc phase, of "sender_gone (ps_callers ?p)"] assms(4)
    by (intro pool_own_step.inf_acts [OF assms(2) refl refl, where d = "boot_answer A ?q d"]) metis
  have reach': "pool_reach P cfg queue_sz n p'"
    by (rule reach_step [OF reach pool_step.own [OF own]])
  note left = startup_step [OF reach i assms(3) assms(4)]
  note ack0 = startup_worker(1) [OF reach i assms(3)]
  have p': "ps_phase p' = ps_phase ?p" "ps_callers p' = ps_callers ?p"
      "ps_workers p' = (ps_workers ?p)[i := ?w\<lparr>wk_inf := th, wk_shared := sh\<rparr>]"
    by (simp_all add: p'_def set_worker_def)
  have views: "start_views (ps_workers p') = (start_views (ps_workers ?p))[i := (False, it_ack th)]"
    using assms(2) left(1) by (simp add: p' views_update in_startup_def)
  have acks': "mset (acks_of (ps_workers p')) = mset (acks_of (ps_workers ?p)) + mset (somes [it_ack th])"
    using acks_of_update [OF assms(2) ack0] by (simp add: p')
  have final: "(\<forall>w \<in> set (ps_workers p'). \<not> in_startup w) \<longleftrightarrow> True \<notin> fst ` set (start_views (ps_workers p'))"
    by (force simp: start_views_def)
  show "boot_inv (b\<lparr>bo_pool := p', bo_acks := send_ack A (it_ack th) (\<forall>w \<in> set (ps_workers p'). \<not> in_startup w) ?q\<rparr>)"
  proof (cases "bo_status b")
    case Booting
    then have phase: "ps_phase ?p = PoolStarting" "unat (bo_acked b) < n"
      and chan: "ar ?q" "ac ?q = n" "at ?q"
      and acks: "mset (ai ?q) + replicate_mset (unat (bo_acked b)) (Inr ()) = mset (acks_of (ps_workers ?p))"
      and acked: "\<forall>x \<in> set (start_views (ps_workers ?p)). fst x \<or> snd x \<noteq> None"
      using assms(1) nth_mem [OF assms(2)] assms(3)
      by (auto simp: boot_inv_def status_ok_def awaiting_acks_def Let_def start_views_def)
    have "it_ack th \<noteq> None"
      using left(2) chan(1) by (cases d) (auto simp: acks.receiver_gone)
    then obtain a where a: "it_ack th = Some a" by blast
    have "None \<in> set (map snd (start_views (ps_workers ?p)))"
      using ack0 nth_mem [OF assms(2)] by (force simp: start_views_def)
    from length_somes_less [OF this] have "length (acks_of (ps_workers ?p)) < n"
      using reach_pool_inv [OF reach] by (simp add: acks_of_def pool_inv_defs)
    then have "length (ai ?q) < n"
      using arg_cong [OF acks, of size] by simp
    then obtain q' where q': "mp_try_send A a ?q = (SendOk, q')" "ai q' = ai ?q @ [a]" "ac q' = ac ?q" "ar q'" "at q' = at ?q"
      using acks.try_send_ok [of ?q a] chan by auto
    have "\<forall>x \<in> set (start_views (ps_workers p')). fst x \<or> snd x \<noteq> None"
      using acked a set_update_subset_insert [of "start_views (ps_workers ?p)" i "(False, it_ack th)"]
      by (auto simp: views)
    then show ?thesis
      using reach' phase chan q' acks acks' a acks.drop_senders [of q'] Booting
      by (simp add: boot_inv_def status_ok_def awaiting_acks_def Let_def p'(1,2) send_ack_def final)
  next
    case Booted
    then show ?thesis
      using assms(1) nth_mem [OF assms(2)] ack0 by (force simp: boot_inv_def status_ok_def start_views_def)
  next
    case (BootFailed e)
    then show ?thesis
      using assms(1) reach' p'(1,2) acks' acks.drop_senders acks.try_send_closed [of ?q]
      by (auto simp: boot_inv_def status_ok_def boot_closed_def send_ack_def Let_def simp flip: set_mset_mset
          split: option.splits)
  next
    case BootAbandoned
    then show ?thesis
      using assms(1) reach' p'(1,2) acks.drop_senders acks.try_send_closed [of ?q]
      by (auto simp: boot_inv_def status_ok_def boot_closed_def send_ack_def Let_def split: option.splits)
  next
    case BootPanicked
    with assms(1) show ?thesis by (simp add: boot_inv_def status_ok_def)
  qed
qed

lemma own_step_phase:
  assumes "pool_own_step P p p'"
  shows "ps_phase p' = ps_phase p" and "length (ps_callers p') = length (ps_callers p)"
  using assms
  by (cases rule: pool_own_step.cases; auto simp: set_worker_def call_step_def route_call_def set_call_def Let_def
      split: caller_pc.splits prod.splits option.splits route_pc.splits if_splits)+

lemma runs_inv:
  assumes "boot_inv b" and "pool_own_step P (bo_pool b) p'"
    and "map in_startup (ps_workers p') = map in_startup (ps_workers (bo_pool b))"
  shows "boot_inv (b\<lparr>bo_pool := p'\<rparr>)"
proof -
  have reach: "pool_reach P cfg queue_sz n (bo_pool b)" using assms(1) by (simp add: boot_inv_def)
  have "start_views (ps_workers p') = start_views (ps_workers (bo_pool b))"
    using own_step_views [OF reach assms(2)] assms(3) by blast
  moreover have "pool_reach P cfg queue_sz n p'"
    by (rule reach_step [OF reach pool_step.own [OF assms(2)]])
  ultimately show ?thesis
    using assms(1) own_step_phase [OF assms(2)]
    by (auto simp: boot_inv_def status_ok_def awaiting_acks_def boot_closed_def acks_of_def Let_def split: boot_status.splits)
qed

lemma used_inv:
  assumes "boot_inv b" and "bo_status b = Booted" and "pool_step P (bo_pool b) p'"
  shows "boot_inv (b\<lparr>bo_pool := p'\<rparr>)"
proof -
  have reach: "pool_reach P cfg queue_sz n (bo_pool b)" "pool_reach P cfg queue_sz n p'"
    using assms(1,3) by (auto simp: boot_inv_def intro: reach_step)
  have booted: "ps_phase (bo_pool b) \<noteq> PoolStarting"
      "\<forall>x \<in> set (start_views (ps_workers (bo_pool b))). x = (False, Some (Inr ()))"
    using assms(1,2) by (simp_all add: boot_inv_def status_ok_def)
  have "start_views (ps_workers p') = start_views (ps_workers (bo_pool b)) \<and> ps_phase p' \<noteq> PoolStarting"
    using assms(3)
  proof (cases rule: pool_step.cases)
    case own
    moreover have "\<forall>w \<in> set (ps_workers (bo_pool b)). \<not> in_startup w"
      using booted(2) by (auto simp: start_views_def)
    ultimately show ?thesis
      using own_step_views [OF reach(1)] own_step_phase(1) booted(1) by simp
  next
    case (cancelled k)
    then show ?thesis
      using booted(1) by (auto simp: cancel_call_def set_call_def split: caller_pc.splits)
  next
    case closes
    then show ?thesis
      using close_pool_fields(1,3) [of "bo_pool b"] by (simp add: close_pool_def)
  qed (use booted(1) in simp_all)
  with booted(2) reach(2) assms(2) show ?thesis
    by (simp add: boot_inv_def status_ok_def)
qed

lemma boot_step_inv:
  assumes "boot_inv b" and "boot_step P A sz b b'"
  shows "boot_inv b'"
  using assms(2)
proof (cases rule: boot_step.cases)
  case boot_own
  then show ?thesis
  proof (cases rule: boot_own_step.cases)
    case (builds i p W s d th sh p')
    with builds_inv(2) [OF assms(1)] show ?thesis by simp
  next
    case (runs p')
    with runs_inv [OF assms(1)] show ?thesis by simp
  next
    case (polls r q acked st)
    with polls_inv [OF assms(1)] show ?thesis by simp
  qed
next
  case times_out
  with boot_failed_inv [OF assms(1), where st = "BootFailed Timeout" and q = "bo_acks b" and k = "bo_acked b"] show ?thesis by simp
next
  case abandoned
  with boot_failed_inv [OF assms(1), where st = BootAbandoned and q = "bo_acks b" and k = "bo_acked b"] show ?thesis by simp
next
  case (used p')
  with used_inv [OF assms(1)] show ?thesis by simp
qed

end

sublocale boot_model \<subseteq> boot: invariant_system "boot_start P A cfg queue_sz sz" "boot_step P A sz" boot_inv
  by unfold_locales (fact boot_start_inv, fact boot_step_inv)

context boot_model
begin

subsection \<open>How long it takes\<close>

text \<open>What the pool can still do, and the acks still to be received.\<close>

definition boot_measure :: "('i, 's, 'p, 'f, 'q, 'j, 'o, 'e, 'n, 'a) boot_sys \<Rightarrow> nat" where
  "boot_measure b = pool_measure (bo_pool b) + (if bo_status b = Booting then n - unat (bo_acked b) else 0)"

lemma close_pool_measure: "length (ps_workers p) = n \<Longrightarrow> pool_measure (close_pool P p) = pool_measure p"
proof -
  assume len: "length (ps_workers p) = n"
  have "map (worker_measure qi ji) (ps_workers (close_pool P p)) = map (worker_measure qi ji) (ps_workers p)"
    using len workers [THEN worker_model.axioms(1), THEN mpsc_channel.drop_senders]
    by (intro nth_equalityI) (simp_all add: close_pool_def drop_handles_def worker_measure_def)
  then show ?thesis
    by (simp add: pool_measure_def close_pool_def)
qed

lemma own_step_boot_measure:
  assumes "boot_inv b" and "boot_own_step P A sz b b'"
  shows "boot_measure b' < boot_measure b"
proof -
  have reach: "pool_reach P cfg queue_sz n (bo_pool b)" using assms(1) by (simp add: boot_inv_def)
  note pinv = reach_pool_inv [OF reach] reach_wake [OF reach]
  from assms(2) show ?thesis
  proof (cases rule: boot_own_step.cases)
    case (builds i p W s d th sh p')
    have "pool_own_step P (bo_pool b) p'"
      using builds_inv(1) [OF assms(1)] builds by simp
    from own_step_pool_measure [OF pinv this] builds(1) show ?thesis
      by (simp add: boot_measure_def)
  next
    case (runs p')
    from own_step_pool_measure [OF pinv runs(2)] runs(1) show ?thesis
      by (simp add: boot_measure_def)
  next
    case (polls r q acked st)
    have len: "length (ps_workers (bo_pool b)) = n" using pinv(1) by (simp add: pool_inv_defs)
    have room: "unat (bo_acked b) < n"
      using assms(1) polls(2) by (simp add: boot_inv_def status_ok_def awaiting_acks_def Let_def)
    have "n \<le> 255" using unsigned_less [of sz, where ?'a = nat] pool_size_fits by simp
    with room have next_ack: "unat (bo_acked b + 1) = unat (bo_acked b) + 1"
      by (simp add: unat_word_ariths)
    have serving: "pool_measure ((bo_pool b)\<lparr>ps_phase := ph\<rparr>) = pool_measure (bo_pool b)" for ph
      by (simp add: pool_measure_def)
    show ?thesis
    proof (cases st)
      case Booting
      then have "acked = bo_acked b + 1"
        using polls(4,5) by (cases "(sz, bo_acked b, r)" rule: ack_turn.cases) (auto split: if_splits)
      with polls(1,2) Booting room next_ack show ?thesis by (simp add: boot_measure_def)
    qed (use polls(1,2) room len close_pool_measure serving in \<open>simp_all add: boot_measure_def\<close>)
  qed
qed

lemma own_boot_steps:
  "boot_inv b \<Longrightarrow> (boot_own_step P A sz ^^ k) b c \<Longrightarrow> boot_inv c \<and> boot_measure c + k \<le> boot_measure b"
proof (induction k arbitrary: c)
  case (Suc k)
  then obtain u where u: "(boot_own_step P A sz ^^ k) b u" "boot_own_step P A sz u c"
    by auto
  with Suc have "boot_inv u" "boot_measure u + k \<le> boot_measure b" by simp_all
  with own_step_boot_measure [OF _ u(2)] boot_step_inv [OF _ boot_own [OF u(2)]] show ?case by fastforce
qed simp

text \<open>A start-up that cannot go on has ended, and then the pool cannot go on either.\<close>

lemma boot_stuck:
  assumes "boot_inv b" and "\<And>b'. \<not> boot_own_step P A sz b b'"
  shows "bo_status b \<noteq> Booting" and "\<not> pool_own_step P (bo_pool b) p'"
proof -
  let ?p = "bo_pool b"
  have reach: "pool_reach P cfg queue_sz n ?p" using assms(1) by (simp add: boot_inv_def)
  have none: "\<not> in_startup w" if mem: "w \<in> set (ps_workers ?p)" for w
  proof
    assume st: "in_startup w"
    obtain i where i: "i < length (ps_workers ?p)" "w = ps_workers ?p ! i"
      using mem by (auto simp: in_set_conv_nth)
    obtain th sh where "inf_step (we_args (pe_worker P i)) (we_jobs (pe_worker P i)) (boot_answer A (bo_acks b) InfSpawnFails)
        (wk_inf w, wk_shared w) = Some (th, sh)"
      using st by (cases "spawn_failed (we_jobs (pe_worker P i)) (wk_inf w, wk_shared w)") (simp add: in_startup_def)
    from boot_own_step.builds [OF i(1) refl refl i(2) st this refl] assms(2) show False by blast
  qed
  show "bo_status b \<noteq> Booting"
  proof
    assume bt: "bo_status b = Booting"
    with assms(1) none have "\<not> at (bo_acks b)"
      by (auto simp: boot_inv_def status_ok_def awaiting_acks_def Let_def start_views_def)
    then obtain r q where "mp_poll_recv A (bo_acks b) = (r, q)" "r \<noteq> RecvEmpty"
      by (cases rule: acks.poll_recv_cases [of "bo_acks b"]) auto
    moreover obtain acked st where "ack_turn sz (bo_acked b) r = (acked, st)" by fastforce
    ultimately show False using boot_own_step.polls [OF bt] assms(2) by blast
  qed
  show "\<not> pool_own_step P ?p p'"
  proof
    assume own: "pool_own_step P ?p p'"
    have "start_views (ps_workers p') = start_views (ps_workers ?p)"
      using own_step_views [OF reach own] none by blast
    from arg_cong [OF this, of "map fst"] have "map in_startup (ps_workers p') = map in_startup (ps_workers ?p)"
      by (simp add: start_views_def comp_def)
    from boot_own_step.runs [OF own this] assms(2) show False by blast
  qed
qed

lemma boot_comes_to_rest:
  "boot_inv b \<Longrightarrow> \<exists>j r. (boot_own_step P A sz ^^ j) b r \<and> (\<forall>r'. \<not> boot_own_step P A sz r r')"
proof (induction "boot_measure b" arbitrary: b rule: less_induct)
  case less
  show ?case
  proof (cases "\<exists>b'. boot_own_step P A sz b b'")
    case True
    then obtain b' where b': "boot_own_step P A sz b b'" by blast
    have "boot_inv b'" by (rule boot_step_inv [OF less.prems boot_own [OF b']])
    with less.hyps own_step_boot_measure [OF less.prems b'] obtain j r
      where "(boot_own_step P A sz ^^ j) b' r" "\<forall>r'. \<not> boot_own_step P A sz r r'" by blast
    with b' show ?thesis by (metis relpowp_Suc_I2)
  next
    case False
    then have "(boot_own_step P A sz ^^ 0) b b \<and> (\<forall>r'. \<not> boot_own_step P A sz b r')" by simp
    then show ?thesis by blast
  qed
qed

text \<open>A start-up goes on to its end within a number of steps fixed by the size of the pool.\<close>

lemma boot_measure_le:
  assumes "boot_inv b"
  shows "boot_measure b \<le> pool_budget n queue_sz (length (ps_callers (bo_pool b))) + (if bo_status b = Booting then n else 0)"
proof -
  have "pool_measure (bo_pool b) \<le> pool_budget n queue_sz (length (ps_callers (bo_pool b)))"
    using assms by (intro pool_measure_le) (simp add: boot_inv_def)
  moreover have "(if bo_status b = Booting then n - unat (bo_acked b) else 0) \<le> (if bo_status b = Booting then n else 0)"
    by simp
  ultimately show ?thesis unfolding boot_measure_def by (rule add_le_mono)
qed

lemma boot_runs_out:
  assumes "boot_inv b" and "(boot_own_step P A sz ^^ k) b c"
  obtains j r where "k + j \<le> pool_budget n queue_sz (length (ps_callers (bo_pool b))) + (if bo_status b = Booting then n else 0)"
    and "(boot_own_step P A sz ^^ j) c r" and "boot_inv r" and "\<forall>r'. \<not> boot_own_step P A sz r r'"
proof -
  note c = own_boot_steps [OF assms]
  with boot_comes_to_rest obtain j r where r: "(boot_own_step P A sz ^^ j) c r" "\<forall>r'. \<not> boot_own_step P A sz r r'"
    by blast
  moreover have "k + j \<le> boot_measure b"
    using c own_boot_steps [OF _ r(1)] by fastforce
  ultimately show thesis
    using that own_boot_steps [OF _ r(1)] c boot_measure_le [OF assms(1)] by (meson order_trans)
qed

text \<open>By itself a start-up fails only on an ack.\<close>

definition same_outcome :: "'f boot_status \<Rightarrow> 'f boot_status \<Rightarrow> bool" where
  "same_outcome st st' \<longleftrightarrow> st' = st \<or> st = Booting \<and> (st' = Booted \<or> (\<exists>e. st' = BootFailed e \<and> e \<noteq> Timeout))"

lemma ack_not_timeout:
  assumes "pool_reach P cfg queue_sz n p" and "Inl e \<in> set (acks_of (ps_workers p))"
  shows "\<exists>i < n. it_ack (wk_inf (ps_workers p ! i)) = Some (Inl e)
    \<and> ack_ok (we_args (pe_worker P i)) (it_trace (wk_inf (ps_workers p ! i))) (Inl e)"
proof -
  have inv: "pool_inv p" by (rule reach_pool_inv [OF assms(1)])
  obtain w where w: "w \<in> set (ps_workers p)" "it_ack (wk_inf w) = Some (Inl e)"
    using assms(2) by (auto simp: set_acks_of)
  moreover have "length (ps_workers p) = n" using inv by (simp add: pool_inv_defs)
  ultimately obtain i where i: "i < n" "it_ack (wk_inf (ps_workers p ! i)) = Some (Inl e)"
    by (metis in_set_conv_nth)
  with worker_model.reached_ack [OF workers [OF i(1)] reached_worker [OF inv i(1)]] show ?thesis
    by (auto simp: ack_inv_def)
qed

lemma polled_ack:
  assumes "boot_inv b" and "bo_status b = Booting" and "mp_poll_recv A (bo_acks b) = (RecvMsg m, q)"
  shows "m \<in> set (acks_of (ps_workers (bo_pool b)))"
proof -
  have "mset (ai (bo_acks b)) + replicate_mset (unat (bo_acked b)) (Inr ()) = mset (acks_of (ps_workers (bo_pool b)))"
    using assms(1,2) by (simp add: boot_inv_def status_ok_def awaiting_acks_def Let_def)
  moreover have "m \<in># mset (ai (bo_acks b))"
    using assms(3) by (cases rule: acks.poll_recv_cases [of "bo_acks b"]) simp_all
  ultimately show ?thesis by (metis set_mset_mset union_iff)
qed

lemma own_step_status:
  assumes "boot_inv b" and "boot_own_step P A sz b b'"
  shows "same_outcome (bo_status b) (bo_status b')"
  using assms(2)
proof (cases rule: boot_own_step.cases)
  case (polls r q acked st)
  have "e \<noteq> Timeout" if st: "st = BootFailed e" for e
  proof (cases r)
    case (RecvMsg m)
    with polls(5) st have "m = Inl e" by (cases m) (auto split: if_splits)
    with polled_ack [OF assms(1) polls(2) polls(3) [unfolded RecvMsg]] ack_not_timeout [of "bo_pool b" e] assms(1)
    obtain i where "ack_ok (we_args (pe_worker P i)) (it_trace (wk_inf (ps_workers (bo_pool b) ! i))) (Inl e)"
      by (auto simp: boot_inv_def)
    then show ?thesis by auto
  qed (use polls st in auto)
  moreover have "st \<noteq> BootAbandoned"
    using polls(5) by (cases "(sz, bo_acked b, r)" rule: ack_turn.cases) (auto split: if_splits)
  moreover have "st \<noteq> BootPanicked"
    using boot_step_inv [OF assms(1) boot_own [OF assms(2)]] polls(1) by (auto simp: boot_inv_def status_ok_def)
  ultimately show ?thesis
    using polls(1,2) by (cases st) (auto simp: same_outcome_def)
qed (simp_all add: same_outcome_def)

lemma own_steps_status:
  "boot_inv b \<Longrightarrow> (boot_own_step P A sz ^^ k) b c \<Longrightarrow> same_outcome (bo_status b) (bo_status c)"
proof (induction k arbitrary: c)
  case 0
  then show ?case by (simp add: same_outcome_def)
next
  case (Suc k)
  then obtain u where u: "(boot_own_step P A sz ^^ k) b u" "boot_own_step P A sz u c" by auto
  have "boot_inv u" using own_boot_steps [OF Suc.prems(1) u(1)] by simp
  from Suc.IH [OF Suc.prems(1) u(1)] own_step_status [OF this u(2)] show ?case
    by (auto simp: same_outcome_def)
qed

lemma boot_outcome:
  assumes "boot_inv b"
  shows "case bo_status b of
      Booted \<Rightarrow> \<forall>i < n. it_ack (wk_inf (ps_workers (bo_pool b) ! i)) = Some (Inr ()) 
        \<and> ack_ok (we_args (pe_worker P i)) (it_trace (wk_inf (ps_workers (bo_pool b) ! i))) (Inr ())
    | BootFailed e \<Rightarrow> e = Timeout \<or> (\<exists>i < n. it_ack (wk_inf (ps_workers (bo_pool b) ! i)) = Some (Inl e)
        \<and> ack_ok (we_args (pe_worker P i)) (it_trace (wk_inf (ps_workers (bo_pool b) ! i))) (Inl e))
    | BootPanicked \<Rightarrow> False
    | _ \<Rightarrow> True"
proof -
  have reach: "pool_reach P cfg queue_sz n (bo_pool b)" and st: "status_ok b"
    using assms by (simp_all add: boot_inv_def)
  have inv: "pool_inv (bo_pool b)" by (rule reach_pool_inv [OF reach])
  show ?thesis
  proof (cases "bo_status b")
    case Booted
    have "it_ack (wk_inf (ps_workers (bo_pool b) ! i)) = Some (Inr ())" if "i < n" for i
      using that st Booted inv by (simp add: status_ok_def start_views_def pool_inv_defs)
    with worker_model.reached_ack [OF workers reached_worker [OF inv]] Booted show ?thesis
      by (simp add: ack_inv_def)
  qed (use st ack_not_timeout [OF reach] in \<open>auto simp: status_ok_def\<close>)
qed

text \<open>A start-up that has failed takes every thread with it.\<close>

lemma failed_stuck:
  assumes "boot_inv b" and "\<And>b'. \<not> boot_own_step P A sz b b'" and "bo_status b = BootAbandoned \<or> (\<exists>e. bo_status b = BootFailed e)"
    and "w \<in> set (ps_workers (bo_pool b))"
  shows "ac_pc (wk_acc w) = AccExited \<and> it_pc (wk_inf w) = InfReleased
    \<and> built_count (sh_log (wk_shared w)) = drop_count (sh_log (wk_shared w))"
proof -
  have inv: "pool_inv (bo_pool b)" using assms(1) by (simp add: boot_inv_def reach_pool_inv)
  obtain i where i: "i < n" "w = ps_workers (bo_pool b) ! i"
    using assms(4) inv by (auto simp: in_set_conv_nth pool_inv_defs)
  have "ps_phase (bo_pool b) = PoolClosed"
    using assms(1,3) by (auto simp: boot_inv_def status_ok_def boot_closed_def)
  from stuck_closed [OF inv boot_stuck(2) [OF assms(1,2)] this i(1)] i(2) show ?thesis by simp
qed

subsection \<open>From a reachable state\<close>

lemma reach_boot_inv: "boot_reach P A cfg queue_sz sz b \<Longrightarrow> boot_inv b"
  by (rule boot.reach_inv)

lemma reached_boot:
  assumes "boot_reach P A cfg queue_sz sz b"
  shows "pool_reach P cfg queue_sz n (bo_pool b)"
    and "ps_callers (bo_pool b) \<noteq> [] \<longrightarrow> bo_status b = Booted"
    and "bo_status b = Booted \<longrightarrow> (\<forall>w \<in> set (ps_workers (bo_pool b)). it_ack (wk_inf w) = Some (Inr ()))"
    and "bo_status b = BootAbandoned \<or> (\<exists>e. bo_status b = BootFailed e) \<longrightarrow> ps_phase (bo_pool b) = PoolClosed"
proof -
  have inv: "boot_inv b" by (rule reach_boot_inv [OF assms])
  then have "pool_inv (bo_pool b)" by (simp add: boot_inv_def reach_pool_inv)
  then have "ps_phase (bo_pool b) = PoolStarting \<Longrightarrow> ps_callers (bo_pool b) = []"
    by (simp add: pool_inv_defs)
  with inv show "pool_reach P cfg queue_sz n (bo_pool b)"
    and "ps_callers (bo_pool b) \<noteq> [] \<longrightarrow> bo_status b = Booted"
    and "bo_status b = Booted \<longrightarrow> (\<forall>w \<in> set (ps_workers (bo_pool b)). it_ack (wk_inf w) = Some (Inr ()))"
    and "bo_status b = BootAbandoned \<or> (\<exists>e. bo_status b = BootFailed e) \<longrightarrow> ps_phase (bo_pool b) = PoolClosed"
    by (cases "bo_status b";
        auto simp: boot_inv_def status_ok_def awaiting_acks_def boot_closed_def start_views_def Let_def)+
qed

lemma reached_rest:
  assumes "boot_reach P A cfg queue_sz sz b" and "(boot_own_step P A sz ^^ k) b c" and "bo_status b \<noteq> Booted"
  obtains j r where "k + j \<le> pool_budget n queue_sz 0 + (if bo_status b = Booting then n else 0)"
    and "(boot_own_step P A sz ^^ j) c r" and "boot_inv r" and "\<forall>r'. \<not> boot_own_step P A sz r r'"
    and "same_outcome (bo_status b) (bo_status r)"
proof -
  have inv: "boot_inv b" by (rule reach_boot_inv [OF assms(1)])
  have calls: "ps_callers (bo_pool b) = []" using reached_boot(2) [OF assms(1)] assms(3) by blast
  from boot_runs_out [OF inv assms(2)] obtain j r
    where r: "k + j \<le> pool_budget n queue_sz (length (ps_callers (bo_pool b))) + (if bo_status b = Booting then n else 0)"
      "(boot_own_step P A sz ^^ j) c r" "boot_inv r" "\<forall>r'. \<not> boot_own_step P A sz r r'" .
  have "(boot_own_step P A sz ^^ (k + j)) b r"
    using assms(2) r(2) by (auto simp: relpowp_add)
  from own_steps_status [OF inv this] r calls that show thesis by simp
qed

lemma reached_decision:
  assumes "boot_reach P A cfg queue_sz sz b" and "bo_status b = Booting" and "(boot_own_step P A sz ^^ k) b c"
  shows "\<exists>j r. k + j \<le> pool_budget n queue_sz 0 + n \<and> (boot_own_step P A sz ^^ j) c r
    \<and> (bo_status r = Booted
      \<or> (\<exists>i < n. \<exists>e. bo_status r = BootFailed e \<and> it_ack (wk_inf (ps_workers (bo_pool r) ! i)) = Some (Inl e)))"
proof -
  have "bo_status b \<noteq> Booted" using assms(2) by simp
  from reached_rest [OF assms(1,3) this] obtain j r
    where r: "k + j \<le> pool_budget n queue_sz 0 + (if bo_status b = Booting then n else 0)"
      "(boot_own_step P A sz ^^ j) c r" "boot_inv r" "\<forall>r'. \<not> boot_own_step P A sz r r'"
      "same_outcome (bo_status b) (bo_status r)" .
  have "bo_status r = Booted \<or> (\<exists>e. bo_status r = BootFailed e \<and> e \<noteq> Timeout)"
    using r(5) boot_stuck(1) [OF r(3)] r(4) assms(2) by (simp add: same_outcome_def)
  then have "bo_status r = Booted
      \<or> (\<exists>i < n. \<exists>e. bo_status r = BootFailed e \<and> it_ack (wk_inf (ps_workers (bo_pool r) ! i)) = Some (Inl e))"
    using boot_outcome [OF r(3)] by fastforce
  with r(1,2) assms(2) show ?thesis by auto
qed

lemma reached_shutdown:
  assumes "boot_reach P A cfg queue_sz sz b" and "bo_status b = BootAbandoned \<or> (\<exists>e. bo_status b = BootFailed e)"
    and "(boot_own_step P A sz ^^ k) b c"
  shows "\<exists>j r. k + j \<le> pool_budget n queue_sz 0 \<and> (boot_own_step P A sz ^^ j) c r
    \<and> (\<forall>w \<in> set (ps_workers (bo_pool r)). ac_pc (wk_acc w) = AccExited \<and> it_pc (wk_inf w) = InfReleased
        \<and> built_count (sh_log (wk_shared w)) = drop_count (sh_log (wk_shared w)))"
proof -
  have failed: "bo_status b \<noteq> Booted" "bo_status b \<noteq> Booting" using assms(2) by auto
  from reached_rest [OF assms(1,3) failed(1)] obtain j r
    where r: "k + j \<le> pool_budget n queue_sz 0 + (if bo_status b = Booting then n else 0)"
      "(boot_own_step P A sz ^^ j) c r" "boot_inv r" "\<forall>r'. \<not> boot_own_step P A sz r r'"
      "same_outcome (bo_status b) (bo_status r)" .
  have "bo_status r = BootAbandoned \<or> (\<exists>e. bo_status r = BootFailed e)"
    using r(5) assms(2) by (auto simp: same_outcome_def)
  with failed_stuck [OF r(3)] r(4) r(1,2) failed(2) show ?thesis by auto
qed

end

end
