(* ===== verification/Startup_Properties.thy ===== *)
theory Startup_Properties
  imports Startup_Invariant
begin

text \<open>
  What \<open>get_batcher\<close> promises of a start-up, whatever the factories do and however the threads are
  scheduled, and a start-up on first-in first-out channels in which one of two workers fails.
\<close>

text \<open>The state in which \<open>get_batcher\<close> begins to wait.\<close>

definition get_batcher_boot ::
  "('a, 'f start_ack) mpsc \<Rightarrow> ('q, 'i \<times> 's) mpsc \<Rightarrow> ('j, ('i, 's) worker_buffer) mpsc \<Rightarrow> 'n notify \<Rightarrow> (nat \<Rightarrow> instant)
     \<Rightarrow> batcher_config \<Rightarrow> ('i, 's, 'p, 'f, 'q, 'j, 'o, 'e, 'n, 'a) boot_sys" where
  "get_batcher_boot A Q J N now config =
     \<lparr>bo_pool = batcher_start Q J N now config, bo_acks = mp_channel A (unat (pool_size config)), bo_acked = 0,
      bo_status = Booting\<rparr>"

lemma get_batcher_boot_start:
  "boot_start (batcher_env Q J N imax code config) A (inner_config_from config) (unat (queue_size config))
     (pool_size config) (get_batcher_boot A Q J N now config)"
  by (simp add: boot_start_def get_batcher_boot_def batcher_pool_start)

lemma boot_modelI:
  assumes "pool_model P permit fut qi qc qr qt ji jc jr jt cfg queue_sz n" and "mpsc_channel A ai ac ar at" and "unat sz = n"
  shows "boot_model P permit fut qi qc qr qt ji jc jr jt cfg queue_sz n A ai ac ar at sz"
  using assms by (simp add: boot_model_def boot_model_axioms_def)

subsection \<open>A start-up to run\<close>

datatype 's boot_move = BootBuild nat "'s inf_choice" | BootPoll | BootTimer

fun do_boot_move ::
  "('i, 's, 'p, 'f, 'q, 'j, 'o, 'e, 'n) pool_env \<Rightarrow> ('a, 'f start_ack) mpsc \<Rightarrow> u8 \<Rightarrow> 's boot_move
     \<Rightarrow> ('i, 's, 'p, 'f, 'q, 'j, 'o, 'e, 'n, 'a) boot_sys \<Rightarrow> ('i, 's, 'p, 'f, 'q, 'j, 'o, 'e, 'n, 'a) boot_sys option" where
  "do_boot_move P A sz (BootBuild i d) b =
     (let p = bo_pool b; s = ps_workers p ! i; W = pe_worker P i
      in if i < length (ps_workers p) \<and> in_startup s
         then (case inf_step (we_args W) (we_jobs W) (boot_answer A (bo_acks b) d) (wk_inf s, wk_shared s) of
             None \<Rightarrow> None
           | Some (th, sh) \<Rightarrow>
               (let p' = set_worker (pe_signal P) i (s\<lparr>wk_inf := th, wk_shared := sh\<rparr>) p
                in Some (b\<lparr>bo_pool := p',
                     bo_acks := send_ack A (it_ack th) (list_all (\<lambda>w. \<not> in_startup w) (ps_workers p')) (bo_acks b)\<rparr>)))
         else None)"
| "do_boot_move P A sz BootPoll b =
     (case mp_poll_recv A (bo_acks b) of (r, q) \<Rightarrow>
        (if bo_status b = Booting \<and> r \<noteq> RecvEmpty
         then (case ack_turn sz (bo_acked b) r of (acked, st) \<Rightarrow>
             Some (boot_end P A st (b\<lparr>bo_acks := q, bo_acked := acked\<rparr>)))
         else None))"
| "do_boot_move P A sz BootTimer b = (if bo_status b = Booting then Some (boot_end P A (BootFailed Timeout) b) else None)"

fun run_boot ::
  "('i, 's, 'p, 'f, 'q, 'j, 'o, 'e, 'n) pool_env \<Rightarrow> ('a, 'f start_ack) mpsc \<Rightarrow> u8 \<Rightarrow> 's boot_move list
     \<Rightarrow> ('i, 's, 'p, 'f, 'q, 'j, 'o, 'e, 'n, 'a) boot_sys \<Rightarrow> ('i, 's, 'p, 'f, 'q, 'j, 'o, 'e, 'n, 'a) boot_sys option" where
  "run_boot P A sz [] b = Some b"
| "run_boot P A sz (m # ms) b = (case do_boot_move P A sz m b of None \<Rightarrow> None | Some b' \<Rightarrow> run_boot P A sz ms b')"

lemma do_boot_move_step: "do_boot_move P A sz m b = Some b' \<Longrightarrow> boot_step P A sz b b'"
  by (cases m)
    (auto simp: Let_def list_all_iff simp del: boot_end.simps split: option.splits prod.splits if_splits
      intro: boot_step.intros boot_own_step.polls boot_own_step.builds [OF _ refl refl refl _ _ refl])

lemma reach_from:
  assumes "start m" and "reach (\<lambda>x. x = m) step t"
  shows "reach start step t"
  using assms(2)
proof (induction rule: reach.induct)
  case (reach_start x)
  with assms(1) show ?case by (simp add: reach.reach_start)
qed (rule reach.reach_step)

lemma run_boot_reach:
  "run_boot P A sz ms b = Some b' \<Longrightarrow> reach S (boot_step P A sz) b \<Longrightarrow> reach S (boot_step P A sz) b'"
  by (induction ms arbitrary: b) (auto split: option.splits dest: do_boot_move_step intro: reach_step)

lemma run_boot_cases:
  assumes "map_option f (run_boot P A sz ms b0) = Some x" and "boot_start P A cfg queue_sz sz b0"
  obtains b where "boot_reach P A cfg queue_sz sz b" "f b = x"
  using assms that reach_start [of "boot_start P A cfg queue_sz sz" b0] run_boot_reach [of P A sz ms b0] by auto

text \<open>Two workers, the second of which cannot be built.\<close>

definition failing_code :: "(nat, unit, nat, nat, nat) user_code" where
  "failing_code = \<lparr>uc_factory = (\<lambda>i k j. if i = 1 then Returned (Inl 7) else Returned (Inr ())),
     uc_predict_batch = ia_predict_batch sound_args\<rparr>"

definition failing_config :: batcher_config where
  "failing_config = build (configure 2 (from_millis 5) [PoolSize 2, StartRetries 0])"

definition failing_env ::
  "(nat, nat, unit, nat, (nat \<times> nat) fifo, (nat, nat) worker_buffer fifo, nat, nat, fifo_signal) pool_env" where
  "failing_env = batcher_env fifo_mpsc fifo_mpsc fifo_notify (10 ^ 30) failing_code failing_config"

definition failing_boot ::
  "(nat, nat, unit, nat, (nat \<times> nat) fifo, (nat, nat) worker_buffer fifo, nat, nat, fifo_signal, nat start_ack fifo) boot_sys" where
  "failing_boot = get_batcher_boot fifo_mpsc fifo_mpsc fifo_mpsc fifo_notify (\<lambda>_. 0) failing_config"

abbreviation "failing_cfg \<equiv> inner_config_from failing_config"

lemma failing_config_fields [simp]:
  "pool_size failing_config = 2" "batch_size failing_config = 2" "queue_size failing_config = 2"
  "worker_start_retries failing_config = 0" "config_metrics failing_config = None"
  by (simp_all add: failing_config_def build_def configure_def builder_def setter_defs)

lemma u_two [simp]: "unat (2 :: u8) = 2" "unat (2 :: u32) = 2"
  by simp_all

interpretation failing: boot_model failing_env fs_permit "\<lambda>n. map_of (fs_futures n)"
  ff_items ff_cap ff_rx ff_tx ff_items ff_cap ff_rx ff_tx failing_cfg 2 2
  "fifo_mpsc :: (nat start_ack fifo, nat start_ack) mpsc" ff_items ff_cap ff_rx ff_tx 2
proof (rule boot_modelI [OF _ fifo.mpsc_channel_axioms u_two(1)])
  have wf: "config_wf failing_config" by (simp add: config_wf_def)
  have clock: "clock_in_range (10 ^ 30) (AccRecv 0)"
    by (simp add: instant_checked_add_def ONE_YEAR_def duration_simps)
  from batcher_pool_model [OF fifo.mpsc_channel_axioms fifo.mpsc_channel_axioms fifo_sig.notify_signal_axioms wf clock]
  show "pool_model failing_env fs_permit (\<lambda>n. map_of (fs_futures n)) ff_items ff_cap ff_rx ff_tx ff_items ff_cap ff_rx ff_tx
      failing_cfg 2 2"
    by (simp add: failing_env_def)
qed

lemma failing_run:
  "map_option (\<lambda>b. (bo_status b, map (\<lambda>w. it_ack (wk_inf w)) (ps_workers (bo_pool b)), ps_callers (bo_pool b)))
     (run_boot failing_env fifo_mpsc 2 [BootBuild 1 (InfStart (\<lambda>_. False) True), BootBuild 0 (InfStart (\<lambda>_. False) True), BootPoll]
       failing_boot) =
   Some (BootFailed (WorkerStartFailure 1 7), [Some (Inr ()), Some (Inl (WorkerStartFailure 1 7))], [])"
proof -
  have parts: "we_requests (pe_worker failing_env i) = fifo_mpsc" "we_jobs (pe_worker failing_env i) = fifo_mpsc"
      "ia_factory (we_args (pe_worker failing_env i)) k j = (if i = 1 then Returned (Inl 7) else Returned (Inr ()))"
      "ia_worker_id (we_args (pe_worker failing_env i)) = of_nat i" "ia_retries (we_args (pe_worker failing_env i)) = 0"
      "pe_signal failing_env = fifo_notify" if "i < 2" for i k j
    using that by (simp_all add: failing_env_def batcher_env_worker make_runner_args_def failing_code_def Let_def)
  show ?thesis
    by (simp add: failing_boot_def get_batcher_boot_def batcher_start_workers batcher_start_def start_workers_eq
        new_worker_pool_def run_worker_def parts in_startup_def new_inf_thread_def inf_start_def spawn_predictor_def
        backoff_schedule_def u8_saturating_add_def try_make_predictor_def send_ack_def set_worker_def fifo_mpsc_ops
        list_steps sleep_with_exit.simps duration_simps duration_order_defs close_pool_def drop_handles_def Let_def)
qed

lemma failing_start: "boot_start failing_env fifo_mpsc failing_cfg 2 2 failing_boot"
  using get_batcher_boot_start [of fifo_mpsc fifo_mpsc fifo_notify "10 ^ 30" failing_code failing_config]
  by (simp add: failing_env_def failing_boot_def)

lemma failing_failed:
  obtains b where "boot_reach failing_env fifo_mpsc failing_cfg 2 2 b" "bo_status b = BootFailed (WorkerStartFailure 1 7)"
    "map (\<lambda>w. it_ack (wk_inf w)) (ps_workers (bo_pool b)) = [Some (Inr ()), Some (Inl (WorkerStartFailure 1 7))]"
    "ps_callers (bo_pool b) = []"
proof (rule run_boot_cases [OF failing_run failing_start])
  fix b assume "boot_reach failing_env fifo_mpsc failing_cfg 2 2 b"
    "(bo_status b, map (\<lambda>w. it_ack (wk_inf w)) (ps_workers (bo_pool b)), ps_callers (bo_pool b)) =
      (BootFailed (WorkerStartFailure 1 7), [Some (Inr ()), Some (Inl (WorkerStartFailure 1 7))], [])"
  then show thesis by (intro that [of b]) simp_all
qed

lemma failing_from_start:
  obtains b where "reach (\<lambda>x. x = failing_boot) (boot_step failing_env fifo_mpsc 2) b"
    "bo_status b = BootFailed (WorkerStartFailure 1 7)"
proof -
  obtain b where b: "run_boot failing_env fifo_mpsc 2
        [BootBuild 1 (InfStart (\<lambda>_. False) True), BootBuild 0 (InfStart (\<lambda>_. False) True), BootPoll] failing_boot = Some b"
      "bo_status b = BootFailed (WorkerStartFailure 1 7)"
    using failing_run by auto
  have "reach (\<lambda>x. x = failing_boot) (boot_step failing_env fifo_mpsc 2) failing_boot"
    by (rule reach_start) simp
  from run_boot_reach [OF b(1) this] b(2) show thesis by (rule that)
qed

lemma failing_pool:
  "pool_model failing_env fs_permit (\<lambda>n. map_of (fs_futures n)) ff_items ff_cap ff_rx ff_tx ff_items ff_cap ff_rx ff_tx
     failing_cfg 2 2"
  by (rule failing.pool_model_axioms)

subsection \<open>Properties\<close>

text \<open>C7: A start-up is a run of a pool. For every pool, every ack channel that meets its contract and
  every schedule of the builds, the acks, the timer and the users: the pool is in a reachable state of
  \<open>Pool_System\<close>, so what is proved of pools holds from the first step of \<open>get_batcher\<close> on; a call exists
  only after \<open>get_batcher\<close> has returned the batcher, it returned it only after every worker had acked
  success, and after a failure the pool is closed.\<close>

theorem startup_refines_pool:
  assumes "pool_model P permit fut qi qc qr qt ji jc jr jt cfg queue_sz n" and "mpsc_channel A ai ac ar at" and "unat sz = n"
    and "boot_reach P A cfg queue_sz sz b"
  shows "pool_reach P cfg queue_sz n (bo_pool b)
    \<and> (ps_callers (bo_pool b) \<noteq> [] \<longrightarrow> bo_status b = Booted)
    \<and> (bo_status b = Booted \<longrightarrow> (\<forall>w \<in> set (ps_workers (bo_pool b)). it_ack (wk_inf w) = Some (Inr ())))
    \<and> (bo_status b = BootAbandoned \<or> (\<exists>e. bo_status b = BootFailed e) \<longrightarrow> ps_phase (bo_pool b) = PoolClosed)"
  using boot_model.reached_boot [OF boot_modelI [OF assms(1-3)] assms(4)] by blast

theorem startup_refines_pool_witness:
  "\<exists>b. boot_reach failing_env fifo_mpsc failing_cfg 2 2 b \<and> pool_reach failing_env failing_cfg 2 2 (bo_pool b)
    \<and> ps_phase (bo_pool b) = PoolClosed"
proof (rule failing_failed)
  fix b assume b: "boot_reach failing_env fifo_mpsc failing_cfg 2 2 b" "bo_status b = BootFailed (WorkerStartFailure 1 7)"
  with startup_refines_pool [OF failing_pool fifo.mpsc_channel_axioms u_two(1) b(1)] show ?thesis by fastforce
qed

text \<open>C8: Every outcome of \<open>get_batcher\<close> has its reason. It returns the batcher only if each worker's factory
  returned a predictor at one of its attempts, having failed at those before. \<open>WorkerStartFailure\<close> and
  \<open>WorkerStartPanic\<close> name a worker that called its factory at every attempt it had and no further, whose
  factory failed each time, the last time with the error reported, or with a panic. \<open>InternalError\<close> comes only
  from a worker whose thread was not spawned: it never looked at the ack channel and never called the factory.
  Besides these there is only the timeout, and \<open>get_batcher\<close> never panics.\<close>

theorem startup_outcome_explained:
  assumes "pool_model P permit fut qi qc qr qt ji jc jr jt cfg queue_sz n" and "mpsc_channel A ai ac ar at" and "unat sz = n"
    and "boot_reach P A cfg queue_sz sz b"
  shows "case bo_status b of
      Booted \<Rightarrow> \<forall>i < n. it_ack (wk_inf (ps_workers (bo_pool b) ! i)) = Some (Inr ()) 
        \<and> ack_ok (we_args (pe_worker P i)) (it_trace (wk_inf (ps_workers (bo_pool b) ! i))) (Inr ())
    | BootFailed e \<Rightarrow> e = Timeout \<or> (\<exists>i < n. it_ack (wk_inf (ps_workers (bo_pool b) ! i)) = Some (Inl e)
        \<and> ack_ok (we_args (pe_worker P i)) (it_trace (wk_inf (ps_workers (bo_pool b) ! i))) (Inl e))
    | BootPanicked \<Rightarrow> False
    | _ \<Rightarrow> True"
proof -
  note m = boot_modelI [OF assms(1-3)]
  show ?thesis by (rule boot_model.boot_outcome [OF m boot_model.reach_boot_inv [OF m assms(4)]])
qed

theorem startup_outcome_explained_witness:
  "\<exists>b. boot_reach failing_env fifo_mpsc failing_cfg 2 2 b \<and> bo_status b = BootFailed (WorkerStartFailure 1 7)
    \<and> (\<exists>i < 2. it_ack (wk_inf (ps_workers (bo_pool b) ! i)) = Some (Inl (WorkerStartFailure 1 7))
        \<and> ack_ok (we_args (pe_worker failing_env i)) (it_trace (wk_inf (ps_workers (bo_pool b) ! i))) (Inl (WorkerStartFailure 1 7)))"
proof (rule failing_failed)
  fix b assume b: "boot_reach failing_env fifo_mpsc failing_cfg 2 2 b" "bo_status b = BootFailed (WorkerStartFailure 1 7)"
  with startup_outcome_explained [OF failing_pool fifo.mpsc_channel_axioms u_two(1) b(1)] show ?thesis by fastforce
qed

text \<open>The attempts a configuration gives each factory.\<close>

definition config_attempts :: "batcher_config \<Rightarrow> nat" where
  "config_attempts config = min (unat (worker_start_retries config) + 1) 255"

lemma batcher_attempts:
  assumes "i < unat (pool_size config)"
  shows "attempts (we_args (pe_worker (batcher_env Q J N imax code config) i)) = config_attempts config"
  using assms unsigned_less [of "worker_start_retries config"]
  by (simp add: attempts_def config_attempts_def batcher_env_worker make_runner_args_def u8_saturating_add_def
      unat_word_ariths Let_def)

lemma batcher_factory:
  assumes "i < unat (pool_size config)"
  shows "ia_factory (we_args (pe_worker (batcher_env Q J N imax code config) i)) = uc_factory code i"
    and "ia_worker_id (we_args (pe_worker (batcher_env Q J N imax code config) i)) = of_nat i"
  using assms by (simp_all add: batcher_env_worker make_runner_args_def Let_def)

text \<open>The worker of index \<open>w\<close> has called its factory at every attempt and no further, always in vain, the
  last time with result \<open>r\<close>.\<close>

definition start_in_vain ::
  "batcher_config \<Rightarrow> ('i, 'p, 'f, 'o, 'e) user_code \<Rightarrow> ('i, 's, 'p, 'f, 'q, 'j, 'o, 'e, 'n, 'a) boot_sys \<Rightarrow> u8
     \<Rightarrow> ('f + 'p) unwind \<Rightarrow> bool" where
  "start_in_vain config code b w r \<longleftrightarrow> unat w < unat (pool_size config)
     \<and> bt_calls (it_trace (wk_inf (ps_workers (bo_pool b) ! unat w))) = config_attempts config
     \<and> (\<forall>k < config_attempts config. factory_fails (uc_factory code (unat w) k w))
     \<and> uc_factory code (unat w) (config_attempts config - 1) w = r"

text \<open>C15: \<open>get_batcher\<close> does what its configuration says. For every valid configuration, all user code, and
  channels and a signal that meet their contracts, in every state of a call of \<open>get_batcher\<close> and of the
  batcher it returns: there are \<open>pool_size\<close> workers, each with the configured batch size and timeout in
  the state the router reads, and a request channel of capacity \<open>queue_size\<close>. If the batcher has been returned,
  the factory called for each index below \<open>pool_size\<close> has built a predictor within \<open>worker_start_retries\<close> calls
  after its first, and failed at those before. If \<open>get_batcher\<close> has failed, the worker it names is the index of
  one whose factory was called with just this index, once and then \<open>worker_start_retries\<close> times more (at
  most 255 times in all), and failed each time, the last time as reported.\<close>

theorem get_batcher_follows_config:
  fixes b :: "('i, 's, 'p, 'f, 'q, 'j, 'o, 'e, 'n, 'a) boot_sys"
  assumes "mpsc_channel Q qi qc qr qt" and "mpsc_channel J ji jc jr jt" and "notify_signal N permit fut"
    and "mpsc_channel A ai ac ar at" and "config_wf config" and "clock_in_range imax (AccRecv 0)"
    and "reach (\<lambda>x. x = get_batcher_boot A Q J N now config)
      (boot_step (batcher_env Q J N imax code config) A (pool_size config)) b"
  shows "length (ps_workers (bo_pool b)) = unat (pool_size config)
    \<and> (\<forall>w \<in> set (ps_workers (bo_pool b)). ws_batch_size (sh_state (wk_shared w)) = batch_size config
        \<and> ws_timeout (sh_state (wk_shared w)) = batch_timeout config
        \<and> qc (sh_requests (wk_shared w)) = unat (queue_size config))
    \<and> (case bo_status b of
        Booted \<Rightarrow> \<forall>i < unat (pool_size config). \<exists>k p. k < config_attempts config
          \<and> uc_factory code i k (of_nat i) = Returned (Inr p) \<and> (\<forall>j < k. factory_fails (uc_factory code i j (of_nat i)))
      | BootFailed (WorkerStartFailure w err) \<Rightarrow> start_in_vain config code b w (Returned (Inl err))
      | BootFailed (WorkerStartPanic w) \<Rightarrow> start_in_vain config code b w Panicked
      | _ \<Rightarrow> True)"
proof -
  let ?P = "batcher_env Q J N imax code config :: ('i, 's, 'p, 'f, 'q, 'j, 'o, 'e, 'n) pool_env"
  let ?cfg = "inner_config_from config" and ?qsz = "unat (queue_size config)" and ?n = "unat (pool_size config)"
  note model = batcher_pool_model [OF assms(1-3,5,6), of code]
  note boot = boot_modelI [OF model assms(4) refl]
  have reach: "boot_reach ?P A ?cfg ?qsz (pool_size config) b"
    by (rule reach_from [OF _ assms(7)]) (rule get_batcher_boot_start)
  note binv = boot_model.reach_boot_inv [OF boot reach]
  have pool: "pool_reach ?P ?cfg ?qsz ?n (bo_pool b)"
    using binv by (simp add: boot_model.boot_inv_def [OF boot])
  note inv = pool_model.reach_pool_inv [OF model pool]
  have len: "length (ps_workers (bo_pool b)) = ?n"
    using inv by (simp add: pool_model.pool_inv_defs [OF model])
  have worker: "ws_batch_size (sh_state (wk_shared w)) = batch_size config
      \<and> ws_timeout (sh_state (wk_shared w)) = batch_timeout config \<and> qc (sh_requests (wk_shared w)) = ?qsz"
    if "w \<in> set (ps_workers (bo_pool b))" for w
  proof -
    obtain i where i: "i < ?n" "w = ps_workers (bo_pool b) ! i"
      using \<open>w \<in> _\<close> len by (metis in_set_conv_nth)
    note wm = pool_model.workers [OF model i(1)]
    from pool_model.reached_worker [OF model inv i(1)] i(2)
    have "worker_reach (pe_worker ?P i) ?cfg ?qsz w" by simp
    from worker_model.reached_config [OF wm this] worker_model.reached_room [OF wm this] show ?thesis
      by (simp add: inner_config_from_def)
  qed
  have outcome: "case bo_status b of
      Booted \<Rightarrow> \<forall>i < ?n. ack_ok (we_args (pe_worker ?P i)) (it_trace (wk_inf (ps_workers (bo_pool b) ! i))) (Inr ())
    | BootFailed e \<Rightarrow> e = Timeout
        \<or> (\<exists>i < ?n. ack_ok (we_args (pe_worker ?P i)) (it_trace (wk_inf (ps_workers (bo_pool b) ! i))) (Inl e))
    | _ \<Rightarrow> True"
    using boot_model.boot_outcome [OF boot binv] by (cases "bo_status b") auto
  note settings = batcher_attempts [of _ config Q J N imax code] batcher_factory [of _ config Q J N imax code]
  have failed: "case e of
        WorkerStartFailure w err \<Rightarrow> start_in_vain config code b w (Returned (Inl err))
      | WorkerStartPanic w \<Rightarrow> start_in_vain config code b w Panicked
      | _ \<Rightarrow> True"
    if "i < ?n" "ack_ok (we_args (pe_worker ?P i)) (it_trace (wk_inf (ps_workers (bo_pool b) ! i))) (Inl e)" for i e
    using that settings [OF that(1)] worker_index [OF that(1)] by (cases e) (auto simp: start_in_vain_def)
  show ?thesis
  proof (intro conjI ballI)
    show "case bo_status b of
        Booted \<Rightarrow> \<forall>i < ?n. \<exists>k p. k < config_attempts config
          \<and> uc_factory code i k (of_nat i) = Returned (Inr p) \<and> (\<forall>j < k. factory_fails (uc_factory code i j (of_nat i)))
      | BootFailed (WorkerStartFailure w err) \<Rightarrow> start_in_vain config code b w (Returned (Inl err))
      | BootFailed (WorkerStartPanic w) \<Rightarrow> start_in_vain config code b w Panicked
      | _ \<Rightarrow> True"
    proof (cases "bo_status b")
      case Booted
      with outcome have "ack_ok (we_args (pe_worker ?P i)) (it_trace (wk_inf (ps_workers (bo_pool b) ! i))) (Inr ())"
        if "i < ?n" for i using that by simp
      then show ?thesis
        using Booted settings by (simp only: ack_ok.simps boot_status.case) blast
    next
      case (BootFailed e)
      with outcome failed [of _ e] show ?thesis by (cases e) auto
    qed simp_all
  qed (use len worker in auto)
qed

theorem get_batcher_follows_config_witness:
  "\<exists>b. reach (\<lambda>x. x = failing_boot) (boot_step failing_env fifo_mpsc 2) b
    \<and> bo_status b = BootFailed (WorkerStartFailure 1 7) \<and> length (ps_workers (bo_pool b)) = 2
    \<and> bt_calls (it_trace (wk_inf (ps_workers (bo_pool b) ! 1))) = 1 \<and> uc_factory failing_code 1 0 1 = Returned (Inl 7)"
proof (rule failing_from_start)
  fix b assume b: "reach (\<lambda>x. x = failing_boot) (boot_step failing_env fifo_mpsc 2) b"
    "bo_status b = BootFailed (WorkerStartFailure 1 7)"
  have clock: "clock_in_range (10 ^ 30) (AccRecv 0)"
    by (simp add: instant_checked_add_def ONE_YEAR_def duration_simps)
  have wf: "config_wf failing_config" by (simp add: config_wf_def)
  note q = fifo.mpsc_channel_axioms [where ?'a = "nat \<times> nat"]
    and j = fifo.mpsc_channel_axioms [where ?'a = "(nat, nat) worker_buffer"]
    and a = fifo.mpsc_channel_axioms [where ?'a = "nat start_ack"]
  have "reach (\<lambda>x. x = get_batcher_boot fifo_mpsc fifo_mpsc fifo_mpsc fifo_notify (\<lambda>_. 0) failing_config)
      (boot_step (batcher_env fifo_mpsc fifo_mpsc fifo_notify (10 ^ 30) failing_code failing_config) fifo_mpsc
        (pool_size failing_config)) b"
    using b(1) by (simp add: failing_boot_def failing_env_def)
  from get_batcher_follows_config [OF q j fifo_sig.notify_signal_axioms a wf clock this] b show ?thesis
    by (auto simp: start_in_vain_def config_attempts_def)
qed

text \<open>C9: \<open>get_batcher\<close> does not wait for ever, even without its timer. While it waits, the threads, the
  acks and its own turns take at most \<open>pool_budget n queue_sz 0 + n\<close> steps, and wherever they have got to
  they go on to its return: with the batcher, or with the failure a worker has acked.\<close>

theorem startup_decides:
  assumes "pool_model P permit fut qi qc qr qt ji jc jr jt cfg queue_sz n" and "mpsc_channel A ai ac ar at" and "unat sz = n"
    and "boot_reach P A cfg queue_sz sz b" and "bo_status b = Booting" and "(boot_own_step P A sz ^^ k) b c"
  shows "\<exists>j r. k + j \<le> pool_budget n queue_sz 0 + n \<and> (boot_own_step P A sz ^^ j) c r
    \<and> (bo_status r = Booted
      \<or> (\<exists>i < n. \<exists>e. bo_status r = BootFailed e \<and> it_ack (wk_inf (ps_workers (bo_pool r) ! i)) = Some (Inl e)))"
  by (rule boot_model.reached_decision [OF boot_modelI [OF assms(1-3)] assms(4-6)])

theorem startup_decides_witness:
  "\<exists>j r. j \<le> pool_budget 2 2 0 + 2 \<and> (boot_own_step failing_env fifo_mpsc 2 ^^ j) failing_boot r \<and> bo_status r \<noteq> Booting"
proof -
  have reach: "boot_reach failing_env fifo_mpsc failing_cfg 2 2 failing_boot"
    by (rule reach_start) (rule failing_start)
  have booting: "bo_status failing_boot = Booting" by (simp add: failing_boot_def get_batcher_boot_def)
  have zero: "(boot_own_step failing_env fifo_mpsc 2 ^^ 0) failing_boot failing_boot" by simp
  from startup_decides [OF failing_pool fifo.mpsc_channel_axioms u_two(1) reach booting zero] obtain j r
    where "0 + j \<le> pool_budget 2 2 0 + 2" "(boot_own_step failing_env fifo_mpsc 2 ^^ j) failing_boot r"
      "bo_status r = Booted \<or> (\<exists>i < 2. \<exists>e. bo_status r = BootFailed e \<and> it_ack (wk_inf (ps_workers (bo_pool r) ! i)) = Some (Inl e))"
    by blast
  then show ?thesis by (intro exI [of _ j] exI [of _ r]) auto
qed

text \<open>C10: A failed start leaves nothing behind. When \<open>get_batcher\<close> has returned an error or has been
  dropped, the workers that did start shut down: within \<open>pool_budget n queue_sz 0\<close> steps, in every order,
  both halves of every worker have ended and every predictor that was built has been dropped.\<close>

theorem failed_startup_shuts_down:
  assumes "pool_model P permit fut qi qc qr qt ji jc jr jt cfg queue_sz n" and "mpsc_channel A ai ac ar at" and "unat sz = n"
    and "boot_reach P A cfg queue_sz sz b" and "bo_status b = BootAbandoned \<or> (\<exists>e. bo_status b = BootFailed e)"
    and "(boot_own_step P A sz ^^ k) b c"
  shows "\<exists>j r. k + j \<le> pool_budget n queue_sz 0 \<and> (boot_own_step P A sz ^^ j) c r
    \<and> (\<forall>w \<in> set (ps_workers (bo_pool r)). ac_pc (wk_acc w) = AccExited \<and> it_pc (wk_inf w) = InfReleased
        \<and> built_count (sh_log (wk_shared w)) = drop_count (sh_log (wk_shared w)))"
  by (rule boot_model.reached_shutdown [OF boot_modelI [OF assms(1-3)] assms(4-6)])

theorem failed_startup_shuts_down_witness:
  "\<exists>b j r. bo_status b = BootFailed (WorkerStartFailure 1 7) \<and> j \<le> pool_budget 2 2 0
    \<and> (boot_own_step failing_env fifo_mpsc 2 ^^ j) b r
    \<and> (\<forall>w \<in> set (ps_workers (bo_pool r)). it_pc (wk_inf w) = InfReleased)"
proof (rule failing_failed)
  fix b assume b: "boot_reach failing_env fifo_mpsc failing_cfg 2 2 b" "bo_status b = BootFailed (WorkerStartFailure 1 7)"
  have "(boot_own_step failing_env fifo_mpsc 2 ^^ 0) b b" by simp
  from failed_startup_shuts_down [OF failing_pool fifo.mpsc_channel_axioms u_two(1) b(1) _ this] b(2) show ?thesis
    by fastforce
qed

end
