(* ===== verification/Http_Bench.thy ===== *)
theory Http_Bench
  imports Pool_Setup
begin

text \<open>
  The benchmark server (\<open>http-bench/src/main.rs\<close>): its configuration from environment variables, the
  simulated device with its cost and its lock, the predictor on it, and the two endpoints, one through
  the library and one calling the device for each request.

  Arithmetic on \<open>f32\<close> is a parameter (\<open>float_ops\<close>): nothing here depends on how it rounds. A
  \<open>Device\<close> is its cost and whether its mutex is poisoned. Clones of a device share the mutex; here each
  carries its own flag, which makes no difference as long as no call on the device panics, and the
  theorems are about costs for which none does. Predictor errors are of the type \<open>Infallible\<close>, which
  has no values; here the type of errors is arbitrary.
\<close>

subsection \<open>The configuration\<close>

text \<open>\<open>FromStr\<close> of the unsigned integers: an optional plus sign and at least one digit, within the
  type's range. \<open>NonZero\<close> integers also refuse zero.\<close>

definition digit_value :: "char \<Rightarrow> nat option" where
  "digit_value c = (let n = of_char c in if 48 \<le> n \<and> n \<le> 57 then Some (n - 48) else None)"

fun parse_digits :: "nat \<Rightarrow> nat \<Rightarrow> string \<Rightarrow> nat option" where
  "parse_digits limit acc [] = Some acc"
| "parse_digits limit acc (c # cs) =
     (case digit_value c of
        None \<Rightarrow> None
      | Some d \<Rightarrow> if acc * 10 + d \<le> limit then parse_digits limit (acc * 10 + d) cs else None)"

definition parse_uint :: "nat \<Rightarrow> string \<Rightarrow> nat option" where
  "parse_uint limit s =
     (let digits = (case s of c # cs \<Rightarrow> if c = CHR ''+'' then cs else s | [] \<Rightarrow> s)
      in if digits = [] then None else parse_digits limit 0 digits)"

definition parse_nonzero :: "nat \<Rightarrow> string \<Rightarrow> nat option" where
  "parse_nonzero limit s = (case parse_uint limit s of Some n \<Rightarrow> if n = 0 then None else Some n | None \<Rightarrow> None)"

text \<open>\<open>env_or\<close>; the error says which variable is invalid. \<open>env\<close> is what \<open>std::env::var\<close> returns.\<close>

definition env_or :: "(string \<Rightarrow> string option) \<Rightarrow> (string \<Rightarrow> 'a option) \<Rightarrow> string \<Rightarrow> 'a \<Rightarrow> string + 'a" where
  "env_or env parse name dflt =
     (case env name of
        Some v \<Rightarrow> (case parse v of Some x \<Rightarrow> Inr x | None \<Rightarrow> Inl name)
      | None \<Rightarrow> Inr dflt)"

definition from_micros :: "nat \<Rightarrow> duration" where
  "from_micros us = Duration (us * 1000)"

text \<open>\<open>NonZeroU32::saturating_mul\<close>.\<close>

definition u32_saturating_mul :: "u32 \<Rightarrow> u32 \<Rightarrow> u32" where
  "u32_saturating_mul a b = (if unat a * unat b < 2 ^ 32 then a * b else 4294967295)"

record cost =
  call_overhead :: duration
  per_item :: duration

record bench_settings =
  bs_port :: nat
  bs_cost :: cost
  bs_config :: batcher_config

definition bench_config :: "u32 \<Rightarrow> duration \<Rightarrow> u8 \<Rightarrow> batcher_config" where
  "bench_config sz timeout pool =
     build (set_queue_size (u32_saturating_mul sz 2) (set_pool_size pool (builder sz timeout)))"

text \<open>The start of \<open>main\<close>, which returns at the first invalid variable.\<close>

definition bench_setup :: "(string \<Rightarrow> string option) \<Rightarrow> string + bench_settings" where
  "bench_setup env =
     (case env_or env (parse_uint (2 ^ 16 - 1)) ''PORT'' 3000 of Inl e \<Rightarrow> Inl e
      | Inr port \<Rightarrow> case env_or env (parse_nonzero (2 ^ 32 - 1)) ''BATCH_SIZE'' 32 of Inl e \<Rightarrow> Inl e
      | Inr sz \<Rightarrow> case env_or env (parse_uint (2 ^ 64 - 1)) ''BATCH_TIMEOUT_MS'' 2 of Inl e \<Rightarrow> Inl e
      | Inr timeout \<Rightarrow> case env_or env (parse_nonzero (2 ^ 8 - 1)) ''POOL_SIZE'' 1 of Inl e \<Rightarrow> Inl e
      | Inr pool \<Rightarrow> case env_or env (parse_uint (2 ^ 64 - 1)) ''CALL_OVERHEAD_MS'' 5 of Inl e \<Rightarrow> Inl e
      | Inr overhead \<Rightarrow> case env_or env (parse_uint (2 ^ 64 - 1)) ''PER_ITEM_US'' 50 of Inl e \<Rightarrow> Inl e
      | Inr item \<Rightarrow>
          Inr \<lparr>bs_port = port,
               bs_cost = \<lparr>call_overhead = from_millis overhead, per_item = from_micros item\<rparr>,
               bs_config = bench_config (of_nat sz) (from_millis timeout) (of_nat pool)\<rparr>)"

text \<open>The texts a variable is rejected for: those that are no number of its type.\<close>

definition bench_rejects :: "string \<Rightarrow> string \<Rightarrow> bool" where
  "bench_rejects name v \<longleftrightarrow>
     name = ''PORT'' \<and> parse_uint (2 ^ 16 - 1) v = None
   \<or> name = ''BATCH_SIZE'' \<and> parse_nonzero (2 ^ 32 - 1) v = None
   \<or> name = ''POOL_SIZE'' \<and> parse_nonzero (2 ^ 8 - 1) v = None
   \<or> name \<in> {''BATCH_TIMEOUT_MS'', ''CALL_OVERHEAD_MS'', ''PER_ITEM_US''} \<and> parse_uint (2 ^ 64 - 1) v = None"

lemma env_or_Inl: "env_or env parse name dflt = Inl e \<longleftrightarrow> e = name \<and> (\<exists>v. env name = Some v \<and> parse v = None)"
  by (auto simp: env_or_def split: option.splits)

lemma bench_setup_rejects:
  assumes "bench_setup env = Inl name"
  shows "\<exists>v. env name = Some v \<and> bench_rejects name v"
  using assms unfolding bench_setup_def
  by (auto simp: bench_rejects_def env_or_Inl split: sum.splits)

subsection \<open>The device\<close>

text \<open>\<open>Duration * u32\<close> and \<open>Duration + Duration\<close>, which panic on overflow: \<open>None\<close>.\<close>

definition checked_mul :: "duration \<Rightarrow> u32 \<Rightarrow> duration option" where
  "checked_mul d k = (if as_nanos d * unat k \<le> as_nanos DURATION_MAX then Some (Duration (as_nanos d * unat k)) else None)"

definition checked_add :: "duration \<Rightarrow> duration \<Rightarrow> duration option" where
  "checked_add a b = (if as_nanos a + as_nanos b \<le> as_nanos DURATION_MAX then Some (Duration (as_nanos a + as_nanos b)) else None)"

definition call_time :: "cost \<Rightarrow> nat \<Rightarrow> duration option" where
  "call_time cost len =
     (case checked_mul (per_item cost) (of_nat len) of
        None \<Rightarrow> None
      | Some items \<Rightarrow> checked_add (call_overhead cost) items)"

record device =
  dv_poisoned :: bool
  dv_cost :: cost

definition device_new :: "cost \<Rightarrow> device" where
  "device_new cost = \<lparr>dv_poisoned = False, dv_cost = cost\<rparr>"

record 'f float_ops =
  fo_zero :: 'f
  fo_add :: "'f \<Rightarrow> 'f \<Rightarrow> 'f"

definition float_sum :: "'f float_ops \<Rightarrow> 'f list \<Rightarrow> 'f" where
  "float_sum F xs = foldl (fo_add F) (fo_zero F) xs"

text \<open>\<open>Device::run\<close>: the scores and the time the device was held. A panic under the lock poisons it,
  and a poisoned lock makes every later call panic.\<close>

definition device_run ::
  "'f float_ops \<Rightarrow> device \<Rightarrow> 'f list list \<Rightarrow> ('f list \<times> duration) unwind \<times> device" where
  "device_run F dev inputs =
     (if dv_poisoned dev then (Panicked, dev)
      else (case call_time (dv_cost dev) (length inputs) of
          None \<Rightarrow> (Panicked, dev\<lparr>dv_poisoned := True\<rparr>)
        | Some t \<Rightarrow> (Returned (map (float_sum F) inputs, t), dev)))"

definition sim_predict_batch ::
  "'f float_ops \<Rightarrow> device \<Rightarrow> 'f list list \<Rightarrow> (('e + 'f list) \<times> device) unwind" where
  "sim_predict_batch F dev inputs =
     (case device_run F dev inputs of
        (Returned (scores, t), dev') \<Rightarrow> Returned (Inr scores, dev')
      | (Panicked, dev') \<Rightarrow> Panicked)"

definition bench_code :: "'f float_ops \<Rightarrow> cost \<Rightarrow> ('f list, device, 'e, 'f, 'e) user_code" where
  "bench_code F cost =
     \<lparr>uc_factory = (\<lambda>_ _ worker_id. Returned (Inr (device_new cost))), uc_predict_batch = sim_predict_batch F\<rparr>"

subsection \<open>The endpoints\<close>

datatype ('f, 'e) http_response =
    JsonScore 'f
  | InferenceFailed 'e
  | Unavailable "'e batchinf_error"
  | TaskFailed

fun status_code :: "('f, 'e) http_response \<Rightarrow> nat" where
  "status_code (JsonScore score) = 200"
| "status_code (InferenceFailed e) = 500"
| "status_code (Unavailable e) = 503"
| "status_code TaskFailed = 500"

text \<open>\<open>predict\<close>, from what the batcher's \<open>predict\<close> returned.\<close>

fun bench_predict :: "('f, 'e) reply \<Rightarrow> ('f, 'e) http_response" where
  "bench_predict (Inr score) = JsonScore score"
| "bench_predict (Inl (InferenceError e)) = InferenceFailed e"
| "bench_predict (Inl e) = Unavailable e"

text \<open>\<open>predict_unbatched\<close>; \<open>None\<close> is the panic of an index out of range.\<close>

definition predict_unbatched ::
  "'f float_ops \<Rightarrow> device \<Rightarrow> 'f list \<Rightarrow> ('f, 'e) http_response option \<times> device" where
  "predict_unbatched F dev features =
     (case device_run F dev [features] of
        (Returned (scores, t), dev') \<Rightarrow> (case scores of score # _ \<Rightarrow> Some (JsonScore score) | [] \<Rightarrow> None, dev')
      | (Panicked, dev') \<Rightarrow> (Some TaskFailed, dev'))"

subsection \<open>Parsing\<close>

text \<open>The decimal digits of a number.\<close>

fun decimal :: "nat \<Rightarrow> string" where
  "decimal n = (if n < 10 then [char_of (48 + n)] else decimal (n div 10) @ [char_of (48 + n mod 10)])"

declare decimal.simps [simp del]

lemma digit_value_digit [simp]: "d < 10 \<Longrightarrow> digit_value (char_of (48 + d)) = Some d"
  by (simp add: digit_value_def)

lemma parse_digits_append:
  "parse_digits limit acc (xs @ ys) =
    (case parse_digits limit acc xs of None \<Rightarrow> None | Some v \<Rightarrow> parse_digits limit v ys)"
  by (induction xs arbitrary: acc) (auto split: option.splits)

lemma parse_digits_decimal: "n \<le> limit \<Longrightarrow> parse_digits limit 0 (decimal n) = Some n"
proof (induction n rule: decimal.induct)
  case (1 n)
  show ?case
  proof (cases "n < 10")
    case True
    with "1.prems" show ?thesis by (simp add: decimal.simps [of n])
  next
    case False
    with 1 show ?thesis
      by (simp add: decimal.simps [of n] parse_digits_append)
  qed
qed

lemma decimal_not_signed:
  obtains d cs where "decimal n = char_of (48 + d :: nat) # cs" "d < 10"
proof (induction n arbitrary: thesis rule: decimal.induct)
  case (1 n)
  show ?case
  proof (cases "n < 10")
    case True
    with "1.prems" show ?thesis by (simp add: decimal.simps [of n])
  next
    case False
    obtain d cs where "decimal (n div 10) = char_of (48 + d :: nat) # cs" "d < 10"
      using "1.IH" [OF False] .
    with "1.prems" False show ?thesis by (simp add: decimal.simps [of n])
  qed
qed

lemma parse_uint_decimal: "n \<le> limit \<Longrightarrow> parse_uint limit (decimal n) = Some n"
proof -
  assume n: "n \<le> limit"
  obtain d cs where d: "decimal n = char_of (48 + d :: nat) # cs" "d < 10"
    by (rule decimal_not_signed)
  have "digit_value (CHR ''+'') = None"
    by (simp add: digit_value_def)
  then have "char_of (48 + d) \<noteq> CHR ''+''"
    using digit_value_digit [OF d(2)] by force
  with d(1) parse_digits_decimal [OF n] show ?thesis
    by (simp add: parse_uint_def)
qed

lemma parse_digits_le: "parse_digits limit acc s = Some n \<Longrightarrow> acc \<le> limit \<Longrightarrow> n \<le> limit"
  by (induction limit acc s rule: parse_digits.induct) (auto split: option.splits if_splits)

lemma parse_uint_le: "parse_uint limit s = Some n \<Longrightarrow> n \<le> limit"
  by (auto simp: parse_uint_def Let_def split: if_splits dest: parse_digits_le)

lemma parse_nonzero_range: "parse_nonzero limit s = Some n \<Longrightarrow> 0 < n \<and> n \<le> limit"
  by (auto simp: parse_nonzero_def split: option.splits if_splits dest: parse_uint_le)

lemma env_or_range:
  "env_or env parse name dflt = Inr x \<Longrightarrow> (\<And>s y. parse s = Some y \<Longrightarrow> R y) \<Longrightarrow> R dflt \<Longrightarrow> R x"
  by (auto simp: env_or_def split: option.splits)

lemma saturating_double_pos: "sz \<noteq> 0 \<Longrightarrow> u32_saturating_mul sz 2 \<noteq> 0"
proof -
  assume "sz \<noteq> 0"
  then have "0 < unat sz" by (simp add: unat_gt_0)
  moreover have "unat (sz * 2) = unat sz * 2" if "unat sz * 2 < 2 ^ 32"
    using that by (simp add: unat_word_ariths)
  ultimately show ?thesis
    by (auto simp: u32_saturating_mul_def dest: arg_cong [of _ _ unat])
qed

lemma bench_config_fields [simp]:
  "batch_size (bench_config sz timeout pool) = sz" "pool_size (bench_config sz timeout pool) = pool"
  "queue_size (bench_config sz timeout pool) = u32_saturating_mul sz 2"
  "batch_timeout (bench_config sz timeout pool) = timeout" "config_metrics (bench_config sz timeout pool) = None"
  by (simp_all add: bench_config_def build_def builder_def setter_defs)

lemma bench_setup_wf:
  assumes "bench_setup env = Inr s"
  shows "config_wf (bs_config s)" and "config_metrics (bs_config s) = None"
proof -
  obtain sz timeout pool where s: "bs_config s = bench_config (of_nat sz) (from_millis timeout) (of_nat pool)"
      "env_or env (parse_nonzero (2 ^ 32 - 1)) ''BATCH_SIZE'' 32 = Inr sz"
      "env_or env (parse_nonzero (2 ^ 8 - 1)) ''POOL_SIZE'' 1 = Inr pool"
    using assms by (auto simp: bench_setup_def split: sum.splits)
  have "0 < sz \<and> sz \<le> 2 ^ 32 - 1"
    by (rule env_or_range [OF s(2), of "\<lambda>n. 0 < n \<and> n \<le> 2 ^ 32 - 1"]) (use parse_nonzero_range in auto)
  moreover have "0 < pool \<and> pool \<le> 2 ^ 8 - 1"
    by (rule env_or_range [OF s(3), of "\<lambda>n. 0 < n \<and> n \<le> 2 ^ 8 - 1"]) (use parse_nonzero_range in auto)
  ultimately have "(of_nat sz :: u32) \<noteq> 0" "(of_nat pool :: u8) \<noteq> 0"
    by (simp_all add: word_unat_eq_iff unsigned_of_nat take_bit_nat_eq_self)
  then show "config_wf (bs_config s)" and "config_metrics (bs_config s) = None"
    using saturating_double_pos by (simp_all add: s(1) config_wf_def)
qed

subsection \<open>The device and its predictor\<close>

lemma call_time_eq:
  assumes "m < 2 ^ 32"
  shows "call_time cost m = (let t = as_nanos (call_overhead cost) + as_nanos (per_item cost) * m
    in if t \<le> as_nanos DURATION_MAX then Some (Duration t) else None)"
proof -
  have "unat (of_nat m :: u32) = m"
    using assms by (simp add: unsigned_of_nat take_bit_nat_eq_self)
  then show ?thesis
    by (auto simp: call_time_def checked_mul_def checked_add_def Let_def)
qed

lemma call_time_mono:
  assumes "call_time cost m \<noteq> None" and "len \<le> m" and "m < 2 ^ 32"
  shows "call_time cost len \<noteq> None"
proof -
  have "as_nanos (per_item cost) * len \<le> as_nanos (per_item cost) * m"
    using assms(2) by (rule mult_le_mono2)
  moreover have "as_nanos (call_overhead cost) + as_nanos (per_item cost) * m \<le> as_nanos DURATION_MAX"
    using assms(1,3) by (simp add: call_time_eq Let_def split: if_splits)
  ultimately have "as_nanos (call_overhead cost) + as_nanos (per_item cost) * len \<le> as_nanos DURATION_MAX"
    by linarith
  then show ?thesis
    using assms(2,3) by (simp add: call_time_eq Let_def)
qed

lemma sim_predict_batch_fits:
  assumes "call_time cost (length inputs) \<noteq> None"
  shows "sim_predict_batch F (device_new cost) inputs = Returned (Inr (map (float_sum F) inputs), device_new cost)"
  using assms by (auto simp: sim_predict_batch_def device_run_def device_new_def)

lemma sim_predict_batch_Returned:
  "sim_predict_batch F dev inputs = Returned (res, dev') \<Longrightarrow> res = Inr (map (float_sum F) inputs)"
  by (auto simp: sim_predict_batch_def device_run_def split: option.splits if_splits)

abbreviation bench_env ::
  "('q, 'f list \<times> 's) mpsc \<Rightarrow> ('j, ('f list, 's) worker_buffer) mpsc \<Rightarrow> 'n notify \<Rightarrow> instant \<Rightarrow> 'f float_ops
     \<Rightarrow> bench_settings \<Rightarrow> ('f list, 's, device, 'e, 'q, 'j, 'f, 'e, 'n) pool_env" where
  "bench_env Q J N imax F s \<equiv> batcher_env Q J N imax (bench_code F (bs_cost s)) (bs_config s)"

abbreviation bench_reach ::
  "('q, 'f list \<times> 's) mpsc \<Rightarrow> ('j, ('f list, 's) worker_buffer) mpsc \<Rightarrow> 'n notify \<Rightarrow> instant \<Rightarrow> 'f float_ops
     \<Rightarrow> bench_settings \<Rightarrow> ('f list, 's, device, 'e, 'q, 'j, 'f, 'e, 'n) pool_sys \<Rightarrow> bool" where
  "bench_reach Q J N imax F s \<equiv> pool_reach (bench_env Q J N imax F s) (inner_config_from (bs_config s))
     (unat (queue_size (bs_config s))) (unat (pool_size (bs_config s)))"

lemma bench_sound:
  fixes F :: "'f float_ops"
  assumes "bench_setup env = Inr s" and "call_time (bs_cost s) (unat (batch_size (bs_config s))) \<noteq> None"
    and "i < unat (pool_size (bs_config s))"
  shows "sound_code (\<lambda>dev. dev = device_new (bs_cost s)) (unat (ic_batch_size (inner_config_from (bs_config s))))
    (pe_worker (bench_env Q J N imax F s) i)"
proof (rule batcher_sound_code)
  show "quiet_hook (config_metrics (bs_config s))"
    using bench_setup_wf(2) [OF assms(1)] by (simp add: quiet_hook_def)
  have "unat (batch_size (bs_config s)) < 2 ^ 32"
    using unsigned_less [of "batch_size (bs_config s)"] by simp
  note fits = call_time_mono [OF assms(2) _ this]
  fix dev and ins :: "'f list list"
  assume "dev = device_new (bs_cost s)" "length ins \<le> unat (batch_size (bs_config s))"
  then show "\<exists>res dev'.
      uc_predict_batch (bench_code F (bs_cost s)) dev ins = Returned (res, dev')
      \<and> dev' = device_new (bs_cost s) \<and> (\<forall>outs. res = Inr outs \<longrightarrow> length outs = length ins)"
    by (simp add: bench_code_def sim_predict_batch_fits [OF fits])
qed (use assms(3) in \<open>simp_all add: bench_code_def\<close>)

subsection \<open>A server to run\<close>

text \<open>Batches of two, numbers instead of floats; two requests arrive and form a batch.\<close>

definition nat_ops :: "nat float_ops" where
  "nat_ops = \<lparr>fo_zero = 0, fo_add = (+)\<rparr>"

definition two_env :: "string \<Rightarrow> string option" where
  "two_env name = (if name = ''BATCH_SIZE'' then Some ''2'' else None)"

definition two_setup :: bench_settings where
  "two_setup = \<lparr>bs_port = 3000, bs_cost = \<lparr>call_overhead = from_millis 5, per_item = from_micros 50\<rparr>,
     bs_config = bench_config 2 (from_millis 2) 1\<rparr>"

lemma two_env_setup: "bench_setup two_env = Inr two_setup"
  by (simp add: bench_setup_def two_setup_def two_env_def env_or_def parse_nonzero_def parse_uint_def digit_value_def)

definition two_bench ::
  "(nat list, nat, device, unit, (nat list \<times> nat) fifo, (nat list, nat) worker_buffer fifo, nat, unit, fifo_signal) pool_env" where
  "two_bench = bench_env fifo_mpsc fifo_mpsc fifo_notify (10 ^ 30) nat_ops two_setup"

lemma two_bench_parts:
  "we_requests (pe_worker two_bench 0) = fifo_mpsc" "we_jobs (pe_worker two_bench 0) = fifo_mpsc"
  "we_imax (pe_worker two_bench 0) = 10 ^ 30" "iw_obs (we_worker (pe_worker two_bench 0)) = None"
  "ia_predict_batch (we_args (pe_worker two_bench 0)) = sim_predict_batch nat_ops"
  "ia_factory (we_args (pe_worker two_bench 0)) k j = Returned (Inr (device_new (bs_cost two_setup)))"
  "ia_retries (we_args (pe_worker two_bench 0)) = 3" "ia_obs (we_args (pe_worker two_bench 0)) = None"
  "pe_signal two_bench = fifo_notify"
  unfolding two_bench_def
  by (simp_all add: batcher_env_worker two_setup_def make_runner_args_def bench_code_def Let_def)
    (simp add: bench_config_def build_def builder_def setter_defs DEFAULT_WORKER_START_RETRIES_def)

definition two_run :: "(nat list, nat) pool_move list" where
  "two_run =
     [PoolInf 0 (InfStart (\<lambda>_. False) True), PoolServe, PoolArrive [1, 2] 7 True] @ replicate 7 (PoolCall 0)
     @ PoolArrive [5] 8 True # replicate 7 (PoolCall 1)
     @ [PoolAcc 0 (AccRecv 0), PoolAcc 0 (AccRecv 0)] @ replicate 5 (PoolAcc 0 AccRun)
     @ [PoolInf 0 (InfReceive (\<lambda>_. False)), PoolInf 0 (InfPredict DURATION_ZERO), PoolCall 0, PoolCall 1]"

lemma spawn_predictor_built:
  assumes "f (bt_calls t) w = Returned (Inr q)" and "n \<noteq> 0" and "\<not> exit_cond (bt_polls t)"
  shows "spawn_predictor f w n b m exit_cond t =
    (Inr q, t\<lparr>bt_polls := bt_polls t + 1, bt_calls := bt_calls t + 1\<rparr>)"
proof -
  have "length (backoff_schedule n b m) = unat n" "0 < unat n"
    using assms(2) by (simp_all add: unat_gt_0)
  then obtain wait waits where "backoff_schedule n b m = wait # waits"
    by (cases "backoff_schedule n b m") auto
  with assms(1,3) show ?thesis
    by (simp add: spawn_predictor_def try_make_predictor_def Let_def)
qed

lemma two_run_scores:
  "map_option ps_callers (run_pool two_bench two_run (new_pool two_bench \<lparr>ic_timeout = from_millis 2, ic_batch_size = 2\<rparr> 4 1)) =
   Some [\<lparr>ca_input = [1, 2], ca_sender = 7, ca_waits = True, ca_pc = CallReturned True (Inr 3)\<rparr>,
         \<lparr>ca_input = [5], ca_sender = 8, ca_waits = True, ca_pc = CallReturned True (Inr 5)\<rparr>]"
  by (simp add: two_run_def two_bench_parts pool_run_defs sim_predict_batch_def device_run_def device_new_def two_setup_def
      call_time_eq nat_ops_def float_sum_def from_micros_def DURATION_MAX_def Let_def duration_simps
      spawn_predictor_built del: spawn_predictor_def)

subsection \<open>Properties\<close>

text \<open>C16: Batching is transparent. For every environment the server accepts, if one batch of the
  configured size takes a time that can be represented, then in every reachable state of the batched
  server, under every interleaving of any number of requests: each request to \<open>/predict\<close> that has been
  answered got status 200 with exactly the score that \<open>/predict/unbatched\<close> computes for the same
  features on a device of its own. No request fails, and the device's lock is never poisoned.\<close>

theorem bench_batched_equals_unbatched:
  fixes F :: "'f float_ops" and p :: "('f list, 's, device, 'e, 'q, 'j, 'f, 'e, 'n) pool_sys"
  assumes "mpsc_channel Q qi qc qr qt" and "mpsc_channel J ji jc jr jt" and "notify_signal N permit fut"
    and "clock_in_range imax (AccRecv 0)" and "bench_setup env = Inr s"
    and "call_time (bs_cost s) (unat (batch_size (bs_config s))) \<noteq> None"
    and "bench_reach Q J N imax F s p" and "c \<in> set (ps_callers p)" and "ca_waits c"
    and "ca_pc c = CallReturned b r"
  shows "predict_unbatched F (device_new (bs_cost s)) (ca_input c) = (Some (bench_predict r), device_new (bs_cost s))
    \<and> status_code (bench_predict r) = 200"
proof -
  note wf = bench_setup_wf(1) [OF assms(5)]
  note model = batcher_pool_model [OF assms(1-3) wf assms(4), of "bench_code F (bs_cost s)"]
  note inv = pool_model.reach_pool_inv [OF model assms(7)]
  have "pool_model.clean_inv (\<lambda>dev. dev = device_new (bs_cost s)) p"
    by (rule pool_model.reach_clean [OF model bench_sound [OF assms(5,6)] assms(7)])
  then have kept: "kept (ca_pc c)"
    using assms(8) by (simp add: pool_model.clean_inv_def [OF model])
  obtain out where r: "r = Inr out"
  proof (cases r)
    case (Inl e)
    then have "e = QueueFullError \<or> (\<exists>err. e = InferenceError err)"
      using kept assms(10) by simp
    with pool_model.returned_error [OF model inv assms(8) assms(10) [unfolded Inl]] assms(9)
    obtain i q q' and ps :: "('f list \<times> 's) list" and err :: 'e where "i < unat (pool_size (bs_config s))"
      "ia_predict_batch (we_args (pe_worker (bench_env Q J N imax F s) i)) q (map fst ps) = Returned (Inl err, q')"
      by auto
    then have "sim_predict_batch F q (map fst ps) = Returned (Inl err, q')"
      by (simp add: batcher_env_worker make_runner_args_def bench_code_def Let_def)
    from sim_predict_batch_Returned [OF this] show ?thesis by simp
  qed
  from pool_model.returned_output [OF model inv assms(8) assms(10) [unfolded r]]
  obtain i q q' ins outs k where i: "i < unat (pool_size (bs_config s))"
    and call: "ia_predict_batch (we_args (pe_worker (bench_env Q J N imax F s) i)) q ins = Returned (Inr outs :: 'e + 'f list, q')"
    and k: "k < length ins" "ins ! k = ca_input c" "outs ! k = out"
    by blast
  have "sim_predict_batch F q ins = Returned (Inr outs :: 'e + 'f list, q')"
    using call i by (simp add: batcher_env_worker make_runner_args_def bench_code_def Let_def)
  then have out: "out = float_sum F (ca_input c)"
    using sim_predict_batch_Returned k by fastforce
  have "1 \<le> unat (batch_size (bs_config s))" "unat (batch_size (bs_config s)) < 2 ^ 32"
    using wf unsigned_less [of "batch_size (bs_config s)"] by (simp_all add: config_wf_def unat_gt_0 Suc_le_eq)
  with call_time_mono [OF assms(6), of 1] obtain t where "call_time (bs_cost s) 1 = Some t"
    by auto
  then show ?thesis
    by (simp add: predict_unbatched_def device_run_def device_new_def r out)
qed

lemma two_setup_fields:
  "inner_config_from (bs_config two_setup) = \<lparr>ic_timeout = from_millis 2, ic_batch_size = 2\<rparr>"
  "unat (queue_size (bs_config two_setup)) = 4" "unat (pool_size (bs_config two_setup)) = 1"
  "unat (batch_size (bs_config two_setup)) = 2"
  by (simp_all add: two_setup_def inner_config_from_def u32_saturating_mul_def)

theorem bench_batched_equals_unbatched_witness:
  "\<exists>p c. pool_reach two_bench \<lparr>ic_timeout = from_millis 2, ic_batch_size = 2\<rparr> 4 1 p \<and> c \<in> set (ps_callers p)
    \<and> ca_pc c = CallReturned True (Inr 3)
    \<and> predict_unbatched nat_ops (device_new (bs_cost two_setup)) [1, 2] =
        (Some (JsonScore 3 :: (nat, unit) http_response), device_new (bs_cost two_setup))"
proof (rule run_pool_cases [OF two_run_scores])
  fix p assume p: "pool_reach two_bench \<lparr>ic_timeout = from_millis 2, ic_batch_size = 2\<rparr> 4 1 p"
    "ps_callers p = [\<lparr>ca_input = [1, 2], ca_sender = 7, ca_waits = True, ca_pc = CallReturned True (Inr 3)\<rparr>,
      \<lparr>ca_input = [5], ca_sender = 8, ca_waits = True, ca_pc = CallReturned True (Inr 5)\<rparr>]"
  let ?c = "ps_callers p ! 0"
  have c: "?c \<in> set (ps_callers p)" "ca_waits ?c" "ca_pc ?c = CallReturned True (Inr 3)" "ca_input ?c = [1, 2]"
    using p(2) by simp_all
  have clock: "clock_in_range (10 ^ 30) (AccRecv 0)"
    by (simp add: instant_checked_add_def ONE_YEAR_def duration_simps)
  have fits: "call_time (bs_cost two_setup) (unat (batch_size (bs_config two_setup))) \<noteq> None"
    unfolding two_setup_fields by (simp add: call_time_eq two_setup_def from_micros_def DURATION_MAX_def duration_simps)
  note q = fifo.mpsc_channel_axioms [where ?'a = "nat list \<times> nat"]
    and j = fifo.mpsc_channel_axioms [where ?'a = "(nat list, nat) worker_buffer"]
  have reach: "bench_reach fifo_mpsc fifo_mpsc fifo_notify (10 ^ 30) nat_ops two_setup p"
    using p(1) unfolding two_setup_fields two_bench_def .
  from bench_batched_equals_unbatched [OF q j fifo_sig.notify_signal_axioms clock two_env_setup fits reach c(1-3)]
  show ?thesis
    using p(1) c by (intro exI [of _ p] exI [of _ ?c]) simp
qed

text \<open>C32: The server's settings are read back exactly. For all values within the types of the
  variables, setting each variable to the decimal digits of its value starts the server with these very
  values: the port, the cost of a device call, and a configuration with the given batch size, timeout
  and pool size and twice the batch size as queue size, saturated at the largest \<open>u32\<close>.\<close>

theorem bench_setup_reads_decimals:
  assumes "port < 2 ^ 16" and "0 < sz" and "sz < 2 ^ 32" and "timeout < 2 ^ 64" and "0 < pool" and "pool < 2 ^ 8"
    and "overhead < 2 ^ 64" and "item < 2 ^ 64"
  shows "\<exists>config. bench_setup (map_of [(''PORT'', decimal port), (''BATCH_SIZE'', decimal sz),
        (''BATCH_TIMEOUT_MS'', decimal timeout), (''POOL_SIZE'', decimal pool),
        (''CALL_OVERHEAD_MS'', decimal overhead), (''PER_ITEM_US'', decimal item)]) =
      Inr \<lparr>bs_port = port, bs_cost = \<lparr>call_overhead = from_millis overhead, per_item = from_micros item\<rparr>,
           bs_config = config\<rparr>
    \<and> unat (batch_size config) = sz \<and> batch_timeout config = from_millis timeout
    \<and> unat (pool_size config) = pool \<and> unat (queue_size config) = min (2 * sz) (2 ^ 32 - 1)"
proof (intro exI conjI)
  let ?config = "bench_config (of_nat sz) (from_millis timeout) (of_nat pool)"
  have sz: "unat (of_nat sz :: u32) = sz" and pool: "unat (of_nat pool :: u8) = pool"
    using assms(3,6) by (simp_all add: unsigned_of_nat take_bit_nat_eq_self)
  show "bench_setup (map_of [(''PORT'', decimal port), (''BATCH_SIZE'', decimal sz),
        (''BATCH_TIMEOUT_MS'', decimal timeout), (''POOL_SIZE'', decimal pool),
        (''CALL_OVERHEAD_MS'', decimal overhead), (''PER_ITEM_US'', decimal item)]) =
      Inr \<lparr>bs_port = port, bs_cost = \<lparr>call_overhead = from_millis overhead, per_item = from_micros item\<rparr>,
           bs_config = ?config\<rparr>"
    using assms by (simp add: bench_setup_def env_or_def parse_nonzero_def parse_uint_decimal)
  show "unat (batch_size ?config) = sz" "batch_timeout ?config = from_millis timeout" "unat (pool_size ?config) = pool"
    by (simp_all add: sz pool)
  have "unat (of_nat sz * 2 :: u32) = sz * 2" if "sz * 2 < 2 ^ 32"
    using that sz by (simp add: unat_word_ariths)
  then show "unat (queue_size ?config) = min (2 * sz) (2 ^ 32 - 1)"
    using assms(3) by (auto simp: u32_saturating_mul_def sz min_def)
qed

theorem bench_setup_reads_decimals_witness:
  "\<exists>config. bench_setup (map_of [(''PORT'', decimal 8080), (''BATCH_SIZE'', decimal 3000000000),
        (''BATCH_TIMEOUT_MS'', decimal 0), (''POOL_SIZE'', decimal 255),
        (''CALL_OVERHEAD_MS'', decimal 10), (''PER_ITEM_US'', decimal 7)]) =
      Inr \<lparr>bs_port = 8080, bs_cost = \<lparr>call_overhead = from_millis 10, per_item = from_micros 7\<rparr>, bs_config = config\<rparr>
    \<and> unat (queue_size config) = 4294967295 \<and> decimal 8080 = ''8080''"
proof -
  have "decimal 8080 = ''8080''"
    by (simp add: decimal.simps char_of_eq_iff)
  with bench_setup_reads_decimals [of 8080 3000000000 0 255 10 7] show ?thesis by auto
qed

end
