(* ===== verification/Clip_Example.thy ===== *)
theory Clip_Example
  imports Errors
begin

text \<open>
  The example service (\<open>example/src/main.rs\<close>), which embeds images with CLIP: \<open>preprocess\<close> turns an
  image into the numbers of one request, \<open>predict_batch\<close> puts the requests of a batch into one tensor,
  and \<open>embed\<close> answers a request. Decoding and resizing an image, \<open>f32\<close> arithmetic, and the tensors and
  the model of candle are parameters; of the tensors the code relies on \<open>Tensor::from_vec\<close> being row
  major, stated by \<open>row_major\<close>.
\<close>

definition IMAGE_SIZE :: nat where "IMAGE_SIZE = 224"

text \<open>\<open>lit m\<close> is the literal \<open>m\<close> times \<open>10 ^ - 8\<close>.\<close>

record 'f clip_ops =
  co_lit :: "nat \<Rightarrow> 'f"
  co_of_u8 :: "u8 \<Rightarrow> 'f"
  co_sub :: "'f \<Rightarrow> 'f \<Rightarrow> 'f"
  co_div :: "'f \<Rightarrow> 'f \<Rightarrow> 'f"

definition MEAN :: "'f clip_ops \<Rightarrow> 'f list" where
  "MEAN F = map (co_lit F) [48145466, 45782750, 40821073]"

definition STD :: "'f clip_ops \<Rightarrow> 'f list" where
  "STD F = map (co_lit F) [26862954, 26130258, 27577711]"

text \<open>The channel \<open>c\<close> of a pixel, normalised.\<close>

definition normalise :: "'f clip_ops \<Rightarrow> nat \<Rightarrow> u8 list \<Rightarrow> 'f" where
  "normalise F c pixel =
     (let val = co_div F (co_of_u8 F (pixel ! c)) (co_lit F 25500000000)
      in co_div F (co_sub F val (MEAN F ! c)) (STD F ! c))"

text \<open>\<open>preprocess\<close>, from the pixels of the resized image, row by row.\<close>

definition preprocess :: "'f clip_ops \<Rightarrow> u8 list list \<Rightarrow> 'f list" where
  "preprocess F pixels = concat (map (\<lambda>c. map (\<lambda>pixel. normalise F c pixel) pixels) [0..<3])"

subsection \<open>The predictor\<close>

record ('f, 't, 'e) tensor_lib =
  tl_from_vec :: "'f list \<Rightarrow> nat list \<Rightarrow> 'e + 't"
  tl_get :: "'t \<Rightarrow> nat list \<Rightarrow> 'f"
  tl_image_features :: "'t \<Rightarrow> 'e + 't"
  tl_to_vec2 :: "'t \<Rightarrow> 'e + 'f list list"
  tl_to_string :: "'e \<Rightarrow> string"

datatype embed_error = EmbedError string

definition embed_error_from :: "('f, 't, 'e) tensor_lib \<Rightarrow> 'e \<Rightarrow> embed_error" where
  "embed_error_from L e = EmbedError (tl_to_string L e)"

definition clip_predict_batch ::
  "('f, 't, 'e) tensor_lib \<Rightarrow> 'f list list \<Rightarrow> embed_error + 'f list list" where
  "clip_predict_batch L inputs =
     (let batch = length inputs; flat = concat inputs
      in case tl_from_vec L flat [batch, 3, IMAGE_SIZE, IMAGE_SIZE] of
           Inl e \<Rightarrow> Inl (embed_error_from L e)
         | Inr pixel_values \<Rightarrow>
             (case tl_image_features L pixel_values of
                Inl e \<Rightarrow> Inl (embed_error_from L e)
              | Inr embeddings \<Rightarrow>
                  (case tl_to_vec2 L embeddings of
                     Inl e \<Rightarrow> Inl (embed_error_from L e)
                   | Inr rows \<Rightarrow> Inr rows)))"

subsection \<open>The endpoint\<close>

datatype 'f embed_response =
    BadRequest
  | JsonEmbedding "'f list"
  | EmbedFailed embed_error
  | EmbedUnavailable "embed_error batchinf_error"

text \<open>\<open>embed\<close>: \<open>decoded\<close> are the pixels of the decoded and resized image, if it could be decoded, and
  \<open>batcher_predict\<close> is what the call of the batcher returns for an input.\<close>

definition embed ::
  "'f clip_ops \<Rightarrow> u8 list list option \<Rightarrow> ('f list \<Rightarrow> ('f list, embed_error) reply) \<Rightarrow> 'f embed_response" where
  "embed F decoded batcher_predict =
     (case decoded of
        None \<Rightarrow> BadRequest
      | Some pixels \<Rightarrow>
          (case batcher_predict (preprocess F pixels) of
             Inr embedding \<Rightarrow> JsonEmbedding embedding
           | Inl (InferenceError e) \<Rightarrow> EmbedFailed e
           | Inl e \<Rightarrow> EmbedUnavailable e))"

subsection \<open>Where a pixel goes\<close>

text \<open>A tensor is built exactly from data of its size, and read back in row-major order.\<close>

definition row_major :: "('f, 't, 'e) tensor_lib \<Rightarrow> bool" where
  "row_major L \<longleftrightarrow> (\<forall>data a b c d. length data = a * b * c * d \<longrightarrow>
     (\<exists>t. tl_from_vec L data [a, b, c, d] = Inr t
        \<and> (\<forall>i j k l. i < a \<and> j < b \<and> k < c \<and> l < d \<longrightarrow>
             tl_get L t [i, j, k, l] = data ! (((i * b + j) * c + k) * d + l))))"

lemma length_concat_same: "(\<And>x. x \<in> set xs \<Longrightarrow> length x = m) \<Longrightarrow> length (concat xs) = length xs * m"
  by (induction xs) auto

lemma nth_concat_same:
  assumes "\<And>x. x \<in> set xs \<Longrightarrow> length x = m" and "i < length xs" and "k < m"
  shows "concat xs ! (i * m + k) = xs ! i ! k"
  using assms
proof (induction xs arbitrary: i)
  case (Cons x xs)
  show ?case
  proof (cases i)
    case (Suc j)
    have len: "length x = m" using Cons.prems(1) by simp
    have "concat (x # xs) ! (i * m + k) = concat xs ! (j * m + k)"
      using Suc len by (simp add: nth_append add.assoc)
    with Cons.IH [of j] Cons.prems Suc show ?thesis by simp
  qed (use Cons.prems in \<open>simp add: nth_append\<close>)
qed simp

lemma preprocess_nth:
  assumes "length pixels = m" and "c < 3" and "k < m"
  shows "preprocess F pixels ! (c * m + k) = normalise F c (pixels ! k)"
proof -
  have "preprocess F pixels ! (c * m + k) = map (\<lambda>c. map (\<lambda>pixel. normalise F c pixel) pixels) [0..<3] ! c ! k"
    unfolding preprocess_def by (rule nth_concat_same) (use assms in auto)
  then show ?thesis using assms by simp
qed

lemma length_preprocess: "length (preprocess F pixels) = 3 * length pixels"
  by (simp add: preprocess_def upt_rec)

lemma row_major_build:
  assumes "row_major L" and "length data = a * b * c * d"
  obtains t where "tl_from_vec L data [a, b, c, d] = Inr t"
    and "\<And>i j k l. i < a \<Longrightarrow> j < b \<Longrightarrow> k < c \<Longrightarrow> l < d \<Longrightarrow> tl_get L t [i, j, k, l] = data ! (((i * b + j) * c + k) * d + l)"
  using assms unfolding row_major_def by metis

subsection \<open>Property\<close>

text \<open>C33: The batch tensor holds every request's own image. For every batch of images of the model's
  size, whatever the arithmetic: the data \<open>predict_batch\<close> collects has the size of its shape, so the
  tensor is built, and at image \<open>i\<close>, channel \<open>c\<close>, row \<open>y\<close> and column \<open>x\<close> it holds the normalised channel
  \<open>c\<close> of that pixel of the \<open>i\<close>-th request's image; what is returned is what the model makes of that
  tensor, or its error.\<close>

theorem clip_batch_layout:
  assumes "row_major L" and "\<forall>img \<in> set imgs. length img = IMAGE_SIZE * IMAGE_SIZE"
    and "i < length imgs" and "c < 3" and "y < IMAGE_SIZE" and "x < IMAGE_SIZE"
  shows "\<exists>t. tl_from_vec L (concat (map (preprocess F) imgs)) [length imgs, 3, IMAGE_SIZE, IMAGE_SIZE] = Inr t
    \<and> tl_get L t [i, c, y, x] = normalise F c (imgs ! i ! (y * IMAGE_SIZE + x))
    \<and> clip_predict_batch L (map (preprocess F) imgs) =
        (case tl_image_features L t of
           Inl e \<Rightarrow> Inl (EmbedError (tl_to_string L e))
         | Inr embeddings \<Rightarrow>
             (case tl_to_vec2 L embeddings of Inl e \<Rightarrow> Inl (EmbedError (tl_to_string L e)) | Inr rows \<Rightarrow> Inr rows))"
proof -
  let ?n = "IMAGE_SIZE" and ?flat = "concat (map (preprocess F) imgs)"
  have size: "length r = 3 * (?n * ?n)" if "r \<in> set (map (preprocess F) imgs)" for r
    using that assms(2) by (auto simp: length_preprocess)
  have "length ?flat = length (map (preprocess F) imgs) * (3 * (?n * ?n))"
    using size by (rule length_concat_same)
  then have "length ?flat = length imgs * 3 * ?n * ?n"
    by (simp add: ac_simps)
  then obtain t where t: "tl_from_vec L ?flat [length imgs, 3, ?n, ?n] = Inr t"
      and get: "\<And>i j k l. i < length imgs \<Longrightarrow> j < 3 \<Longrightarrow> k < ?n \<Longrightarrow> l < ?n \<Longrightarrow>
        tl_get L t [i, j, k, l] = ?flat ! (((i * 3 + j) * ?n + k) * ?n + l)"
    by (rule row_major_build [OF assms(1)]) blast
  have pos: "y * ?n + x < ?n * ?n"
    using assms(5,6) mult_le_mono1 [of "y + 1" ?n ?n] by simp
  have inner: "c * (?n * ?n) + (y * ?n + x) < 3 * (?n * ?n)"
  proof -
    from assms(4) consider "c = 0" | "c = 1" | "c = 2" by linarith
    then show ?thesis by cases (use pos in simp_all)
  qed
  have "((i * 3 + c) * ?n + y) * ?n + x = i * (3 * (?n * ?n)) + (c * (?n * ?n) + (y * ?n + x))"
    by (simp add: algebra_simps)
  then have "tl_get L t [i, c, y, x] = ?flat ! (i * (3 * (?n * ?n)) + (c * (?n * ?n) + (y * ?n + x)))"
    using get [OF assms(3-6)] by (simp only:)
  also have "\<dots> = map (preprocess F) imgs ! i ! (c * (?n * ?n) + (y * ?n + x))"
    by (rule nth_concat_same) (use size assms(3) inner in auto)
  also have "\<dots> = normalise F c (imgs ! i ! (y * ?n + x))"
    using assms(2,3) preprocess_nth [OF _ assms(4) pos, of "imgs ! i" F] by simp
  finally show ?thesis
    using t by (auto simp: clip_predict_batch_def embed_error_from_def split: sum.splits)
qed

definition list_tensors :: "(nat, nat list \<times> nat list, unit) tensor_lib" where
  "list_tensors = \<lparr>
     tl_from_vec = (\<lambda>data shape. if length data = prod_list shape then Inr (data, shape) else Inl ()),
     tl_get = (\<lambda>(data, shape) idx. data ! (((idx ! 0 * shape ! 1 + idx ! 1) * shape ! 2 + idx ! 2) * shape ! 3 + idx ! 3)),
     tl_image_features = Inr, tl_to_vec2 = (\<lambda>(data, shape). Inr [data]), tl_to_string = (\<lambda>_. ''shape'')\<rparr>"

definition nat_clip :: "nat clip_ops" where
  "nat_clip = \<lparr>co_lit = (\<lambda>n. n div 100000000), co_of_u8 = unat, co_sub = (-), co_div = (\<lambda>a b. if b = 0 then a else a div b)\<rparr>"

theorem clip_batch_layout_witness:
  "\<exists>t. tl_from_vec list_tensors (concat (map (preprocess nat_clip)
        [replicate (224 * 224) [1, 2, 255], replicate (224 * 224) [255, 0, 0]])) [2, 3, 224, 224] = Inr t
    \<and> tl_get list_tensors t [0, 2, 223, 5] = 1"
proof -
  let ?imgs = "[replicate (224 * 224) [1, 2, 255], replicate (224 * 224) [255, 0, 0 :: u8]]"
  have row: "row_major list_tensors"
    by (auto simp: row_major_def list_tensors_def)
  have imgs: "\<forall>img \<in> set ?imgs. length img = IMAGE_SIZE * IMAGE_SIZE" and n: "length ?imgs = 2"
    by (simp_all add: IMAGE_SIZE_def)
  have pixel: "normalise nat_clip 2 (?imgs ! 0 ! (223 * IMAGE_SIZE + 5)) = 1"
    unfolding IMAGE_SIZE_def by (simp add: normalise_def nat_clip_def MEAN_def STD_def)
  from clip_batch_layout [OF row imgs, of 0 2 223 5 nat_clip] pixel show ?thesis
    unfolding n by (auto simp: IMAGE_SIZE_def)
qed

end
