(* ===== verification/Clip_Service.thy ===== *)
theory Clip_Service
  imports Http_Bench Clip_Example
begin

text \<open>
  The example service on a pool of this library (\<open>example/src/main.rs\<close>): its configuration, the
  predictor its factory hands to every worker, and what the embedding endpoint answers. \<open>L\<close> is the
  tensor library with the loaded model, which all workers share.
\<close>

definition clip_config :: batcher_config where
  "clip_config = build (set_pool_size 1 (builder 32 (from_millis 10)))"

definition clip_code :: "('f, 't, 'x) tensor_lib \<Rightarrow> ('f list, unit, embed_error, 'f list, embed_error) user_code" where
  "clip_code L = \<lparr>uc_factory = (\<lambda>_ _ _. Returned (Inr ())),
     uc_predict_batch = (\<lambda>p inputs. Returned (clip_predict_batch L inputs, p))\<rparr>"

abbreviation clip_env ::
  "('q, 'f list \<times> 's) mpsc \<Rightarrow> ('j, ('f list, 's) worker_buffer) mpsc \<Rightarrow> 'n notify \<Rightarrow> instant \<Rightarrow> ('f, 't, 'x) tensor_lib
     \<Rightarrow> ('f list, 's, unit, embed_error, 'q, 'j, 'f list, embed_error, 'n) pool_env" where
  "clip_env Q J N imax L \<equiv> batcher_env Q J N imax (clip_code L) clip_config"

abbreviation "clip_inner \<equiv> inner_config_from clip_config"

lemma clip_config_fields [simp]:
  "batch_size clip_config = 32" "pool_size clip_config = 1" "queue_size clip_config = 32"
  "batch_timeout clip_config = from_millis 10" "config_metrics clip_config = None"
  "worker_start_retries clip_config = 3"
  by (simp_all add: clip_config_def build_def builder_def setter_defs DEFAULT_WORKER_START_RETRIES_def)

lemma clip_config_wf: "config_wf clip_config"
  by (simp add: config_wf_def)

text \<open>\<open>embed\<close>, once its call of the batcher has returned.\<close>

abbreviation embed_answer :: "'f clip_ops \<Rightarrow> u8 list list \<Rightarrow> ('f list, embed_error) reply \<Rightarrow> 'f embed_response" where
  "embed_answer F pixels r \<equiv> embed F (Some pixels) (\<lambda>_. r)"

lemma clip_call:
  assumes "i < 1" and "ia_predict_batch (we_args (pe_worker (clip_env Q J N imax L) i)) q ins = Returned (res, q')"
  shows "clip_predict_batch L ins = res"
  using assms by (simp add: batcher_env_worker make_runner_args_def clip_code_def Let_def)

lemma clip_model:
  assumes "mpsc_channel Q qi qc qr qt" and "mpsc_channel J ji jc jr jt" and "notify_signal N permit fut"
    and "clock_in_range imax (AccRecv 0)"
  shows "pool_model (clip_env Q J N imax L) permit fut qi qc qr qt ji jc jr jt clip_inner 32 1"
  using batcher_pool_model [OF assms(1-3) clip_config_wf assms(4), of "clip_code L"] by simp

subsection \<open>A service to run\<close>

text \<open>A library whose tensors forget their data and whose model has one embedding; one image arrives.\<close>

definition unit_tensors :: "(nat, unit, unit) tensor_lib" where
  "unit_tensors = \<lparr>tl_from_vec = (\<lambda>data shape. Inr ()), tl_get = (\<lambda>_ _. 0), tl_image_features = Inr,
     tl_to_vec2 = (\<lambda>_. Inr [[9]]), tl_to_string = (\<lambda>_. [])\<rparr>"

definition one_clip ::
  "(nat list, nat, unit, embed_error, (nat list \<times> nat) fifo, (nat list, nat) worker_buffer fifo, nat list, embed_error, fifo_signal) pool_env" where
  "one_clip = clip_env fifo_mpsc fifo_mpsc fifo_notify (10 ^ 30) unit_tensors"

lemma one_clip_parts:
  "we_requests (pe_worker one_clip 0) = fifo_mpsc" "we_jobs (pe_worker one_clip 0) = fifo_mpsc"
  "we_imax (pe_worker one_clip 0) = 10 ^ 30" "iw_obs (we_worker (pe_worker one_clip 0)) = None"
  "ia_predict_batch (we_args (pe_worker one_clip 0)) = (\<lambda>p ins. Returned (clip_predict_batch unit_tensors ins, p))"
  "ia_factory (we_args (pe_worker one_clip 0)) k j = Returned (Inr ())"
  "ia_retries (we_args (pe_worker one_clip 0)) = 3" "ia_obs (we_args (pe_worker one_clip 0)) = None"
  "pe_signal one_clip = fifo_notify"
  by (simp_all add: one_clip_def batcher_env_worker make_runner_args_def clip_code_def Let_def)

definition clip_run :: "nat list \<Rightarrow> (nat list, nat) pool_move list" where
  "clip_run x =
     [PoolInf 0 (InfStart (\<lambda>_. False) True), PoolServe, PoolArrive x 7 True] @ replicate 7 (PoolCall 0)
     @ [PoolAcc 0 (AccRecv 0), PoolAcc 0 (AccTimer 10000000)] @ replicate 5 (PoolAcc 0 AccRun)
     @ [PoolInf 0 (InfReceive (\<lambda>_. False)), PoolInf 0 (InfPredict DURATION_ZERO), PoolCall 0]"

lemma clip_unit: "clip_predict_batch unit_tensors ins = Inr [[9]]"
  by (simp add: clip_predict_batch_def unit_tensors_def Let_def)

lemma clip_run_answer:
  "map_option ps_callers (run_pool one_clip (clip_run x) (new_pool one_clip \<lparr>ic_timeout = from_millis 10, ic_batch_size = 32\<rparr> 32 1)) =
   Some [\<lparr>ca_input = x, ca_sender = 7, ca_waits = True, ca_pc = CallReturned True (Inr [9])\<rparr>]"
  by (simp add: clip_run_def one_clip_parts pool_run_defs clip_unit
      Let_def duration_simps spawn_predictor_built del: spawn_predictor_def)

subsection \<open>Property\<close>

text \<open>C19: What \<open>/embed\<close> answers. In every reachable state of the pool behind the example service, an image
  whose call has returned got one of three answers. A JSON answer is the row that the model computed,
  in a batch of at most 32 images of which it returned as many rows, at the position of this very
  image. A status of 500 carries the error of a batch with this image in it. And a status of 503 never
  reports a full queue or a timeout; if the request had been queued, it is an internal error or the
  model returned a wrong number of rows for a batch with this image. An image that cannot be decoded is
  refused before the pool sees it.\<close>

theorem embed_answers_explained:
  fixes L :: "('f, 't, 'x) tensor_lib"
    and p :: "('f list, 's, unit, embed_error, 'q, 'j, 'f list, embed_error, 'n) pool_sys"
  assumes "mpsc_channel Q qi qc qr qt" and "mpsc_channel J ji jc jr jt" and "notify_signal N permit fut"
    and "clock_in_range imax (AccRecv 0)" and "pool_reach (clip_env Q J N imax L) clip_inner 32 1 p"
    and "c \<in> set (ps_callers p)" and "ca_waits c" and "ca_input c = preprocess F pixels" and "ca_pc c = CallReturned b r"
  shows "case embed_answer F pixels r of
      JsonEmbedding row \<Rightarrow> \<exists>ins rows k. clip_predict_batch L ins = Inr rows \<and> length ins \<le> 32
        \<and> length rows = length ins \<and> k < length ins \<and> ins ! k = preprocess F pixels \<and> rows ! k = row
    | EmbedFailed e \<Rightarrow> \<exists>ins. clip_predict_batch L ins = Inl e \<and> length ins \<le> 32 \<and> preprocess F pixels \<in> set ins
    | EmbedUnavailable e \<Rightarrow> e \<noteq> QueueFullError \<and> e \<noteq> TimeoutError \<and> (b \<longrightarrow> e = InternalError
        \<or> (\<exists>ins rows. clip_predict_batch L ins = Inr rows \<and> length rows \<noteq> length ins \<and> preprocess F pixels \<in> set ins))
    | BadRequest \<Rightarrow> False"
proof -
  note model = clip_model [OF assms(1-4), of L]
  note inv = pool_model.reach_pool_inv [OF model assms(5)]
  have bs: "unat (ic_batch_size clip_inner) = 32" by (simp add: inner_config_from_def)
  have in_batch: "preprocess F pixels \<in> set (map fst ps)" if "ca_msg c \<in> set ps" for ps :: "('f list \<times> 's) list"
    using that assms(8) by (force simp: ca_msg_def)
  show ?thesis
  proof (cases r)
    case (Inr row)
    from pool_model.returned_output [OF model inv assms(6) assms(9) [unfolded Inr]] clip_call [of _ Q J N imax L]
    show ?thesis
      unfolding bs by (simp add: embed_def Inr assms(8)) blast
  next
    case (Inl e)
    note err = pool_model.returned_error [OF model inv assms(6) assms(9) [unfolded Inl]]
    show ?thesis
    proof (cases e)
      case (InferenceError x)
      with err obtain q q' and ps :: "('f list \<times> 's) list"
        where "ia_predict_batch (we_args (pe_worker (clip_env Q J N imax L) 0)) q (map fst ps) = Returned (Inl x, q')"
          "length ps \<le> 32" "ca_msg c \<in> set ps"
        unfolding bs by auto
      then have "clip_predict_batch L (map fst ps) = Inl x \<and> length (map fst ps) \<le> 32
          \<and> preprocess F pixels \<in> set (map fst ps)"
        using clip_call [of 0 Q J N imax L q "map fst ps"] in_batch by simp
      then have "\<exists>ins. clip_predict_batch L ins = Inl x \<and> length ins \<le> 32 \<and> preprocess F pixels \<in> set ins" ..
      then show ?thesis by (simp add: Inl InferenceError embed_def)
    next
      case InvalidPredictorOutput
      with err obtain q q' outs and ps :: "('f list \<times> 's) list"
        where "ia_predict_batch (we_args (pe_worker (clip_env Q J N imax L) 0)) q (map fst ps) = Returned (Inr outs, q')"
          "length outs \<noteq> length ps" "ca_msg c \<in> set ps"
        unfolding bs by auto
      then have "clip_predict_batch L (map fst ps) = Inr outs \<and> length outs \<noteq> length (map fst ps)
          \<and> preprocess F pixels \<in> set (map fst ps)"
        using clip_call [of 0 Q J N imax L q "map fst ps"] in_batch by simp
      then have "\<exists>ins rows. clip_predict_batch L ins = Inr rows \<and> length rows \<noteq> length ins \<and> preprocess F pixels \<in> set ins"
        by (intro exI)
      then show ?thesis by (simp add: Inl InvalidPredictorOutput embed_def)
    qed (use err Inl assms(7) in \<open>simp_all add: embed_def\<close>)
  qed
qed

theorem embed_answers_explained_witness:
  "\<exists>p c ins rows k. pool_reach one_clip clip_inner 32 1 p \<and> c \<in> set (ps_callers p)
    \<and> embed_answer nat_clip [[1, 2, 3]] (Inr [9]) = JsonEmbedding [9]
    \<and> clip_predict_batch unit_tensors ins = Inr rows \<and> k < length ins
    \<and> ins ! k = preprocess nat_clip [[1, 2, 3]] \<and> rows ! k = [9]"
proof (rule run_pool_cases [OF clip_run_answer [of "preprocess nat_clip [[1, 2, 3]]"]])
  fix p assume p: "pool_reach one_clip \<lparr>ic_timeout = from_millis 10, ic_batch_size = 32\<rparr> 32 1 p"
    "ps_callers p = [\<lparr>ca_input = preprocess nat_clip [[1, 2, 3]], ca_sender = 7, ca_waits = True,
      ca_pc = CallReturned True (Inr [9])\<rparr>]"
  let ?c = "ps_callers p ! 0"
  have c: "?c \<in> set (ps_callers p)" "ca_waits ?c" "ca_input ?c = preprocess nat_clip [[1, 2, 3]]"
    "ca_pc ?c = CallReturned True (Inr [9])"
    using p(2) by simp_all
  have clock: "clock_in_range (10 ^ 30) (AccRecv 0)"
    by (simp add: instant_checked_add_def ONE_YEAR_def duration_simps)
  have reach: "pool_reach (clip_env fifo_mpsc fifo_mpsc fifo_notify (10 ^ 30) unit_tensors) clip_inner 32 1 p"
    using p(1) by (simp add: one_clip_def inner_config_from_def)
  note q = fifo.mpsc_channel_axioms [where ?'a = "nat list \<times> nat"]
    and j = fifo.mpsc_channel_axioms [where ?'a = "(nat list, nat) worker_buffer"]
  from embed_answers_explained [OF q j fifo_sig.notify_signal_axioms clock reach c] reach c(1)
  show ?thesis by (simp add: embed_def one_clip_def) blast
qed

end
