(* ===== verification/Server_Main.thy ===== *)
theory Server_Main
  imports Startup_Properties Clip_Service
begin

text \<open>
  The two programs built on the library, from their first line to their return: the benchmark server
  (\<open>http-bench/src/main.rs\<close>) and the example service (\<open>example/src/main.rs\<close>). Each \<open>main\<close> reads its
  settings or its model, awaits \<open>get_batcher\<close>, binds a listener and serves; the benchmark server then
  waits for the workers to shut down. \<open>main_step\<close> interleaves this with the start-up and the life of
  the pool (\<open>Pool_Startup\<close>) and with the connections of the HTTP server.

  The system calls and axum are parameters: whether the limit on open files can be raised, the listener
  bound, and how \<open>serve\<close> ends are inputs of the steps. As axum documents for a graceful shutdown,
  \<open>serve\<close> ends well only when no handler runs any more; a handler is dropped when its connection goes.
\<close>

subsection \<open>The state of \<open>main\<close>\<close>

datatype 'f main_error =
    InvalidVariable string
  | FileLimitRefused
  | ModelUnavailable string
  | BatcherFailed "'f startup_error"
  | ListenFailed
  | ServeFailed

text \<open>The await \<open>main\<close> is at: \<open>get_batcher\<close>, \<open>TcpListener::bind\<close>, \<open>serve\<close>, \<open>waiter.wait()\<close>.\<close>

datatype 'f main_pc = MainStarting | MainListening | MainServing | MainWaiting | MainReturned "'f main_error + unit"

record ('i, 's, 'p, 'f, 'q, 'j, 'o, 'e, 'n, 'a) main_sys =
  ma_pc :: "'f main_pc"
  ma_boot :: "('i, 's, 'p, 'f, 'q, 'j, 'o, 'e, 'n, 'a) boot_sys"

text \<open>\<open>main\<close> up to its first await, for the benchmark server: the settings, then the limit on open files.\<close>

definition bench_begin ::
  "('a, 'f start_ack) mpsc \<Rightarrow> ('q, 'i \<times> 's) mpsc \<Rightarrow> ('j, ('i, 's) worker_buffer) mpsc \<Rightarrow> 'n notify \<Rightarrow> (nat \<Rightarrow> instant)
     \<Rightarrow> (string \<Rightarrow> string option) \<Rightarrow> bool \<Rightarrow> 'f main_error + ('i, 's, 'p, 'f, 'q, 'j, 'o, 'e, 'n, 'a) main_sys" where
  "bench_begin A Q J N now env limit_raised =
     (case bench_setup env of
        Inl name \<Rightarrow> Inl (InvalidVariable name)
      | Inr s \<Rightarrow>
          (if \<not> limit_raised then Inl FileLimitRefused
           else Inr \<lparr>ma_pc = MainStarting, ma_boot = get_batcher_boot A Q J N now (bs_config s)\<rparr>))"

text \<open>And for the example service: the hub, the weights, the mapped file and the model, each of which may
  fail; the configuration is fixed.\<close>

definition clip_begin ::
  "('a, 'f start_ack) mpsc \<Rightarrow> ('q, 'i \<times> 's) mpsc \<Rightarrow> ('j, ('i, 's) worker_buffer) mpsc \<Rightarrow> 'n notify \<Rightarrow> (nat \<Rightarrow> instant)
     \<Rightarrow> string + 'hub \<Rightarrow> ('hub \<Rightarrow> string + 'w) \<Rightarrow> ('w \<Rightarrow> string + 'v) \<Rightarrow> ('v \<Rightarrow> string + 'm)
     \<Rightarrow> 'f main_error + ('m \<times> ('i, 's, 'p, 'f, 'q, 'j, 'o, 'e, 'n, 'a) main_sys)" where
  "clip_begin A Q J N now api get_weights map_file build_model =
     (case api of Inl e \<Rightarrow> Inl (ModelUnavailable e)
      | Inr hub \<Rightarrow> case get_weights hub of Inl e \<Rightarrow> Inl (ModelUnavailable e)
      | Inr weights \<Rightarrow> case map_file weights of Inl e \<Rightarrow> Inl (ModelUnavailable e)
      | Inr vb \<Rightarrow> case build_model vb of Inl e \<Rightarrow> Inl (ModelUnavailable e)
      | Inr model \<Rightarrow>
          Inr (model, \<lparr>ma_pc = MainStarting, ma_boot = get_batcher_boot A Q J N now clip_config\<rparr>))"

subsection \<open>From await to await\<close>

text \<open>\<open>get_batcher(..).await?\<close>\<close>

fun start_answer :: "'f boot_status \<Rightarrow> 'f main_pc" where
  "start_answer Booted = MainListening"
| "start_answer (BootFailed e) = MainReturned (Inl (BatcherFailed e))"
| "start_answer _ = MainStarting"

text \<open>The application state goes, and with it the last handle.\<close>

definition drop_app ::
  "('i, 's, 'p, 'f, 'q, 'j, 'o, 'e, 'n) pool_env \<Rightarrow> ('i, 's, 'p, 'f, 'q, 'j, 'o, 'e, 'n, 'a) main_sys
     \<Rightarrow> ('i, 's, 'p, 'f, 'q, 'j, 'o, 'e, 'n, 'a) main_sys" where
  "drop_app P m = m\<lparr>ma_boot := (ma_boot m)\<lparr>bo_pool := close_pool P (bo_pool (ma_boot m))\<rparr>\<rparr>"

text \<open>\<open>TcpListener::bind(..).await?\<close>, with \<open>local_addr()?\<close>; on an error the application is dropped.\<close>

definition listen_answer ::
  "('i, 's, 'p, 'f, 'q, 'j, 'o, 'e, 'n) pool_env \<Rightarrow> bool \<Rightarrow> ('i, 's, 'p, 'f, 'q, 'j, 'o, 'e, 'n, 'a) main_sys
     \<Rightarrow> ('i, 's, 'p, 'f, 'q, 'j, 'o, 'e, 'n, 'a) main_sys" where
  "listen_answer P bound m =
     (if bound then m\<lparr>ma_pc := MainServing\<rparr> else (drop_app P m)\<lparr>ma_pc := MainReturned (Inl ListenFailed)\<rparr>)"

text \<open>\<open>axum::serve(listener, app).await?\<close>. \<open>waits\<close> says whether \<open>main\<close> waits for the shutdown after it, as
  the benchmark server does. After an error connections may still hold handles.\<close>

definition serve_answer ::
  "('i, 's, 'p, 'f, 'q, 'j, 'o, 'e, 'n) pool_env \<Rightarrow> bool \<Rightarrow> bool \<Rightarrow> ('i, 's, 'p, 'f, 'q, 'j, 'o, 'e, 'n, 'a) main_sys
     \<Rightarrow> ('i, 's, 'p, 'f, 'q, 'j, 'o, 'e, 'n, 'a) main_sys" where
  "serve_answer P waits served m =
     (if \<not> served then m\<lparr>ma_pc := MainReturned (Inl ServeFailed)\<rparr>
      else (drop_app P m)\<lparr>ma_pc := if waits then MainWaiting else MainReturned (Inr ())\<rparr>)"

text \<open>The steps \<open>main\<close> and the pool make by themselves.\<close>

inductive main_own_step ::
  "('i, 's, 'p, 'f, 'q, 'j, 'o, 'e, 'n) pool_env \<Rightarrow> ('a, 'f start_ack) mpsc \<Rightarrow> u8 \<Rightarrow> (nat \<Rightarrow> bool)
     \<Rightarrow> ('i, 's, 'p, 'f, 'q, 'j, 'o, 'e, 'n, 'a) main_sys \<Rightarrow> ('i, 's, 'p, 'f, 'q, 'j, 'o, 'e, 'n, 'a) main_sys \<Rightarrow> bool"
  for P :: "('i, 's, 'p, 'f, 'q, 'j, 'o, 'e, 'n) pool_env" and A :: "('a, 'f start_ack) mpsc" and sz :: u8
    and closed :: "nat \<Rightarrow> bool" where
  pool_runs: "boot_own_step P A sz (ma_boot m) b' \<Longrightarrow> main_own_step P A sz closed m (m\<lparr>ma_boot := b'\<rparr>)"
| start_ends: "ma_pc m = MainStarting \<Longrightarrow> bo_status (ma_boot m) \<noteq> Booting
    \<Longrightarrow> main_own_step P A sz closed m (m\<lparr>ma_pc := start_answer (bo_status (ma_boot m))\<rparr>)"
| wait_ends: "ma_pc m = MainWaiting
    \<Longrightarrow> wait_shutdown closed [shutdown_senders (ps_workers (bo_pool (ma_boot m)))] = Ready ()
    \<Longrightarrow> main_own_step P A sz closed m (m\<lparr>ma_pc := MainReturned (Inr ())\<rparr>)"

text \<open>And those of the timer, the system and the clients. A handler calls \<open>predict\<close>.\<close>

inductive main_step ::
  "('i, 's, 'p, 'f, 'q, 'j, 'o, 'e, 'n) pool_env \<Rightarrow> ('a, 'f start_ack) mpsc \<Rightarrow> u8 \<Rightarrow> (nat \<Rightarrow> bool) \<Rightarrow> bool
     \<Rightarrow> ('i, 's, 'p, 'f, 'q, 'j, 'o, 'e, 'n, 'a) main_sys \<Rightarrow> ('i, 's, 'p, 'f, 'q, 'j, 'o, 'e, 'n, 'a) main_sys \<Rightarrow> bool"
  for P :: "('i, 's, 'p, 'f, 'q, 'j, 'o, 'e, 'n) pool_env" and A :: "('a, 'f start_ack) mpsc" and sz :: u8
    and closed :: "nat \<Rightarrow> bool" and waits :: bool where
  main_own: "main_own_step P A sz closed m m' \<Longrightarrow> main_step P A sz closed waits m m'"
| start_timer: "ma_pc m = MainStarting \<Longrightarrow> bo_status (ma_boot m) = Booting
    \<Longrightarrow> main_step P A sz closed waits m (m\<lparr>ma_boot := boot_end P A (BootFailed Timeout) (ma_boot m)\<rparr>)"
| listens: "ma_pc m = MainListening \<Longrightarrow> main_step P A sz closed waits m (listen_answer P bound m)"
| requested: "ma_pc m = MainServing \<Longrightarrow> p = bo_pool (ma_boot m) \<Longrightarrow> tx \<notin> ca_sender ` set (ps_callers p)
    \<Longrightarrow> main_step P A sz closed waits m (m\<lparr>ma_boot := (ma_boot m)\<lparr>bo_pool := p\<lparr>ps_callers := ps_callers p
          @ [\<lparr>ca_input = inp, ca_sender = tx, ca_waits = True, ca_pc = CallBegin False\<rparr>]\<rparr>\<rparr>\<rparr>)"
| disconnected: "ma_pc m = MainServing \<Longrightarrow> k < length (ps_callers (bo_pool (ma_boot m)))
    \<Longrightarrow> cancel_call P k (bo_pool (ma_boot m)) = Some p'
    \<Longrightarrow> main_step P A sz closed waits m (m\<lparr>ma_boot := (ma_boot m)\<lparr>bo_pool := p'\<rparr>\<rparr>)"
| serve_ends: "ma_pc m = MainServing \<Longrightarrow> \<forall>c \<in> set (ps_callers (bo_pool (ma_boot m))). call_over (ca_pc c)
    \<Longrightarrow> main_step P A sz closed waits m (serve_answer P waits True m)"
| serve_fails: "ma_pc m = MainServing \<Longrightarrow> main_step P A sz closed waits m (serve_answer P waits False m)"

definition main_start ::
  "('i, 's, 'p, 'f, 'q, 'j, 'o, 'e, 'n) pool_env \<Rightarrow> ('a, 'f start_ack) mpsc \<Rightarrow> inner_config \<Rightarrow> nat \<Rightarrow> u8
     \<Rightarrow> ('i, 's, 'p, 'f, 'q, 'j, 'o, 'e, 'n, 'a) main_sys \<Rightarrow> bool" where
  "main_start P A cfg queue_sz sz m \<longleftrightarrow> ma_pc m = MainStarting \<and> boot_start P A cfg queue_sz sz (ma_boot m)"

abbreviation main_reach ::
  "('i, 's, 'p, 'f, 'q, 'j, 'o, 'e, 'n) pool_env \<Rightarrow> ('a, 'f start_ack) mpsc \<Rightarrow> inner_config \<Rightarrow> nat \<Rightarrow> u8 \<Rightarrow> (nat \<Rightarrow> bool)
     \<Rightarrow> bool \<Rightarrow> ('i, 's, 'p, 'f, 'q, 'j, 'o, 'e, 'n, 'a) main_sys \<Rightarrow> bool" where
  "main_reach P A cfg queue_sz sz closed waits \<equiv> reach (main_start P A cfg queue_sz sz) (main_step P A sz closed waits)"

lemma bench_begin_start:
  assumes "bench_setup env = Inr s" and "bench_begin A Q J N now env limit = Inr m"
  shows "main_start (bench_env Q J N imax F s) A (inner_config_from (bs_config s)) (unat (queue_size (bs_config s)))
    (pool_size (bs_config s)) m"
  using assms get_batcher_boot_start by (auto simp: bench_begin_def main_start_def split: if_splits)

lemma clip_begin_start:
  assumes "clip_begin A Q J N now api get_weights map_file build_model = Inr (model, m)"
  shows "main_start (clip_env Q J N imax L) A clip_inner (unat (queue_size clip_config)) (pool_size clip_config) m"
  using assms get_batcher_boot_start [of Q J N imax "clip_code L" clip_config A now]
  by (auto simp: clip_begin_def main_start_def split: sum.splits)

text \<open>The two programs: the benchmark server waits for its workers, the example service does not.\<close>

definition bench_main_step ::
  "('q, 'f list \<times> 's) mpsc \<Rightarrow> ('j, ('f list, 's) worker_buffer) mpsc \<Rightarrow> 'n notify \<Rightarrow> instant \<Rightarrow> ('a, 'e start_ack) mpsc
     \<Rightarrow> 'f float_ops \<Rightarrow> bench_settings \<Rightarrow> (nat \<Rightarrow> bool)
     \<Rightarrow> ('f list, 's, device, 'e, 'q, 'j, 'f, 'e, 'n, 'a) main_sys \<Rightarrow> ('f list, 's, device, 'e, 'q, 'j, 'f, 'e, 'n, 'a) main_sys \<Rightarrow> bool" where
  "bench_main_step Q J N imax A F s closed = main_step (bench_env Q J N imax F s) A (pool_size (bs_config s)) closed True"

definition clip_main_step ::
  "('q, 'f list \<times> 's) mpsc \<Rightarrow> ('j, ('f list, 's) worker_buffer) mpsc \<Rightarrow> 'n notify \<Rightarrow> instant \<Rightarrow> ('a, embed_error start_ack) mpsc
     \<Rightarrow> ('f, 't, 'x) tensor_lib \<Rightarrow> (nat \<Rightarrow> bool)
     \<Rightarrow> ('f list, 's, unit, embed_error, 'q, 'j, 'f list, embed_error, 'n, 'a) main_sys
     \<Rightarrow> ('f list, 's, unit, embed_error, 'q, 'j, 'f list, embed_error, 'n, 'a) main_sys \<Rightarrow> bool" where
  "clip_main_step Q J N imax A L closed = main_step (clip_env Q J N imax L) A (pool_size clip_config) closed False"

subsection \<open>The invariant\<close>

context boot_model
begin

text \<open>No step of a thread or a call brings an ended thread back.\<close>

lemma released_stays:
  assumes "boot_own_step P A sz b b'" and "\<forall>w \<in> set (ps_workers (bo_pool b)). it_pc (wk_inf w) = InfReleased"
  shows "\<forall>w \<in> set (ps_workers (bo_pool b')). it_pc (wk_inf w) = InfReleased"
  using assms(1)
proof (cases rule: boot_own_step.cases)
  case (builds i p W s d th sh p')
  have "s \<in> set (ps_workers (bo_pool b))" using builds(2-5) by simp
  with assms(2) builds(6) show ?thesis by (simp add: in_startup_def)
next
  case (runs p')
  have "\<forall>th \<in> set (map wk_inf (ps_workers p')). it_pc th = InfReleased"
    using runs(2)
  proof (cases rule: pool_own_step.cases)
    case (acc_acts i W s c ac sh)
    with assms(2) show ?thesis
      by (auto simp: set_worker_def dest!: set_update_subset_insert [THEN subsetD])
  next
    case (inf_acts i W s d th sh)
    have "s \<in> set (ps_workers (bo_pool b))" using inf_acts(2-4) by simp
    then have "it_pc (wk_inf s) = InfReleased" using assms(2) by blast
    with inf_acts(5) show ?thesis
      by (cases "inf_answer (ps_phase (bo_pool b)) (sender_gone (ps_callers (bo_pool b))) d") simp_all
  next
    case (caller_acts k)
    from call_step_threads [OF caller_acts(2)] assms(2) show ?thesis by simp
  qed
  with runs(1) show ?thesis by simp
next
  case (polls r q acked st)
  have "map wk_inf (ps_workers (close_pool P (bo_pool b))) = map wk_inf (ps_workers (bo_pool b))"
    using drop_handles_threads [of "\<lambda>i. we_requests (pe_worker P i)" "ps_workers (bo_pool b)"]
    by (simp add: close_pool_def del: map_map)
  from arg_cong [OF this, of set] assms(2)
  have "\<forall>w \<in> set (ps_workers (close_pool P (bo_pool b))). it_pc (wk_inf w) = InfReleased"
    by (metis (no_types, lifting) image_iff list.set_map)
  with polls(1) assms(2) show ?thesis by (cases st) simp_all
qed

definition closed_well :: "('i, 's, 'p, 'f, 'q, 'j, 'o, 'e, 'n, 'a) boot_sys \<Rightarrow> bool" where
  "closed_well b \<longleftrightarrow> bo_status b = Booted \<and> ps_phase (bo_pool b) = PoolClosed"

definition serving :: "('i, 's, 'p, 'f, 'q, 'j, 'o, 'e, 'n, 'a) boot_sys \<Rightarrow> bool" where
  "serving b \<longleftrightarrow> bo_status b = Booted \<and> ps_phase (bo_pool b) = PoolServing"

fun pc_ok :: "bool \<Rightarrow> 'f main_pc \<Rightarrow> ('i, 's, 'p, 'f, 'q, 'j, 'o, 'e, 'n, 'a) boot_sys \<Rightarrow> bool" where
  "pc_ok waits MainStarting b \<longleftrightarrow> ps_callers (bo_pool b) = []
     \<and> (bo_status b = Booting \<or> serving b \<or> (\<exists>e. bo_status b = BootFailed e))"
| "pc_ok waits MainListening b \<longleftrightarrow> serving b \<and> ps_callers (bo_pool b) = []"
| "pc_ok waits MainServing b \<longleftrightarrow> serving b"
| "pc_ok waits MainWaiting b \<longleftrightarrow> closed_well b"
| "pc_ok waits (MainReturned (Inr u)) b \<longleftrightarrow> closed_well b
     \<and> (waits \<longrightarrow> (\<forall>w \<in> set (ps_workers (bo_pool b)). it_pc (wk_inf w) = InfReleased))"
| "pc_ok waits (MainReturned (Inl (BatcherFailed e))) b \<longleftrightarrow> bo_status b = BootFailed e"
| "pc_ok waits (MainReturned (Inl ListenFailed)) b \<longleftrightarrow> closed_well b"
| "pc_ok waits (MainReturned (Inl ServeFailed)) b \<longleftrightarrow> serving b"
| "pc_ok waits (MainReturned (Inl e)) b \<longleftrightarrow> False"

definition main_inv :: "bool \<Rightarrow> ('i, 's, 'p, 'f, 'q, 'j, 'o, 'e, 'n, 'a) main_sys \<Rightarrow> bool" where
  "main_inv waits m \<longleftrightarrow> boot_inv (ma_boot m) \<and> pc_ok waits (ma_pc m) (ma_boot m)"

text \<open>What a step of the pool leaves alone once \<open>get_batcher\<close> has returned.\<close>

lemma own_step_keeps:
  assumes "boot_own_step P A sz b b'" and "bo_status b \<noteq> Booting"
  shows "bo_status b' = bo_status b" and "ps_phase (bo_pool b') = ps_phase (bo_pool b)"
    and "length (ps_callers (bo_pool b')) = length (ps_callers (bo_pool b))"
  using assms own_step_phase by (cases rule: boot_own_step.cases; force simp: set_worker_def)+

lemma own_step_booting:
  assumes "boot_inv b" and "boot_own_step P A sz b b'" and "bo_status b = Booting" and "ps_callers (bo_pool b) = []"
  shows "ps_callers (bo_pool b') = [] \<and> (bo_status b' = Booting \<or> serving b' \<or> (\<exists>e. bo_status b' = BootFailed e))"
  using assms(2)
proof (cases rule: boot_own_step.cases)
  case (polls r q acked st)
  have "st \<noteq> BootPanicked" "st \<noteq> BootAbandoned"
    using own_step_status [OF assms(1,2)] polls(1) assms(3) by (auto simp: same_outcome_def)
  with polls(1) assms(3,4) show ?thesis by (cases st) (auto simp: serving_def)
qed (use assms(3,4) own_step_phase(2) in \<open>force simp: set_worker_def\<close>)+

lemma pool_runs_pc:
  assumes "boot_inv b" and "boot_own_step P A sz b b'" and "pc_ok waits pc b"
  shows "pc_ok waits pc b'"
proof (cases "bo_status b = Booting")
  case True
  with assms(3) have "pc = MainStarting" "ps_callers (bo_pool b) = []"
    by (cases "(waits, pc, b)" rule: pc_ok.cases; simp add: serving_def closed_well_def)+
  with own_step_booting [OF assms(1,2) True] show ?thesis by auto
next
  case False
  note keeps = own_step_keeps [OF assms(2) False]
  have "serving b' = serving b" "closed_well b' = closed_well b"
    using keeps by (simp_all add: serving_def closed_well_def)
  with keeps assms(3) released_stays [OF assms(2)] show ?thesis
    by (cases "(waits, pc, b)" rule: pc_ok.cases) auto
qed

lemma start_answer_pc:
  assumes "pc_ok waits MainStarting b" and "bo_status b \<noteq> Booting"
  shows "pc_ok waits (start_answer (bo_status b)) b"
  using assms by (auto simp: serving_def)

lemma close_inv:
  assumes "boot_inv b" and "serving b" and "\<forall>c \<in> set (ps_callers (bo_pool b)). call_over (ca_pc c)"
  shows "boot_inv (b\<lparr>bo_pool := close_pool P (bo_pool b)\<rparr>) \<and> closed_well (b\<lparr>bo_pool := close_pool P (bo_pool b)\<rparr>)"
proof -
  have "pool_step P (bo_pool b) (close_pool P (bo_pool b))"
    unfolding close_pool_def using assms(3) by (rule pool_step.closes)
  with used_inv [OF assms(1)] assms(2) show ?thesis
    by (simp add: serving_def closed_well_def)
qed

lemma main_step_inv:
  assumes "watch_law closed" and "main_inv waits m" and "main_step P A sz closed waits m m'"
  shows "main_inv waits m'"
proof -
  have inv: "boot_inv (ma_boot m)" and pc: "pc_ok waits (ma_pc m) (ma_boot m)"
    using assms(2) by (simp_all add: main_inv_def)
  from assms(3) show ?thesis
  proof (cases rule: main_step.cases)
    case main_own
    then show ?thesis
    proof (cases rule: main_own_step.cases)
      case (pool_runs b')
      with boot_step_inv [OF inv boot_own] pool_runs_pc [OF inv _ pc] show ?thesis
        by (simp add: main_inv_def)
    next
      case start_ends
      with start_answer_pc [of waits "ma_boot m"] inv pc show ?thesis by (simp add: main_inv_def)
    next
      case wait_ends
      then have "closed (shutdown_senders (ps_workers (bo_pool (ma_boot m))))"
        by (auto simp: poll_changed_def split: if_splits)
      with assms(1) have "\<forall>w \<in> set (ps_workers (bo_pool (ma_boot m))). it_pc (wk_inf w) = InfReleased"
        by (simp add: watch_law_def shutdown_senders_0)
      with wait_ends inv pc show ?thesis by (simp add: main_inv_def)
    qed
  next
    case start_timer
    have "boot_inv (boot_end P A (BootFailed Timeout) (ma_boot m))"
      by (rule boot_step_inv [OF inv times_out]) (fact start_timer)
    with start_timer inv pc show ?thesis by (simp add: main_inv_def)
  next
    case (listens bound)
    with pc have "serving (ma_boot m)" "ps_callers (bo_pool (ma_boot m)) = []" by simp_all
    with close_inv [OF inv] have "bound \<or> boot_inv (ma_boot (drop_app P m)) \<and> closed_well (ma_boot (drop_app P m))"
      by (simp add: drop_app_def)
    with listens(1) inv \<open>serving (ma_boot m)\<close> show ?thesis
      by (cases bound) (simp_all add: main_inv_def listen_answer_def)
  next
    case (requested p tx inp)
    have "pool_step P p (p\<lparr>ps_callers := ps_callers p
          @ [\<lparr>ca_input = inp, ca_sender = tx, ca_waits = True, ca_pc = CallBegin False\<rparr>]\<rparr>)"
      using requested pc by (intro pool_step.arrives) (simp_all add: serving_def)
    with used_inv [OF inv] requested pc show ?thesis by (simp add: main_inv_def serving_def)
  next
    case (disconnected k p')
    have "ps_phase p' = ps_phase (bo_pool (ma_boot m))"
      using disconnected(4) by (auto simp: cancel_call_def drop_future_def set_call_def split: caller_pc.splits if_splits)
    with used_inv [OF inv _ pool_step.cancelled [OF disconnected(3,4)]] disconnected pc show ?thesis
      by (simp add: main_inv_def serving_def)
  next
    case serve_ends
    with pc close_inv [OF inv] have "boot_inv (ma_boot (drop_app P m)) \<and> closed_well (ma_boot (drop_app P m))"
      by (simp add: drop_app_def)
    with serve_ends(1) show ?thesis
      by (simp add: main_inv_def serve_answer_def)
  next
    case serve_fails
    with inv pc show ?thesis by (simp add: main_inv_def serve_answer_def)
  qed
qed

lemma reached_main:
  assumes "watch_law closed" and "main_reach P A cfg queue_sz sz closed waits m"
  shows "main_inv waits m"
  using assms(2)
proof (induction rule: reach.induct)
  case (reach_start m)
  then have "boot_start P A cfg queue_sz sz (ma_boot m)" "ma_pc m = MainStarting"
    by (simp_all add: main_start_def)
  with boot_start_inv [OF this(1)] show ?case
    by (simp add: main_inv_def boot_start_def pool_start_def)
next
  case (reach_step m m')
  from main_step_inv [OF assms(1) reach_step.IH reach_step.hyps(2)] show ?case .
qed

lemma reached_main_pool:
  assumes "watch_law closed" and "main_reach P A cfg queue_sz sz closed waits m"
  shows "pool_reach P cfg queue_sz n (bo_pool (ma_boot m))"
  using reached_main [OF assms] by (simp add: main_inv_def boot_inv_def)

lemma reached_workers:
  assumes "watch_law closed" and "main_reach P A cfg queue_sz sz closed waits m"
  shows "length (ps_workers (bo_pool (ma_boot m))) = n"
  using reach_pool_inv [OF reached_main_pool [OF assms]] by (simp add: pool_inv_defs)

text \<open>Why \<open>main\<close> returned what it returned.\<close>

lemma reached_return:
  assumes "watch_law closed" and "main_reach P A cfg queue_sz sz closed waits m" and "ma_pc m = MainReturned r"
  shows "case r of
      Inr u \<Rightarrow> (\<forall>c \<in> set (ps_callers (bo_pool (ma_boot m))). call_over (ca_pc c))
        \<and> (waits \<longrightarrow> (\<forall>w \<in> set (ps_workers (bo_pool (ma_boot m))). it_pc (wk_inf w) = InfReleased
            \<and> built_count (sh_log (wk_shared w)) = drop_count (sh_log (wk_shared w))))
    | Inl (BatcherFailed e) \<Rightarrow> ps_callers (bo_pool (ma_boot m)) = [] \<and> (e = Timeout
        \<or> (\<exists>i < n. it_ack (wk_inf (ps_workers (bo_pool (ma_boot m)) ! i)) = Some (Inl e)
              \<and> ack_ok (we_args (pe_worker P i)) (it_trace (wk_inf (ps_workers (bo_pool (ma_boot m)) ! i))) (Inl e)))
    | Inl ListenFailed \<Rightarrow> ps_phase (bo_pool (ma_boot m)) = PoolClosed
    | Inl ServeFailed \<Rightarrow> True
    | Inl _ \<Rightarrow> False"
proof -
  let ?b = "ma_boot m"
  have inv: "boot_inv ?b" and pc: "pc_ok waits (MainReturned r) ?b"
    using reached_main [OF assms(1,2)] assms(3) by (simp_all add: main_inv_def)
  have pinv: "pool_inv (bo_pool ?b)" using inv by (simp add: boot_inv_def reach_pool_inv)
  show ?thesis
  proof (cases r)
    case (Inl e)
    show ?thesis
    proof (cases e)
      case (BatcherFailed err)
      with pc Inl inv have st: "bo_status ?b = BootFailed err" "ps_callers (bo_pool ?b) = []"
        by (simp_all add: boot_inv_def status_ok_def boot_closed_def)
      with boot_outcome [OF inv] Inl BatcherFailed show ?thesis by simp
    qed (use pc Inl in \<open>simp_all add: closed_well_def\<close>)
  next
    case (Inr u)
    have "built_count (sh_log (wk_shared w)) = drop_count (sh_log (wk_shared w))"
      if mem: "w \<in> set (ps_workers (bo_pool ?b))" and rel: "it_pc (wk_inf w) = InfReleased" for w
    proof -
      from mem pinv obtain i where "i < n" "w = ps_workers (bo_pool ?b) ! i"
        by (auto simp: in_set_conv_nth pool_inv_defs)
      with worker_model.reached_predictors [OF workers reached_worker [OF pinv]] rel show ?thesis by simp
    qed
    moreover have "\<forall>c \<in> set (ps_callers (bo_pool ?b)). call_over (ca_pc c)"
      using pc Inr pinv by (simp add: closed_well_def pool_inv_defs)
    ultimately show ?thesis using pc Inr by simp
  qed
qed

subsection \<open>How long \<open>main\<close> waits\<close>

definition main_measure :: "('i, 's, 'p, 'f, 'q, 'j, 'o, 'e, 'n, 'a) main_sys \<Rightarrow> nat" where
  "main_measure m = boot_measure (ma_boot m) + (if ma_pc m = MainStarting \<or> ma_pc m = MainWaiting then 1 else 0)"

definition pc_next :: "'f main_pc \<Rightarrow> 'f main_pc \<Rightarrow> bool" where
  "pc_next pc pc' \<longleftrightarrow> pc' = pc
     \<or> pc = MainStarting \<and> (pc' = MainListening \<or> (\<exists>e. pc' = MainReturned (Inl (BatcherFailed e))))
     \<or> pc = MainWaiting \<and> pc' = MainReturned (Inr ())"

lemma start_answer_next:
  assumes "main_inv waits m" and "ma_pc m = MainStarting" and "bo_status (ma_boot m) \<noteq> Booting"
  shows "start_answer (bo_status (ma_boot m)) = MainListening
    \<or> (\<exists>e. start_answer (bo_status (ma_boot m)) = MainReturned (Inl (BatcherFailed e)))"
  using assms by (auto simp: main_inv_def serving_def)

lemma main_own_step_progress:
  assumes "main_inv waits m" and "main_own_step P A sz closed m m'"
  shows "main_measure m' < main_measure m" and "pc_next (ma_pc m) (ma_pc m')"
proof -
  have inv: "boot_inv (ma_boot m)" using assms(1) by (simp add: main_inv_def)
  have "main_measure m' < main_measure m \<and> pc_next (ma_pc m) (ma_pc m')"
    using assms(2)
  proof (cases rule: main_own_step.cases)
    case (pool_runs b')
    with own_step_boot_measure [OF inv] show ?thesis by (simp add: main_measure_def pc_next_def)
  next
    case start_ends
    with start_answer_next [OF assms(1)] show ?thesis by (auto simp: main_measure_def pc_next_def)
  next
    case wait_ends
    then show ?thesis by (simp add: main_measure_def pc_next_def)
  qed
  then show "main_measure m' < main_measure m" and "pc_next (ma_pc m) (ma_pc m')" by simp_all
qed

lemma main_own_steps:
  assumes "watch_law closed" and "main_inv waits m"
  shows "(main_own_step P A sz closed ^^ k) m c \<Longrightarrow>
    main_inv waits c \<and> main_measure c + k \<le> main_measure m \<and> pc_next (ma_pc m) (ma_pc c)"
proof (induction k arbitrary: c)
  case 0
  with assms(2) show ?case by (simp add: pc_next_def)
next
  case (Suc k)
  then obtain u where u: "(main_own_step P A sz closed ^^ k) m u" "main_own_step P A sz closed u c" by auto
  with Suc.IH have IH: "main_inv waits u" "main_measure u + k \<le> main_measure m" "pc_next (ma_pc m) (ma_pc u)"
    by simp_all
  from main_own_step_progress [OF IH(1) u(2)] IH main_step_inv [OF assms(1) IH(1) main_own [OF u(2)]] show ?case
    by (auto simp: pc_next_def)
qed

lemma main_stuck:
  assumes "watch_law closed" and "main_inv waits m" and "\<And>m'. \<not> main_own_step P A sz closed m m'"
  shows "ma_pc m \<noteq> MainStarting \<and> ma_pc m \<noteq> MainWaiting"
proof -
  let ?b = "ma_boot m"
  have inv: "boot_inv ?b" using assms(2) by (simp add: main_inv_def)
  have stuck: "\<not> boot_own_step P A sz ?b b'" for b'
    using assms(3) main_own_step.pool_runs by blast
  have "ma_pc m \<noteq> MainStarting"
    using boot_stuck(1) [OF inv stuck] assms(3) main_own_step.start_ends by blast
  moreover have "ma_pc m \<noteq> MainWaiting"
  proof
    assume wait: "ma_pc m = MainWaiting"
    have pinv: "pool_inv (bo_pool ?b)" using inv by (simp add: boot_inv_def reach_pool_inv)
    have "ps_phase (bo_pool ?b) = PoolClosed"
      using assms(2) wait by (simp add: main_inv_def closed_well_def)
    note ended = stuck_closed [OF pinv boot_stuck(2) [OF inv stuck] this]
    have "it_pc (wk_inf w) = InfReleased" if "w \<in> set (ps_workers (bo_pool ?b))" for w
      using that ended pinv by (auto simp: in_set_conv_nth pool_inv_defs)
    then have "shutdown_senders (ps_workers (bo_pool ?b)) = 0" by (simp add: shutdown_senders_0)
    with assms(1) have "wait_shutdown closed [shutdown_senders (ps_workers (bo_pool ?b))] = Ready ()"
      by (simp add: watch_law_def poll_changed_def)
    from main_own_step.wait_ends [OF wait this] assms(3) show False by blast
  qed
  ultimately show ?thesis ..
qed

lemma main_rests:
  assumes "watch_law closed"
  shows "main_inv waits m \<Longrightarrow> \<exists>j r. (main_own_step P A sz closed ^^ j) m r \<and> (\<forall>r'. \<not> main_own_step P A sz closed r r')"
proof (induction "main_measure m" arbitrary: m rule: less_induct)
  case less
  show ?case
  proof (cases "\<exists>m'. main_own_step P A sz closed m m'")
    case True
    then obtain m' where m': "main_own_step P A sz closed m m'" by blast
    have "main_inv waits m'" by (rule main_step_inv [OF assms less.prems main_own [OF m']])
    with less.hyps main_own_step_progress(1) [OF less.prems m'] obtain j r
      where "(main_own_step P A sz closed ^^ j) m' r" "\<forall>r'. \<not> main_own_step P A sz closed r r'" by blast
    with m' show ?thesis by (metis relpowp_Suc_I2)
  next
    case False
    then have "(main_own_step P A sz closed ^^ 0) m m \<and> (\<forall>r'. \<not> main_own_step P A sz closed m r')" by simp
    then show ?thesis by blast
  qed
qed

lemma reached_main_ends:
  assumes "watch_law closed" and "main_reach P A cfg queue_sz sz closed waits m"
    and "(main_own_step P A sz closed ^^ k) m c"
  shows "\<exists>j r. k + j \<le> pool_budget n queue_sz (length (ps_callers (bo_pool (ma_boot m)))) + n + 1
    \<and> (main_own_step P A sz closed ^^ j) c r
    \<and> (ma_pc m = MainStarting \<longrightarrow> ma_pc r = MainListening \<or> (\<exists>e. ma_pc r = MainReturned (Inl (BatcherFailed e))))
    \<and> (ma_pc m = MainWaiting \<longrightarrow> ma_pc r = MainReturned (Inr ()))"
proof -
  have inv: "main_inv waits m" by (rule reached_main [OF assms(1,2)])
  note c = main_own_steps [OF assms(1) inv assms(3)]
  with main_rests [OF assms(1)] obtain j r
    where r: "(main_own_step P A sz closed ^^ j) c r" "\<forall>r'. \<not> main_own_step P A sz closed r r'" by blast
  have kj: "(main_own_step P A sz closed ^^ (k + j)) m r"
    using assms(3) r(1) by (auto simp: relpowp_add)
  note fin = main_own_steps [OF assms(1) inv kj]
  have "main_measure m \<le> pool_budget n queue_sz (length (ps_callers (bo_pool (ma_boot m)))) + n + 1"
    using boot_measure_le [of "ma_boot m"] inv by (auto simp: main_measure_def main_inv_def split: if_splits)
  with fin have "k + j \<le> pool_budget n queue_sz (length (ps_callers (bo_pool (ma_boot m)))) + n + 1" by linarith
  moreover have "ma_pc r \<noteq> MainStarting \<and> ma_pc r \<noteq> MainWaiting"
    by (rule main_stuck [OF assms(1)]) (use fin r(2) in blast)+
  ultimately show ?thesis
    using r(1) fin by (intro exI [of _ j] exI [of _ r]) (auto simp: pc_next_def)
qed

end

subsection \<open>The pools of the two programs\<close>

lemma bench_boot_model:
  fixes F :: "'f float_ops" and A :: "('a, 'e start_ack) mpsc"
  assumes "mpsc_channel Q qi qc qr qt" and "mpsc_channel J ji jc jr jt" and "notify_signal N permit fut"
    and "mpsc_channel A ai ac ar at" and "clock_in_range imax (AccRecv 0)" and "bench_setup env = Inr s"
  shows "boot_model (bench_env Q J N imax F s :: ('f list, 's, device, 'e, 'q, 'j, 'f, 'e, 'n) pool_env) permit fut
    qi qc qr qt ji jc jr jt (inner_config_from (bs_config s)) (unat (queue_size (bs_config s)))
    (unat (pool_size (bs_config s))) A ai ac ar at (pool_size (bs_config s))"
  by (rule boot_modelI [OF batcher_pool_model [OF assms(1-3) bench_setup_wf(1) [OF assms(6)] assms(5)] assms(4) refl])

text \<open>So what is proved of the endpoints in \<open>Http_Bench\<close> and \<open>Clip_Service\<close> holds in every run of the programs.\<close>

lemma bench_main_pool:
  assumes "mpsc_channel Q qi qc qr qt" and "mpsc_channel J ji jc jr jt" and "notify_signal N permit fut"
    and "mpsc_channel A ai ac ar at" and "clock_in_range imax (AccRecv 0)" and "watch_law closed"
    and "bench_setup env = Inr s" and "bench_begin A Q J N now env limit = Inr m0"
    and "reach (\<lambda>x. x = m0) (bench_main_step Q J N imax A F s closed) m"
  shows "bench_reach Q J N imax F s (bo_pool (ma_boot m))"
proof -
  note model = bench_boot_model [OF assms(1-5,7), of F]
  have "main_reach (bench_env Q J N imax F s) A (inner_config_from (bs_config s)) (unat (queue_size (bs_config s)))
      (pool_size (bs_config s)) closed True m"
    by (rule reach_from [OF _ assms(9) [unfolded bench_main_step_def]]) (rule bench_begin_start [OF assms(7,8)])
  from boot_model.reached_main_pool [OF model assms(6) this] show ?thesis .
qed

lemma clip_main_pool:
  assumes "mpsc_channel Q qi qc qr qt" and "mpsc_channel J ji jc jr jt" and "notify_signal N permit fut"
    and "mpsc_channel A ai ac ar at" and "clock_in_range imax (AccRecv 0)" and "watch_law closed"
    and "clip_begin A Q J N now api get_weights map_file build_model = Inr (model, m0)"
    and "reach (\<lambda>x. x = m0) (clip_main_step Q J N imax A L closed) m"
  shows "pool_reach (clip_env Q J N imax L) clip_inner 32 1 (bo_pool (ma_boot m))"
proof -
  have one: "unat (pool_size clip_config) = 1" by simp
  note model = boot_modelI [OF clip_model [OF assms(1-3,5), of L] assms(4) one]
  have "main_start (clip_env Q J N imax L) A clip_inner 32 (pool_size clip_config) m0"
    using clip_begin_start [OF assms(7), of imax L] by simp
  then have "main_reach (clip_env Q J N imax L) A clip_inner 32 (pool_size clip_config) closed False m"
    by (rule reach_from) (fact assms(8) [unfolded clip_main_step_def])
  from boot_model.reached_main_pool [OF model assms(6) this] show ?thesis .
qed

subsection \<open>A server to run\<close>

text \<open>While \<open>get_batcher\<close> runs, the moves of a start-up are steps of \<open>main\<close>.\<close>

lemma run_boot_main:
  assumes "run_boot P A sz ms b = Some b'" and "reach start (main_step P A sz closed waits) \<lparr>ma_pc = MainStarting, ma_boot = b\<rparr>"
  shows "reach start (main_step P A sz closed waits) \<lparr>ma_pc = MainStarting, ma_boot = b'\<rparr>"
  using assms
proof (induction ms arbitrary: b)
  case (Cons m ms)
  then obtain u where u: "do_boot_move P A sz m b = Some u" "run_boot P A sz ms u = Some b'"
    by (auto split: option.splits)
  let ?m = "\<lparr>ma_pc = MainStarting, ma_boot = b\<rparr>"
  have "main_step P A sz closed waits ?m (?m\<lparr>ma_boot := u\<rparr>)"
  proof (cases m)
    case BootTimer
    with u(1) main_step.start_timer [of ?m P A sz closed waits] show ?thesis by (simp split: if_splits)
  next
    case (BootBuild i d)
    with u(1) have "boot_own_step P A sz b u"
      by (auto simp: Let_def list_all_iff split: option.splits prod.splits if_splits
          intro: boot_own_step.builds [OF _ refl refl refl _ _ refl])
    then show ?thesis by (intro main_step.main_own main_own_step.pool_runs) simp
  next
    case BootPoll
    with u(1) have "boot_own_step P A sz b u"
      by (auto simp del: boot_end.simps split: prod.splits if_splits intro: boot_own_step.polls)
    then show ?thesis by (intro main_step.main_own main_own_step.pool_runs) simp
  qed
  from Cons.IH [OF u(2)] reach_step [OF Cons.prems(2) this] show ?case by simp
qed simp

text \<open>The benchmark server with batches of two; its only worker starts, and nobody calls.\<close>

definition two_boot ::
  "(nat list, nat, device, unit, (nat list \<times> nat) fifo, (nat list, nat) worker_buffer fifo, nat, unit, fifo_signal, unit start_ack fifo) boot_sys" where
  "two_boot = get_batcher_boot fifo_mpsc fifo_mpsc fifo_mpsc fifo_notify (\<lambda>_. 0) (bs_config two_setup)"

definition two_main ::
  "(nat list, nat, device, unit, (nat list \<times> nat) fifo, (nat list, nat) worker_buffer fifo, nat, unit, fifo_signal, unit start_ack fifo) main_sys" where
  "two_main = \<lparr>ma_pc = MainStarting, ma_boot = two_boot\<rparr>"

lemma two_main_begin:
  "bench_begin fifo_mpsc fifo_mpsc fifo_mpsc fifo_notify (\<lambda>_. 0) two_env True = Inr two_main"
  by (simp add: bench_begin_def two_env_setup two_main_def two_boot_def)

lemma two_sizes [simp]:
  "pool_size (bs_config two_setup) = 1" "unat (queue_size (bs_config two_setup)) = 4"
  using two_setup_fields(2) by (simp_all add: two_setup_def)

lemma two_boot_run:
  "map_option (\<lambda>b. (bo_status b, ps_callers (bo_pool b)))
     (run_boot two_bench fifo_mpsc 1 [BootBuild 0 (InfStart (\<lambda>_. False) True), BootPoll] two_boot) = Some (Booted, [])"
  by (simp add: two_boot_def get_batcher_boot_def batcher_start_workers batcher_start_def start_workers_eq
      new_worker_pool_def run_worker_def two_bench_parts in_startup_def new_inf_thread_def inf_start_def
      spawn_predictor_built u8_saturating_add_def send_ack_def set_worker_def fifo_mpsc_ops list_steps Let_def
      del: spawn_predictor_def)

lemma two_boot_model:
  "boot_model two_bench fs_permit (\<lambda>n. map_of (fs_futures n)) ff_items ff_cap ff_rx ff_tx ff_items ff_cap ff_rx ff_tx
     (inner_config_from (bs_config two_setup)) 4 1
     (fifo_mpsc :: (unit start_ack fifo, unit start_ack) mpsc) ff_items ff_cap ff_rx ff_tx 1"
proof (rule boot_modelI [OF _ fifo.mpsc_channel_axioms])
  have clock: "clock_in_range (10 ^ 30) (AccRecv 0)"
    by (simp add: instant_checked_add_def ONE_YEAR_def duration_simps)
  note q = fifo.mpsc_channel_axioms [where ?'a = "nat list \<times> nat"]
    and j = fifo.mpsc_channel_axioms [where ?'a = "(nat list, nat) worker_buffer"]
  from batcher_pool_model [OF q j fifo_sig.notify_signal_axioms bench_setup_wf(1) [OF two_env_setup] clock]
  show "pool_model two_bench fs_permit (\<lambda>n. map_of (fs_futures n)) ff_items ff_cap ff_rx ff_tx ff_items ff_cap ff_rx ff_tx
      (inner_config_from (bs_config two_setup)) 4 1"
    unfolding two_bench_def by simp
qed simp

lemma two_watch: "watch_law (\<lambda>k. k = 0)"
  by (simp add: watch_law_def)

text \<open>It is interrupted at once, and waits for its worker.\<close>

lemma two_main_waits:
  obtains m where "reach (\<lambda>m. m = two_main) (main_step two_bench fifo_mpsc 1 (\<lambda>k. k = 0) True) m"
    "ma_pc m = MainWaiting" "ps_callers (bo_pool (ma_boot m)) = []"
proof -
  let ?step = "main_step two_bench fifo_mpsc 1 (\<lambda>k. k = 0) True"
  obtain b where b: "run_boot two_bench fifo_mpsc 1 [BootBuild 0 (InfStart (\<lambda>_. False) True), BootPoll] two_boot = Some b"
      "bo_status b = Booted" "ps_callers (bo_pool b) = []"
    using two_boot_run by auto
  have "reach (\<lambda>m. m = two_main) ?step \<lparr>ma_pc = MainStarting, ma_boot = two_boot\<rparr>"
    by (rule reach_start) (simp add: two_main_def)
  from run_boot_main [OF b(1) this] have m0: "reach (\<lambda>m. m = two_main) ?step \<lparr>ma_pc = MainStarting, ma_boot = b\<rparr>" .
  have "?step \<lparr>ma_pc = MainStarting, ma_boot = b\<rparr> \<lparr>ma_pc = MainListening, ma_boot = b\<rparr>"
    using main_step.main_own [OF main_own_step.start_ends, of "\<lparr>ma_pc = MainStarting, ma_boot = b\<rparr>"] b(2) by simp
  note m1 = reach_step [OF m0 this]
  have "?step \<lparr>ma_pc = MainListening, ma_boot = b\<rparr> \<lparr>ma_pc = MainServing, ma_boot = b\<rparr>"
    using main_step.listens [of "\<lparr>ma_pc = MainListening, ma_boot = b\<rparr>" two_bench fifo_mpsc 1 "\<lambda>k. k = 0" True True]
    by (simp add: listen_answer_def)
  note m2 = reach_step [OF m1 this]
  have "?step \<lparr>ma_pc = MainServing, ma_boot = b\<rparr> (serve_answer two_bench True True \<lparr>ma_pc = MainServing, ma_boot = b\<rparr>)"
    by (rule main_step.serve_ends) (simp_all add: b(3))
  note m3 = reach_step [OF m2 this]
  show thesis
    by (rule that [OF m3]) (simp_all add: serve_answer_def drop_app_def close_pool_def b(3))
qed

lemma two_main_reach:
  "reach (\<lambda>m. m = two_main) (main_step two_bench fifo_mpsc 1 (\<lambda>k. k = 0) True) m
    \<Longrightarrow> main_reach two_bench fifo_mpsc (inner_config_from (bs_config two_setup)) 4 1 (\<lambda>k. k = 0) True m"
proof (rule reach_from)
  show "main_start two_bench fifo_mpsc (inner_config_from (bs_config two_setup)) 4 1 two_main"
    using bench_begin_start [OF two_env_setup two_main_begin, of "10 ^ 30" nat_ops]
    unfolding two_bench_def by simp
qed

text \<open>Its worker ends, and it returns.\<close>

lemma own_steps_reach:
  "(main_own_step P A sz closed ^^ k) m r \<Longrightarrow> reach start (main_step P A sz closed waits) m
    \<Longrightarrow> reach start (main_step P A sz closed waits) r"
proof (induction k arbitrary: r)
  case (Suc k)
  then obtain u where "(main_own_step P A sz closed ^^ k) m u" "main_own_step P A sz closed u r" by auto
  with Suc show ?case by (blast intro: reach_step main_step.main_own)
qed simp

lemma two_main_returns:
  obtains m where "reach (\<lambda>m. m = two_main) (main_step two_bench fifo_mpsc 1 (\<lambda>k. k = 0) True) m"
    "ma_pc m = MainReturned (Inr ())"
proof (rule two_main_waits)
  fix m assume m: "reach (\<lambda>m. m = two_main) (main_step two_bench fifo_mpsc 1 (\<lambda>k. k = 0) True) m" "ma_pc m = MainWaiting"
  have "(main_own_step two_bench fifo_mpsc 1 (\<lambda>k. k = 0) ^^ 0) m m" by simp
  from boot_model.reached_main_ends [OF two_boot_model two_watch two_main_reach [OF m(1)] this] m(2)
  obtain j r where r: "(main_own_step two_bench fifo_mpsc 1 (\<lambda>k. k = 0) ^^ j) m r" "ma_pc r = MainReturned (Inr ())"
    by blast
  show thesis by (rule that [OF own_steps_reach [OF r(1) m(1)] r(2)])
qed

subsection \<open>Properties\<close>

text \<open>A whole run of the benchmark server, from the process environment to what its \<open>main\<close> returns, with the
  state it returns in if it got as far as \<open>get_batcher\<close>.\<close>

inductive bench_main ::
  "('a, 'e start_ack) mpsc \<Rightarrow> ('q, 'f list \<times> 's) mpsc \<Rightarrow> ('j, ('f list, 's) worker_buffer) mpsc \<Rightarrow> 'n notify
     \<Rightarrow> (nat \<Rightarrow> instant) \<Rightarrow> instant \<Rightarrow> 'f float_ops \<Rightarrow> (nat \<Rightarrow> bool) \<Rightarrow> (string \<Rightarrow> string option) \<Rightarrow> bool
     \<Rightarrow> 'e main_error + unit \<Rightarrow> ('f list, 's, device, 'e, 'q, 'j, 'f, 'e, 'n, 'a) main_sys option \<Rightarrow> bool"
  for A :: "('a, 'e start_ack) mpsc" and Q :: "('q, 'f list \<times> 's) mpsc" and J :: "('j, ('f list, 's) worker_buffer) mpsc"
    and N :: "'n notify" and now :: "nat \<Rightarrow> instant" and imax :: instant and F :: "'f float_ops" and closed :: "nat \<Rightarrow> bool"
    and env :: "string \<Rightarrow> string option" and limit_raised :: bool where
  returns_early: "(bench_begin A Q J N now env limit_raised
      :: _ + ('f list, 's, device, 'e, 'q, 'j, 'f, 'e, 'n, 'a) main_sys) = Inl err
    \<Longrightarrow> bench_main A Q J N now imax F closed env limit_raised (Inl err) None"
| returns: "bench_begin A Q J N now env limit_raised = Inr m0 \<Longrightarrow> bench_setup env = Inr s
    \<Longrightarrow> reach (\<lambda>x. x = m0) (bench_main_step Q J N imax A F s closed) m \<Longrightarrow> ma_pc m = MainReturned r
    \<Longrightarrow> bench_main A Q J N now imax F closed env limit_raised r (Some m)"

text \<open>What the worker threads are when the server has shut down, and what a thread is that was not spawned.\<close>

definition all_released :: "('i, 's, 'p, 'f, 'q, 'j, 'o, 'e, 'n) pool_sys \<Rightarrow> bool" where
  "all_released p \<longleftrightarrow> (\<forall>w \<in> set (ps_workers p). it_pc (wk_inf w) = InfReleased
     \<and> built_count (sh_log (wk_shared w)) = drop_count (sh_log (wk_shared w)))"

definition some_never_ran :: "('i, 's, 'p, 'f, 'q, 'j, 'o, 'e, 'n) pool_sys \<Rightarrow> bool" where
  "some_never_ran p \<longleftrightarrow> (\<exists>w \<in> set (ps_workers p). it_ack (wk_inf w) = Some (Inl StartupInternalError)
     \<and> never_ran (it_trace (wk_inf w)))"

text \<open>C17: The benchmark server returns for a reason. In every run of its \<open>main\<close>, for every process environment
  and whatever the system, the clients and the schedule do: it returns \<open>Ok\<close> only with valid settings and a
  raised file limit, and when every request has been answered or given up by its client, every worker's
  thread has ended, and every predictor has been dropped. It returns before \<open>get_batcher\<close> exactly with an
  invalid variable or a refused file limit, and then a variable is set to a text that is not a number of its
  type, or the settings are valid. After that it returns an error only if the listener could not be
  bound, and then the pool is closed; or the server failed; or the batcher did not start, before any request
  was taken, because the start-up timed out or a worker's thread was not spawned, never because of the
  factory.\<close>

theorem bench_main_returns_for_reason:
  fixes m :: "('f list, 's, device, 'e, 'q, 'j, 'f, 'e, 'n, 'a) main_sys option"
  assumes "mpsc_channel Q qi qc qr qt" and "mpsc_channel J ji jc jr jt" and "notify_signal N permit fut"
    and "mpsc_channel A ai ac ar at" and "watch_law closed" and "clock_in_range imax (AccRecv 0)"
    and "bench_main A Q J N now imax F closed env limit_raised r m"
  shows "case r of
      Inr u \<Rightarrow> limit_raised \<and> \<not> isl (bench_setup env)
        \<and> (\<exists>t. m = Some t \<and> (\<forall>c \<in> set (ps_callers (bo_pool (ma_boot t))). call_over (ca_pc c))
             \<and> all_released (bo_pool (ma_boot t)))
    | Inl (InvalidVariable name) \<Rightarrow> m = None \<and> bench_setup env = Inl name
        \<and> (\<exists>v. env name = Some v \<and> bench_rejects name v)
    | Inl FileLimitRefused \<Rightarrow> m = None \<and> \<not> limit_raised \<and> \<not> isl (bench_setup env)
    | Inl (BatcherFailed e) \<Rightarrow> \<exists>t. m = Some t \<and> ps_callers (bo_pool (ma_boot t)) = []
        \<and> (e = Timeout \<or> e = StartupInternalError \<and> some_never_ran (bo_pool (ma_boot t)))
    | Inl ListenFailed \<Rightarrow> \<exists>t. m = Some t \<and> ps_phase (bo_pool (ma_boot t)) = PoolClosed
    | Inl ServeFailed \<Rightarrow> m \<noteq> None
    | Inl (ModelUnavailable e) \<Rightarrow> False"
  using assms(7)
proof (cases rule: bench_main.cases)
  case (returns_early err)
  then show ?thesis
    using bench_setup_rejects [of env] by (auto simp: bench_begin_def split: sum.splits if_splits)
next
  case (returns m0 s t)
  let ?P = "bench_env Q J N imax F s :: ('f list, 's, device, 'e, 'q, 'j, 'f, 'e, 'n) pool_env"
  let ?sz = "pool_size (bs_config s)"
  note model = bench_boot_model [OF assms(1-4,6) returns(3), of F]
  have reach: "main_reach ?P A (inner_config_from (bs_config s)) (unat (queue_size (bs_config s))) ?sz closed True t"
    by (rule reach_from [OF _ returns(4) [unfolded bench_main_step_def]]) (rule bench_begin_start [OF returns(3,2)])
  note ret = boot_model.reached_return [OF model assms(5) reach returns(5)]
  have len: "length (ps_workers (bo_pool (ma_boot t))) = unat ?sz"
    by (rule boot_model.reached_workers [OF model assms(5) reach])
  have limit: "limit_raised" "\<not> isl (bench_setup env)"
    using returns(2,3) by (auto simp: bench_begin_def split: if_splits)
  have spawn: "e = Timeout \<or> e = StartupInternalError \<and> some_never_ran (bo_pool (ma_boot t))"
    if "r = Inl (BatcherFailed e)" for e
    using ret that len
    by (cases e) (auto simp: some_never_ran_def batcher_env_worker make_runner_args_def bench_code_def Let_def)
  show ?thesis
    using ret limit spawn returns(1) by (cases r) (auto simp: all_released_def split: main_error.splits)
qed

theorem bench_main_returns_for_reason_witness:
  "\<exists>m. bench_main fifo_mpsc fifo_mpsc fifo_mpsc fifo_notify (\<lambda>_. 0) (10 ^ 30) nat_ops (\<lambda>k. k = 0) two_env True (Inr ()) (Some m)
    \<and> all_released (bo_pool (ma_boot (m :: (nat list, nat, device, unit, _, _, nat, unit, _, unit start_ack fifo) main_sys)))"
proof (rule two_main_returns)
  fix m assume m: "reach (\<lambda>x. x = two_main) (main_step two_bench fifo_mpsc 1 (\<lambda>k. k = 0) True) m"
    "ma_pc m = MainReturned (Inr ())"
  have clock: "clock_in_range (10 ^ 30) (AccRecv 0)"
    by (simp add: instant_checked_add_def ONE_YEAR_def duration_simps)
  note q = fifo.mpsc_channel_axioms [where ?'a = "nat list \<times> nat"]
    and j = fifo.mpsc_channel_axioms [where ?'a = "(nat list, nat) worker_buffer"]
    and a = fifo.mpsc_channel_axioms [where ?'a = "unit start_ack"]
  have "reach (\<lambda>x. x = two_main)
      (bench_main_step fifo_mpsc fifo_mpsc fifo_notify (10 ^ 30) fifo_mpsc nat_ops two_setup (\<lambda>k. k = 0)) m"
    using m(1) by (simp add: bench_main_step_def two_bench_def)
  note run = bench_main.returns [OF two_main_begin two_env_setup this m(2)]
  from bench_main_returns_for_reason [OF q j fifo_sig.notify_signal_axioms a two_watch clock run] run
  show ?thesis by auto
qed

text \<open>C18: \<open>main\<close> does not hang on the library. Wherever a program is in its run, and however far its threads
  have got since: if it awaits \<open>get_batcher\<close>, its threads go on until it listens or has returned the
  error, and if it waits for the shutdown, they go on until it has returned \<open>Ok\<close>, within the budget of
  the pool and one step for each worker and for \<open>main\<close>. Neither needs a timer, a client or the system.\<close>

theorem main_never_hangs:
  assumes "pool_model P permit fut qi qc qr qt ji jc jr jt cfg queue_sz n" and "mpsc_channel A ai ac ar at" and "unat sz = n"
    and "watch_law closed" and "main_reach P A cfg queue_sz sz closed waits m"
    and "(main_own_step P A sz closed ^^ k) m c"
  shows "\<exists>j r. k + j \<le> pool_budget n queue_sz (length (ps_callers (bo_pool (ma_boot m)))) + n + 1
    \<and> (main_own_step P A sz closed ^^ j) c r
    \<and> (ma_pc m = MainStarting \<longrightarrow> ma_pc r = MainListening \<or> (\<exists>e. ma_pc r = MainReturned (Inl (BatcherFailed e))))
    \<and> (ma_pc m = MainWaiting \<longrightarrow> ma_pc r = MainReturned (Inr ()))"
  by (rule boot_model.reached_main_ends [OF boot_modelI [OF assms(1-3)] assms(4-6)])

theorem main_never_hangs_witness:
  "\<exists>m j r. ma_pc m = MainWaiting \<and> j \<le> pool_budget 1 4 0 + 2
    \<and> (main_own_step two_bench fifo_mpsc 1 (\<lambda>k. k = 0) ^^ j) m r \<and> ma_pc r = MainReturned (Inr ())"
proof (rule two_main_waits)
  fix m assume m: "reach (\<lambda>x. x = two_main) (main_step two_bench fifo_mpsc 1 (\<lambda>k. k = 0) True) m"
    "ma_pc m = MainWaiting" "ps_callers (bo_pool (ma_boot m)) = []"
  have model: "pool_model two_bench fs_permit (\<lambda>n. map_of (fs_futures n)) ff_items ff_cap ff_rx ff_tx ff_items ff_cap ff_rx ff_tx
      (inner_config_from (bs_config two_setup)) 4 1"
    by (rule boot_model.axioms(1) [OF two_boot_model])
  have one: "unat (1 :: u8) = 1" by simp
  have zero: "(main_own_step two_bench fifo_mpsc 1 (\<lambda>k. k = 0) ^^ 0) m m" by simp
  from main_never_hangs [OF model fifo.mpsc_channel_axioms one two_watch two_main_reach [OF m(1)] zero] m(2,3)
  show ?thesis by (intro exI [of _ m]) auto
qed

end
