(* ===== verification/Pool_Service.thy ===== *)
theory Pool_Service
  imports Pool_Termination
begin

text \<open>
  What a pool is to its callers: a service that takes requests one by one and answers each at most
  once. The specification knows requests and their status only, no workers, threads, queues or
  signals. \<open>pool_service\<close> maps a state of \<open>Pool_System\<close> to it, and every step of a pool, of whoever,
  is one step of the service or none.
\<close>

subsection \<open>The service\<close>

datatype ('o, 'e) request_status =
    Submitted
  | Accepted
  | Answered "('o, 'e) reply"
  | Refused "'e batchinf_error"
  | Withdrawn bool

record ('i, 'o, 'e) request =
  rq_input :: 'i
  rq_waits :: bool
  rq_status :: "('o, 'e) request_status"

fun taken :: "('o, 'e) request_status \<Rightarrow> bool" where
  "taken Accepted \<longleftrightarrow> True"
| "taken (Answered r) \<longleftrightarrow> True"
| "taken (Withdrawn b) \<longleftrightarrow> b"
| "taken _ \<longleftrightarrow> False"

text \<open>A batch is a list of requests the service has taken, one to \<open>bs\<close> of them; \<open>code\<close> are the
  predictors it may call. A request is answered with the output at its own place in a batch, with the
  error for a batch it is in, or with an error of the service.\<close>

definition service_batch :: "nat \<Rightarrow> ('i, 'o, 'e) request list \<Rightarrow> nat list \<Rightarrow> bool" where
  "service_batch bs rs ks \<longleftrightarrow> 0 < length ks \<and> length ks \<le> bs \<and> (\<forall>k \<in> set ks. k < length rs \<and> taken (rq_status (rs ! k)))"

fun service_answer ::
  "('p \<Rightarrow> 'i list \<Rightarrow> (('e + 'o list) \<times> 'p) unwind) set \<Rightarrow> nat \<Rightarrow> ('i, 'o, 'e) request list \<Rightarrow> nat \<Rightarrow> ('o, 'e) reply \<Rightarrow> bool" where
  "service_answer code bs rs k (Inr out) \<longleftrightarrow>
     (\<exists>f \<in> code. \<exists>p p' ks outs j. service_batch bs rs ks \<and> f p (map (\<lambda>k. rq_input (rs ! k)) ks) = Returned (Inr outs, p')
        \<and> length outs = length ks \<and> j < length ks \<and> ks ! j = k \<and> outs ! j = out)"
| "service_answer code bs rs k (Inl (InferenceError err)) \<longleftrightarrow>
     (\<exists>f \<in> code. \<exists>p p' ks. service_batch bs rs ks \<and> f p (map (\<lambda>k. rq_input (rs ! k)) ks) = Returned (Inl err, p') \<and> k \<in> set ks)"
| "service_answer code bs rs k (Inl InvalidPredictorOutput) \<longleftrightarrow>
     (\<exists>f \<in> code. \<exists>p p' ks outs. service_batch bs rs ks \<and> f p (map (\<lambda>k. rq_input (rs ! k)) ks) = Returned (Inr outs, p')
        \<and> length outs \<noteq> length ks \<and> k \<in> set ks)"
| "service_answer code bs rs k (Inl InternalError) \<longleftrightarrow> True"
| "service_answer code bs rs k (Inl _) \<longleftrightarrow> False"

fun service_refusal :: "bool \<Rightarrow> 'e batchinf_error \<Rightarrow> bool" where
  "service_refusal waits NoAvailableWorkersError \<longleftrightarrow> True"
| "service_refusal waits QueueFullError \<longleftrightarrow> \<not> waits"
| "service_refusal waits _ \<longleftrightarrow> False"

inductive service_step ::
  "('p \<Rightarrow> 'i list \<Rightarrow> (('e + 'o list) \<times> 'p) unwind) set \<Rightarrow> nat
     \<Rightarrow> ('i, 'o, 'e) request list \<Rightarrow> ('i, 'o, 'e) request list \<Rightarrow> bool"
  for code bs where
  submit: "service_step code bs rs (rs @ [\<lparr>rq_input = i, rq_waits = w, rq_status = Submitted\<rparr>])"
| accept: "k < length rs \<Longrightarrow> rq_status (rs ! k) = Submitted
    \<Longrightarrow> service_step code bs rs (rs[k := (rs ! k)\<lparr>rq_status := Accepted\<rparr>])"
| refuse: "k < length rs \<Longrightarrow> rq_status (rs ! k) = Submitted \<Longrightarrow> service_refusal (rq_waits (rs ! k)) e
    \<Longrightarrow> service_step code bs rs (rs[k := (rs ! k)\<lparr>rq_status := Refused e\<rparr>])"
| answer: "k < length rs \<Longrightarrow> rq_status (rs ! k) = Accepted \<Longrightarrow> service_answer code bs rs k r
    \<Longrightarrow> service_step code bs rs (rs[k := (rs ! k)\<lparr>rq_status := Answered r\<rparr>])"
| withdraw: "k < length rs \<Longrightarrow> rq_status (rs ! k) = Submitted \<or> rq_status (rs ! k) = Accepted
    \<Longrightarrow> service_step code bs rs (rs[k := (rs ! k)\<lparr>rq_status := Withdrawn (taken (rq_status (rs ! k)))\<rparr>])"

subsection \<open>A pool as a service\<close>

fun call_status :: "('m, 'o, 'e) caller_pc \<Rightarrow> ('o, 'e) request_status" where
  "call_status (CallReturned True r) = Answered r"
| "call_status (CallReturned False (Inl e)) = Refused e"
| "call_status (CallCancelled b) = Withdrawn b"
| "call_status pc = (if was_queued pc then Accepted else Submitted)"

definition call_request :: "('i, 's, 'o, 'e) caller \<Rightarrow> ('i, 'o, 'e) request" where
  "call_request c = \<lparr>rq_input = ca_input c, rq_waits = ca_waits c, rq_status = call_status (ca_pc c)\<rparr>"

definition pool_service :: "('i, 's, 'p, 'f, 'q, 'j, 'o, 'e, 'n) pool_sys \<Rightarrow> ('i, 'o, 'e) request list" where
  "pool_service p = map call_request (ps_callers p)"

definition pool_code ::
  "('i, 's, 'p, 'f, 'q, 'j, 'o, 'e, 'n) pool_env \<Rightarrow> nat \<Rightarrow> ('p \<Rightarrow> 'i list \<Rightarrow> (('e + 'o list) \<times> 'p) unwind) set" where
  "pool_code P n = (\<lambda>i. ia_predict_batch (we_args (pe_worker P i))) ` {..<n}"

lemma pool_service_nth [simp]:
  "k < length (ps_callers p) \<Longrightarrow> pool_service p ! k = call_request (ps_callers p ! k)"
  "length (pool_service p) = length (ps_callers p)"
  by (simp_all add: pool_service_def)

lemma request_fields [simp]:
  "rq_input (call_request c) = ca_input c" "rq_waits (call_request c) = ca_waits c"
  "rq_status (call_request c) = call_status (ca_pc c)"
  by (simp_all add: call_request_def)

lemma was_queued_taken: "call_ok ws msg waits pc \<Longrightarrow> taken (call_status pc) \<longleftrightarrow> was_queued pc"
  by (cases pc rule: call_status.cases) (auto split: if_splits)

lemma set_call_service:
  assumes "ps_callers q = ps_callers p" and "k < length (ps_callers p)"
  shows "pool_service (set_call k pc q) = (pool_service p)[k := (pool_service p ! k)\<lparr>rq_status := call_status pc\<rparr>]"
  using assms by (simp add: pool_service_def set_call_def map_update call_request_def)

lemma same_service:
  assumes "ps_callers q = ps_callers p" and "k < length (ps_callers p)" and "call_status pc = call_status (ca_pc (ps_callers p ! k))"
  shows "pool_service (set_call k pc q) = pool_service p"
proof -
  have "(call_request (ps_callers p ! k))\<lparr>rq_status := call_status pc\<rparr> = call_request (ps_callers p ! k)"
    using assms(3) by (simp add: call_request_def)
  then show ?thesis
    using assms(2) set_call_service [OF assms(1,2), of pc] by (metis list_update_id pool_service_nth(1))
qed

lemma pick_list:
  assumes "\<forall>x \<in> set xs. \<exists>k. Q k \<and> f k = x"
  obtains ks where "map f ks = xs" "\<forall>k \<in> set ks. Q k"
  using assms
proof (induction xs arbitrary: thesis)
  case (Cons x xs)
  obtain k where k: "Q k" "f k = x" using Cons.prems(2) by auto
  obtain ks where ks: "map f ks = xs" "\<forall>k \<in> set ks. Q k"
    by (rule Cons.IH) (use Cons.prems(2) in auto)
  show ?case by (rule Cons.prems(1) [of "k # ks"]) (use k ks in simp_all)
qed simp

context pool_model
begin

text \<open>A batch of a worker is a batch of the service.\<close>

lemma worker_batch:
  assumes "pool_inv p" and "i < n" and "batch_ok bs (set (wk_accepted (ps_workers p ! i))) ps"
  obtains ks where "service_batch bs (pool_service p) ks" "map (\<lambda>k. rq_input (pool_service p ! k)) ks = map fst ps"
    "\<forall>j < length ps. ks ! j < length (ps_callers p) \<and> ca_sender (ps_callers p ! (ks ! j)) = snd (ps ! j)" "length ks = length ps"
proof -
  let ?cs = "ps_callers p"
  have "\<forall>m \<in> set ps. \<exists>k. (k < length ?cs \<and> was_queued (ca_pc (?cs ! k))) \<and> ca_msg (?cs ! k) = m"
  proof
    fix m assume "m \<in> set ps"
    then have "(fst m, snd m) \<in> set (wk_accepted (ps_workers p ! i))"
      using assms(3) by (auto simp: batch_ok_def)
    from accepted_caller [OF assms(1,2) this] show "\<exists>k. (k < length ?cs \<and> was_queued (ca_pc (?cs ! k))) \<and> ca_msg (?cs ! k) = m"
      by (metis in_set_conv_nth prod.collapse)
  qed
  then obtain ks where ks: "map (\<lambda>k. ca_msg (?cs ! k)) ks = ps" "\<forall>k \<in> set ks. k < length ?cs \<and> was_queued (ca_pc (?cs ! k))"
    by (rule pick_list)
  have "taken (call_status (ca_pc (?cs ! k)))" if k: "k \<in> set ks" for k
  proof -
    have "caller_ok (ps_workers p) (?cs ! k)"
      using assms(1) ks(2) k nth_mem [of k ?cs] by (simp add: pool_inv_defs)
    with ks(2) k show ?thesis by (simp add: was_queued_taken caller_ok_def)
  qed
  then have "service_batch bs (pool_service p) ks"
    using ks assms(3) by (auto simp: service_batch_def batch_ok_def)
  moreover have "map (\<lambda>k. rq_input (pool_service p ! k)) ks = map fst ps"
    using ks by (auto simp: ca_msg_def)
  moreover have len: "length ks = length ps" using arg_cong [OF ks(1), of length] by simp
  moreover have "\<forall>j < length ps. ks ! j < length ?cs \<and> ca_sender (?cs ! (ks ! j)) = snd (ps ! j)"
    using ks len by (auto simp: ca_msg_def)
  ultimately show thesis using that by blast
qed

lemma caller_unique:
  assumes "pool_inv p" and "j < length (ps_callers p)" and "k < length (ps_callers p)"
    and "ca_sender (ps_callers p ! j) = ca_sender (ps_callers p ! k)"
  shows "j = k"
proof -
  have "distinct (map ca_sender (ps_callers p))" using assms(1) by (simp add: pool_inv_defs)
  with assms(2-4) nth_eq_iff_index_eq [of "map ca_sender (ps_callers p)" j k] show ?thesis by simp
qed

text \<open>What a call returns is an answer of the service.\<close>

lemma returned_answer:
  assumes "pool_inv p" and "k < length (ps_callers p)" and "ca_pc (ps_callers p ! k) = CallReturned True r"
  shows "service_answer (pool_code P n) bs (pool_service p) k r"
  using assms(1) nth_mem [OF assms(2)] assms(3)
proof (cases rule: returned_reply)
  case (Replied i)
  let ?s = "ca_sender (ps_callers p ! k)"
  have explained: "reply_explained (ia_predict_batch (we_args (pe_worker P i))) bs (set (wk_accepted (ps_workers p ! i))) (?s, r)"
    by (rule worker_model.reached_replies [OF workers [OF Replied(2)] reached_worker [OF assms(1) Replied(2)] Replied(3)])
  have code: "ia_predict_batch (we_args (pe_worker P i)) \<in> pool_code P n"
    using Replied(2) by (simp add: pool_code_def)
  note batch = worker_batch [OF assms(1) Replied(2)]
  have own: "k \<in> set ks" if "\<forall>j < length ps. ks ! j < length (ps_callers p) \<and> ca_sender (ps_callers p ! (ks ! j)) = snd (ps ! j)"
      "length ks = length ps" "?s \<in> snd ` set ps" for ks and ps :: "('i \<times> 's) list"
  proof -
    obtain j where "j < length ps" "snd (ps ! j) = ?s" using \<open>?s \<in> snd ` set ps\<close> by (auto simp: in_set_conv_nth)
    with that caller_unique [OF assms(1) _ assms(2), of "ks ! j"] show ?thesis by (metis nth_mem)
  qed
  show ?thesis
  proof (cases "(ia_predict_batch (we_args (pe_worker P i)), bs, set (wk_accepted (ps_workers p ! i)), (?s, r))"
      rule: reply_explained.cases)
    case (1 f b A s out)
    with explained obtain q q' ps outs j where c: "ia_predict_batch (we_args (pe_worker P i)) q (map fst ps) = Returned (Inr outs, q')"
        "batch_ok bs (set (wk_accepted (ps_workers p ! i))) ps" "length outs = length ps" "j < length ps"
        "snd (ps ! j) = ?s" "outs ! j = out" "r = Inr out" by auto
    obtain ks where ks: "service_batch bs (pool_service p) ks" "map (\<lambda>k. rq_input (pool_service p ! k)) ks = map fst ps"
        "\<forall>j < length ps. ks ! j < length (ps_callers p) \<and> ca_sender (ps_callers p ! (ks ! j)) = snd (ps ! j)" "length ks = length ps"
      by (rule batch [OF c(2)])
    have "ks ! j = k" using caller_unique [OF assms(1) _ assms(2)] ks(3) c(4,5) by simp
    with c ks show ?thesis unfolding c(7) service_answer.simps
      by (intro bexI [OF _ code] exI [of _ q] exI [of _ q'] exI [of _ ks] exI [of _ outs] exI [of _ j]) simp
  next
    case (2 f b A s e)
    with explained obtain q q' ps where c: "ia_predict_batch (we_args (pe_worker P i)) q (map fst ps) = Returned (Inl e, q')"
        "batch_ok bs (set (wk_accepted (ps_workers p ! i))) ps" "?s \<in> snd ` set ps" "r = Inl (InferenceError e)" by auto
    obtain ks where ks: "service_batch bs (pool_service p) ks" "map (\<lambda>k. rq_input (pool_service p ! k)) ks = map fst ps"
        "\<forall>j < length ps. ks ! j < length (ps_callers p) \<and> ca_sender (ps_callers p ! (ks ! j)) = snd (ps ! j)" "length ks = length ps"
      by (rule batch [OF c(2)])
    from own [OF ks(3,4) c(3)] c ks show ?thesis unfolding c(4) service_answer.simps
      by (intro bexI [OF _ code] exI [of _ q] exI [of _ q'] exI [of _ ks]) simp
  next
    case (3 f b A s)
    then have r: "r = Inl InvalidPredictorOutput" by simp
    from explained [unfolded r reply_explained.simps]
    obtain q q' ps outs where c: "ia_predict_batch (we_args (pe_worker P i)) q (map fst ps) = Returned (Inr outs, q')"
        "batch_ok bs (set (wk_accepted (ps_workers p ! i))) ps" "length outs \<noteq> length ps" "?s \<in> snd ` set ps" by blast
    obtain ks where ks: "service_batch bs (pool_service p) ks" "map (\<lambda>k. rq_input (pool_service p ! k)) ks = map fst ps"
        "\<forall>j < length ps. ks ! j < length (ps_callers p) \<and> ca_sender (ps_callers p ! (ks ! j)) = snd (ps ! j)" "length ks = length ps"
      by (rule batch [OF c(2)])
    from own [OF ks(3,4) c(4)] c ks show ?thesis unfolding r service_answer.simps
      by (intro bexI [OF _ code] exI [of _ q] exI [of _ q'] exI [of _ ks] exI [of _ outs]) simp
  qed (use explained in auto)
qed simp_all

text \<open>An answer rests on requests that were taken; it does not depend on the status of its own request
  beyond that.\<close>

lemma service_answer_before:
  assumes "service_answer code m (rs[k := (rs ! k)\<lparr>rq_status := Answered r'\<rparr>]) k r" and "k < length rs" and "rq_status (rs ! k) = Accepted"
  shows "service_answer code m rs k r"
proof -
  let ?rs = "rs[k := (rs ! k)\<lparr>rq_status := Answered r'\<rparr>]"
  have "taken (rq_status (?rs ! j)) = taken (rq_status (rs ! j))" for j
    using assms(2,3) by (cases "j = k") simp_all
  then have batch: "service_batch m ?rs = service_batch m rs"
    by (simp add: service_batch_def fun_eq_iff)
  have "rq_input (?rs ! j) = rq_input (rs ! j)" for j
    using assms(2) by (cases "j = k") simp_all
  with assms(1) batch show ?thesis
    by (cases "(code, m, rs, k, r)" rule: service_answer.cases) simp_all
qed

text \<open>The simulation, call by call.\<close>

lemma call_step_service:
  assumes "pool_inv p" and "k < length (ps_callers p)" and "call_step P k p = Some p'"
  shows "pool_service p' = pool_service p \<or> service_step (pool_code P n) bs (pool_service p) (pool_service p')"
proof -
  let ?c = "ps_callers p ! k"
  let ?S = "service_step (pool_code P n) bs (pool_service p)"
  have ok: "call_ok (ps_workers p) (ca_msg ?c) (ca_waits ?c) (ca_pc ?c)"
    using assms(1) nth_mem [OF assms(2)] by (auto simp: pool_inv_defs caller_ok_def)
  have inv': "pool_inv p'" by (rule call_step_inv [OF assms])
  note same = same_service [OF _ assms(2)]
  note move = set_call_service [OF _ assms(2)]
  show ?thesis
  proof (cases "ca_pc ?c")
    case (CallBegin reg)
    then obtain pc start where "route_start (length (ps_workers p)) (ps_start p) (ca_msg ?c) = (pc :: ('i \<times> 's, 'e) route_pc, start)"
      and p': "p' = set_call k (CallRouting reg pc) (p\<lparr>ps_start := start\<rparr>)"
      using assms(3) by (auto simp: call_step_def split: prod.splits)
    then have "\<not> route_done pc" by (auto simp: route_start_def split: if_splits)
    then show ?thesis unfolding p' by (intro disjI1 same) (simp_all add: CallBegin)
  next
    case (CallRouting reg pc)
    have p': "p' = route_call P k reg pc p" using assms(3) CallRouting by (simp add: call_step_def)
    show ?thesis
    proof (cases "route_target pc")
      case (Some i)
      then have i: "i < length (ps_workers p)" and open_pc: "\<not> route_done pc"
        using ok CallRouting route_target_queued [OF Some] by (cases pc; auto)+
      obtain pc' w where step: "route_step (we_requests (pe_worker P i)) (length (ps_workers p)) (worker_view (ps_workers p ! i)) pc = (pc', w)"
        by fastforce
      let ?q = "p\<lparr>ps_workers := (ps_workers p)[i := worker_after (route_sent pc pc') w (ps_workers p ! i)]\<rparr>"
      have eq: "p' = set_call k (CallRouting reg pc') ?q"
        using Some i step by (simp add: p' route_call_def Let_def)
      show ?thesis
      proof (cases "route_done pc'")
        case True
        have "?S ((pool_service p)[k := (pool_service p ! k)\<lparr>rq_status := Accepted\<rparr>])"
          by (rule service_step.accept) (use assms(2) CallRouting open_pc in simp_all)
        then show ?thesis using move [of ?q "CallRouting reg pc'"] True by (simp add: eq)
      next
        case False
        then show ?thesis unfolding eq by (intro disjI1 same) (simp_all add: CallRouting open_pc)
      qed
    next
      case None
      then obtain r where pc: "pc = Routed r" using ok CallRouting by (cases pc) auto
      let ?next = "call_routed (ca_waits ?c) reg r :: ('i \<times> 's, 'o, 'e) caller_pc"
      let ?q = "drop_future (pe_signal P) (reg \<and> call_over ?next) k p"
      have eq: "p' = set_call k ?next ?q" by (simp add: p' pc route_call_def Let_def)
      show ?thesis
      proof (cases r)
        case (Inr u)
        then show ?thesis unfolding eq by (intro disjI1 same) (simp_all add: CallRouting pc)
      next
        case (Inl me)
        then obtain m e where r: "r = Inl (m, e)" "e = QueueFullError \<or> e = NoAvailableWorkersError"
          using ok CallRouting pc by (cases me) auto
        show ?thesis
        proof (cases "?next = CallReturned False (Inl e)")
          case True
          then have "service_refusal (ca_waits ?c) e"
            using r by (auto split: if_splits)
          then have "?S ((pool_service p)[k := (pool_service p ! k)\<lparr>rq_status := Refused e\<rparr>])"
            by (intro service_step.refuse) (use assms(2) CallRouting pc r in simp_all)
          then show ?thesis using move [of ?q ?next] True by (simp add: eq)
        next
          case False
          then have "call_status ?next = Submitted"
            using r by (auto split: if_splits)
          then show ?thesis unfolding eq by (intro disjI1 same) (simp_all add: CallRouting pc r)
        qed
      qed
    qed
  next
    case CallRegister
    then show ?thesis using assms(3) by (auto simp: call_step_def intro!: same)
  next
    case CallAsleep
    then show ?thesis using assms(3) by (auto simp: call_step_def split: if_splits intro!: same)
  next
    case (CallQueued reg)
    then obtain out where p': "p' = set_call k (CallReturned True (await_reply out)) (drop_future (pe_signal P) reg k p)"
      using assms(3) by (auto simp: call_step_def split: option.splits)
    let ?r = "await_reply out"
    have eq: "pool_service p' = (pool_service p)[k := (pool_service p ! k)\<lparr>rq_status := Answered ?r\<rparr>]"
      unfolding p' by (subst move) simp_all
    have "service_answer (pool_code P n) bs (pool_service p') k ?r"
      by (rule returned_answer [OF inv']) (use assms(2) in \<open>simp_all add: p' set_call_def\<close>)
    then have "service_answer (pool_code P n) bs (pool_service p) k ?r"
      unfolding eq by (rule service_answer_before) (use assms(2) CallQueued in simp_all)
    then have "?S ((pool_service p)[k := (pool_service p ! k)\<lparr>rq_status := Answered ?r\<rparr>])"
      by (intro service_step.answer) (use assms(2) CallQueued in simp_all)
    then show ?thesis by (simp add: eq)
  qed (use assms(3) in \<open>simp_all add: call_step_def\<close>)
qed

lemma pool_step_service:
  assumes "pool_inv p" and "pool_step P p p'"
  shows "pool_service p' = pool_service p \<or> service_step (pool_code P n) bs (pool_service p) (pool_service p')"
  using assms(2)
proof (cases rule: pool_step.cases)
  case own
  then show ?thesis
  proof (cases rule: pool_own_step.cases)
    case (caller_acts k)
    then show ?thesis by (rule call_step_service [OF assms(1)])
  qed (simp_all add: pool_service_def set_worker_def)
next
  case serves
  then show ?thesis by (simp add: pool_service_def)
next
  case (arrives tx inp waits)
  then have "pool_service p' = pool_service p @ [\<lparr>rq_input = inp, rq_waits = waits, rq_status = Submitted\<rparr>]"
    by (simp add: pool_service_def call_request_def)
  then show ?thesis by (simp add: service_step.submit)
next
  case (cancelled k)
  let ?c = "ps_callers p ! k"
  note move = set_call_service [OF _ cancelled(1)]
  show ?thesis
    using cancelled(2) service_step.withdraw [of k "pool_service p" "pool_code P n" bs] cancelled(1)
    by (auto simp: cancel_call_def move split: caller_pc.splits)
next
  case closes
  then show ?thesis by (simp add: pool_service_def)
qed

lemma reached_service:
  "pool_reach P cfg queue_sz n p \<Longrightarrow> (service_step (pool_code P n) bs)\<^sup>*\<^sup>* [] (pool_service p)"
proof (induction rule: reach.induct)
  case (reach_start p)
  then show ?case by (simp add: pool_start_def pool_service_def)
next
  case (reach_step p p')
  with pool_step_service [OF reach_pool_inv [OF reach_step.hyps(1)] reach_step.hyps(2)] show ?case
    by (metis rtranclp.rtrancl_into_rtrancl)
qed

end

subsection \<open>What the service keeps\<close>

fun settled_status :: "('o, 'e) request_status \<Rightarrow> bool" where
  "settled_status Submitted \<longleftrightarrow> False"
| "settled_status Accepted \<longleftrightarrow> False"
| "settled_status _ \<longleftrightarrow> True"

lemma service_step_settled:
  assumes "service_step code m rs rs'" and "k < length rs" and "settled_status (rq_status (rs ! k))"
  shows "k < length rs' \<and> rs' ! k = rs ! k"
  using assms by (cases rule: service_step.cases) (auto simp: nth_append nth_list_update)

lemma service_steps_settled:
  "(service_step code m)\<^sup>*\<^sup>* rs rs' \<Longrightarrow> k < length rs \<Longrightarrow> settled_status (rq_status (rs ! k)) \<Longrightarrow> k < length rs' \<and> rs' ! k = rs ! k"
proof (induction rule: rtranclp_induct)
  case (step y z)
  with service_step_settled [OF step.hyps(2)] show ?case by simp
qed simp

context pool_model
begin

lemma pool_steps_service:
  assumes "pool_reach P cfg queue_sz n p" and "(pool_step P)\<^sup>*\<^sup>* p q"
  shows "pool_reach P cfg queue_sz n q" and "(service_step (pool_code P n) bs)\<^sup>*\<^sup>* (pool_service p) (pool_service q)"
proof -
  from assms(2) have "pool_reach P cfg queue_sz n q \<and> (service_step (pool_code P n) bs)\<^sup>*\<^sup>* (pool_service p) (pool_service q)"
  proof (induction rule: rtranclp_induct)
    case base
    then show ?case using assms(1) by simp
  next
    case (step y z)
    have y: "pool_reach P cfg queue_sz n y" and run: "(service_step (pool_code P n) bs)\<^sup>*\<^sup>* (pool_service p) (pool_service y)"
      using step.IH by simp_all
    have "pool_reach P cfg queue_sz n z" by (rule reach.reach_step [OF y step.hyps(2)])
    moreover from pool_step_service [OF reach_pool_inv [OF y] step.hyps(2)]
    have "(service_step (pool_code P n) bs)\<^sup>*\<^sup>* (pool_service p) (pool_service z)"
      by (rule disjE) (simp_all add: run rtranclp.rtrancl_into_rtrancl [OF run])
    ultimately show ?case by simp
  qed
  then show "pool_reach P cfg queue_sz n q" and "(service_step (pool_code P n) bs)\<^sup>*\<^sup>* (pool_service p) (pool_service q)"
    by simp_all
qed

end

subsection \<open>Property\<close>

text \<open>C2: A pool implements the service. For every pool, every reachable state and every step of a worker,
  of a caller or of the environment, the step is one step of the service or none; so every history of a
  pool is one of the service. In particular, what a call has been told does not change any more,
  whatever the pool does afterwards.\<close>

theorem pool_implements_service:
  assumes "pool_model P permit fut qi qc qr qt ji jc jr jt cfg queue_sz n" and "pool_reach P cfg queue_sz n p"
  shows "(service_step (pool_code P n) (unat (ic_batch_size cfg)))\<^sup>*\<^sup>* [] (pool_service p)
    \<and> (\<forall>p'. pool_step P p p' \<longrightarrow> pool_service p' = pool_service p
        \<or> service_step (pool_code P n) (unat (ic_batch_size cfg)) (pool_service p) (pool_service p'))
    \<and> (\<forall>q k. (pool_step P)\<^sup>*\<^sup>* p q \<and> k < length (ps_callers p) \<and> settled_status (rq_status (pool_service p ! k))
        \<longrightarrow> pool_service q ! k = pool_service p ! k)"
proof (intro conjI allI impI)
  show "pool_service p' = pool_service p
      \<or> service_step (pool_code P n) (unat (ic_batch_size cfg)) (pool_service p) (pool_service p')" if "pool_step P p p'" for p'
    by (rule pool_model.pool_step_service [OF assms(1) pool_model.reach_pool_inv [OF assms] that])
  fix q k
  assume run: "(pool_step P)\<^sup>*\<^sup>* p q \<and> k < length (ps_callers p) \<and> settled_status (rq_status (pool_service p ! k))"
  then have "k < length (pool_service p)" by simp
  from service_steps_settled [OF pool_model.pool_steps_service(2) [OF assms] this] run
  show "pool_service q ! k = pool_service p ! k" by blast
qed (rule pool_model.reached_service [OF assms])

theorem pool_implements_service_witness:
  "(service_step (pool_code demo_pool 2) 2)\<^sup>*\<^sup>* []
    [\<lparr>rq_input = 6, rq_waits = True, rq_status = Answered (Inr 12) :: (nat, nat) request_status\<rparr>]"
proof (rule run_pool_cases [OF one_call_output])
  fix p assume p: "pool_reach demo_pool demo_cfg 1 2 p" "(ps_callers p, map wk_accepted (ps_workers p), settled (pool_log (ps_workers p))) =
     ([\<lparr>ca_input = 6, ca_sender = 2, ca_waits = True, ca_pc = CallReturned True (Inr 12)\<rparr>], [[(6, 2)], []], [2])"
  then have "pool_service p = [\<lparr>rq_input = 6, rq_waits = True, rq_status = Answered (Inr 12)\<rparr>]"
    by (simp add: pool_service_def call_request_def)
  moreover have "unat (ic_batch_size demo_cfg) = 2" by (simp add: demo_cfg_def)
  ultimately show ?thesis
    using pool_implements_service [OF demo_pool.pool_model_axioms p(1)] by simp
qed

end
