(* ===== verification/Worker_Order.thy ===== *)
theory Worker_Order
  imports Worker_Properties "HOL-Library.Sublist"
begin

text \<open>
  The order in which a worker serves its callers. The requests a worker holds form one line: the batch
  the predictor is called on, the batch queued as a job, the batch the accumulator hands off, the
  batch that fills, and the request channel. Every step shortens the line or leaves it; a caller joins
  at its end. So no request overtakes another into an earlier batch. Inside one batch the order can
  change: \<open>filter_canceled\<close> removes by swapping, so the batch being predicted is compared as a
  multiset.
\<close>

definition acc_line ::
  "('q \<Rightarrow> ('i \<times> 's) list) \<Rightarrow> ('j \<Rightarrow> ('i, 's) worker_buffer list)
     \<Rightarrow> ('i, 's) acc_task \<times> ('q, 'j, 's, 'o, 'e) worker_shared \<Rightarrow> ('i \<times> 's) list" where
  "acc_line qi ji = (\<lambda>(ac, sh).
     concat (map pairs (ji (sh_jobs sh))) @ acc_batch (ac_pc ac) @ pairs (ac_buffer ac) @ qi (sh_requests sh))"

fun inf_batch :: "('p, 'i, 's) inf_pc \<Rightarrow> ('i \<times> 's) list" where
  "inf_batch (InfPredicting p ins ss) = zip ins ss"
| "inf_batch _ = []"

text \<open>\<open>batch\<close> is the running batch as it came out of the job channel.\<close>

definition in_line ::
  "('q \<Rightarrow> ('i \<times> 's) list) \<Rightarrow> ('j \<Rightarrow> ('i, 's) worker_buffer list)
     \<Rightarrow> ('i, 's, 'p, 'f, 'q, 'j, 'o, 'e) worker_sys \<Rightarrow> ('i \<times> 's) list \<Rightarrow> bool" where
  "in_line qi ji s batch \<longleftrightarrow> mset (inf_batch (it_pc (wk_inf s))) \<subseteq># mset batch
     \<and> subseq (batch @ acc_line qi ji (wk_acc s, wk_shared s)) (wk_accepted s)"

context worker_model
begin

abbreviation "line \<equiv> acc_line qi ji"

lemma line_pair [simp]:
  "line (ac, sh) = concat (map pairs (ji (sh_jobs sh))) @ acc_batch (ac_pc ac) @ pairs (ac_buffer ac)
     @ qi (sh_requests sh)"
  by (simp add: acc_line_def)

text \<open>A task that leaves its loop drops what it still holds.\<close>

lemma line_acc_leave [simp]:
  "line (acc_leave (we_jobs W) pk batch c) =
     concat (map pairs (ji (sh_jobs (snd c)))) @ qi (sh_requests (snd c))"
  using job.drop_senders [of "sh_jobs (snd c)"]
  by (simp add: acc_line_def case_prod_unfold buffer_simps)

lemmas line_simps = subseq_append' subseq_drop_many buffer_simps good_defs

lemma recv_first_line:
  assumes "good A (ac, sh)" and "ac_pc ac = AwaitFirst"
    and "recv_first (we_requests W) (we_jobs W) imax now (ac, sh) = Some c'"
  shows "subseq (line c') (line (ac, sh))"
proof (cases rule: req.poll_recv_cases [of "sh_requests sh"])
  case (Msg m ms q)
  show ?thesis
    using assms Msg
    by (auto simp: recv_first_def case_prod_unfold line_simps job.drop_senders split: option.splits)
next
  case Empty
  with assms(3) show ?thesis by (simp add: recv_first_def)
next
  case Disconnected
  with assms(3) show ?thesis
    by (auto simp: recv_first_def line_simps)
qed

lemma recv_more_line:
  assumes "good A (ac, sh)" and "ac_pc ac = Selecting"
    and "recv_more (we_requests W) (we_jobs W) (ac, sh) = Some c'"
  shows "subseq (line c') (line (ac, sh))"
proof (cases rule: req.poll_recv_cases [of "sh_requests sh"])
  case (Msg m ms q)
  show ?thesis
    using assms Msg
    by (auto simp: recv_more_def case_prod_unfold line_simps)
next
  case Empty
  with assms(3) show ?thesis by (simp add: recv_more_def)
next
  case Disconnected
  with assms(3) show ?thesis
    by (auto simp: recv_more_def line_simps)
qed

lemma check_predictor_alive_line:
  assumes "good A (ac, sh)" and "ac_pc ac = CheckAlive t"
  shows "subseq (line (check_predictor_alive (we_jobs W) t (ac, sh))) (line (ac, sh))"
  using assms
  by (auto simp: check_predictor_alive_def swap_replace_def line_simps
      split: option.splits predictor_status.splits)

lemma drain_flush_line:
  assumes "good A (ac, sh)" and "ac_pc ac = DrainFlush"
  shows "subseq (line (drain_flush (we_requests W) (ac, sh))) (line (ac, sh))"
proof (cases rule: req.poll_recv_cases [of "sh_requests sh"])
  case (Msg m ms q)
  with assms show ?thesis
    by (cases m) (auto simp: drain_flush_def line_simps)
qed (use assms in \<open>auto simp: drain_flush_def swap_replace_def line_simps\<close>)

lemma finish_sent_line:
  assumes "pairs (ac_buffer ac) = []"
    and "subseq (concat (map pairs (ji (sh_jobs sh))) @ qi (sh_requests sh)) xs"
  shows "subseq (line (finish_sent worker (we_jobs W) t n (ac, sh))) xs"
  using assms
  by (auto simp: finish_sent_def Let_def line_simps split: prod.splits unwind.splits)

lemma start_handoff_line:
  assumes "good A (ac, sh)" and "ac_pc ac = Handoff b t"
  shows "subseq (line (start_handoff worker (we_requests W) (we_jobs W) b t (ac, sh))) (line (ac, sh))"
  using assms
  by (auto intro!: finish_sent_line simp: start_handoff_def Let_def good_defs
      line_simps split: prod.splits unwind.splits)

lemma reserve_job_line:
  assumes "good A (ac, sh)" and "ac_pc ac = AwaitPermit b t"
    and "reserve_job worker (we_jobs W) b t (ac, sh) = Some c'"
  shows "subseq (line c') (line (ac, sh))"
  using assms
  by (auto simp: reserve_job_def Let_def line_simps split: prod.splits unwind.splits reserve_outcome.splits)

lemma use_permit_line:
  assumes "good A (ac, sh)" and "ac_pc ac = HavePermit b t"
  shows "subseq (line (use_permit (we_jobs W) b t (ac, sh))) (line (ac, sh))"
  using assms
  by (auto simp: use_permit_def line_simps split: option.splits)

lemma send_job_line:
  assumes "good A (ac, sh)" and "ac_pc ac = SendJob b t"
  shows "subseq (line (send_job worker (we_jobs W) b t (ac, sh))) (line (ac, sh))"
proof (cases "jr (sh_jobs sh)")
  case True
  with assms job.permit_send_ok [OF True, of b] show ?thesis
    by (auto intro!: finish_sent_line simp: send_job_def line_simps)
next
  case False
  with assms job.permit_send_gone [OF False, of b] show ?thesis
    by (auto intro!: finish_sent_line simp: send_job_def line_simps)
qed

lemma drain_handoff_line:
  assumes "good A (ac, sh)" and "ac_pc ac = DrainHandoff b"
  shows "subseq (line (drain_handoff worker (we_requests W) (we_jobs W) b (ac, sh))) (line (ac, sh))"
proof (cases rule: req.poll_recv_cases [of "sh_requests sh"])
  case (Msg m ms q)
  with assms show ?thesis
    by (cases m) (auto simp: drain_handoff_def line_simps)
qed (use assms in \<open>auto simp: drain_handoff_def Let_def line_simps
      subseq_append' subseq_drop_many split: prod.splits unwind.splits\<close>)

lemma acc_drop_line:
  "subseq (line (acc_drop (we_requests W) (ac, sh))) (line (ac, sh))" if "ac_pc ac = AccExiting"
  using req.drop_receiver [of "sh_requests sh"] that
  by (auto simp: acc_drop_def line_simps split: prod.splits)

lemma wake_line:
  "ac_pc ac = Selecting \<Longrightarrow> subseq (line (ac\<lparr>ac_pc := CheckAlive t\<rparr>, sh)) (line (ac, sh))"
  by simp

lemma acc_step_line:
  assumes "good A (ac, sh)"
    and "acc_step (we_worker W) (we_imax W) (we_requests W) (we_jobs W) c (ac, sh) = Some c'"
  shows "subseq (line c') (line (ac, sh))"
  using assms
  by (cases c; cases "ac_pc ac")
    (auto intro: recv_first_line recv_more_line check_predictor_alive_line drain_flush_line
      start_handoff_line reserve_job_line use_permit_line send_job_line drain_handoff_line
      acc_drop_line wake_line simp del: line_pair split: if_splits)

text \<open>A step of the inference thread takes some batches off the front of the job channel, and calls the
  predictor on requests of these only.\<close>

definition inf_line ::
  "('q, 'j, 's, 'o, 'e) worker_shared \<Rightarrow> ('p, 'i, 's, 'f) inf_thread \<times> ('q, 'j, 's, 'o, 'e) worker_shared
     \<Rightarrow> bool" where
  "inf_line sh = (\<lambda>(th', sh'). sh_requests sh' = sh_requests sh
     \<and> (\<exists>taken. ji (sh_jobs sh) = taken @ ji (sh_jobs sh')
          \<and> mset (inf_batch (it_pc th')) \<subseteq># mset (concat (map pairs taken))))"

lemma inf_lineI:
  assumes "sh_requests sh' = sh_requests sh" and "ji (sh_jobs sh) = taken @ ji (sh_jobs sh')"
    and "inf_batch (it_pc th') = []"
  shows "inf_line sh (th', sh')"
  using assms by (auto simp: inf_line_def)

lemmas inf_line_same = inf_lineI [where taken = "[]", simplified]

lemma flush_batch_line:
  "inf_batch (it_pc th') = [] \<Longrightarrow> inf_line sh (th', flush_batch (we_jobs W) sh)"
  by (rule flush_batch_fields [of sh]) (rule inf_lineI, auto)

lemma inf_line_log [simp]:
  "inf_line (log_effects es sh) c = inf_line sh c"
  "inf_line sh (th', log_effects es sh') = inf_line sh (th', sh')"
  by (simp_all add: inf_line_def)

lemma inf_die_line: "inf_line sh (inf_die (th, sh)) \<and> inf_line sh (inf_die (th, log_effects es sh))"
  by (auto simp: inf_die_def intro!: inf_line_same)

lemma inf_predict_line: "inf_line sh (inf_predict (we_args W) latency p ins ss (th, sh))"
  using inf_die_line
  by (auto simp: inf_predict_def intro!: inf_line_same split: prod.splits unwind.splits)

lemma inf_handle_panic_line: "inf_line sh (inf_handle_panic (we_args W) (we_jobs W) ss (th, sh))"
proof -
  have "inf_line sh (th\<lparr>it_pc := InfRebuilding, it_shut := b\<rparr>,
      flush_batch (we_jobs W) (log_effects es (log_effects es' sh)))" for es es' b
    using flush_batch_line [of "th\<lparr>it_pc := InfRebuilding, it_shut := b\<rparr>" "log_effects es (log_effects es' sh)"] by simp
  then show ?thesis
    using inf_die_line
    by (auto simp: inf_handle_panic_def Let_def split: prod.splits unwind.splits)
qed

lemma inf_receive_line:
  assumes "inf_good A (th, sh)" and "inf_receive (we_jobs W) gone p (th, sh) = Some c'"
  shows "inf_line sh c'"
proof (cases rule: job.poll_recv_cases [of "sh_jobs sh"])
  case (Msg b ms j)
  have "aligned b"
    using assms(1) Msg by (auto simp: inf_defs)
  then obtain live where live: "filter_canceled gone b = Some live" "aligned live"
      "mset (pairs live) = filter_mset (\<lambda>p. \<not> gone (snd p)) (mset (pairs b))"
    by (rule filter_canceled_correct)
  have "zip (input_buffer live) (sender_buffer live) = pairs live"
    by (simp add: pairs_def)
  with assms(2) Msg live have "sh_requests (snd c') = sh_requests sh" "sh_jobs (snd c') = j"
    "mset (inf_batch (it_pc (fst c'))) \<subseteq># mset (pairs b)"
    by (auto simp: inf_receive_def Let_def split_buffer_def split: if_splits)
  with Msg show ?thesis
    by (auto simp: inf_line_def case_prod_unfold intro!: exI [of _ "[b]"])
qed (use assms in \<open>auto simp: inf_receive_def intro!: inf_line_same\<close>)

lemma inf_step_line:
  assumes "inf_good A (th, sh)"
    and "inf_step (we_args W) (we_jobs W) d (th, sh) = Some c'"
  shows "inf_line sh c'"
proof -
  have drop: "inf_line sh (inf_drop (we_jobs W) (th', sh))" for th'
    using job.drop_receiver [of "sh_jobs sh"]
    by (auto simp: inf_drop_def inf_line_def split: prod.splits)
  from drop [of th] have "inf_line sh (spawn_failed (we_jobs W) (th, sh))"
    by (auto simp: spawn_failed_def inf_line_def split: prod.splits)
  note moves = this drop inf_receive_line [OF assms(1)] inf_predict_line inf_handle_panic_line
  show ?thesis
    using assms(2)
    by (cases d; cases "it_pc th")
      (auto intro: moves intro!: inf_line_same flush_batch_line simp: inf_start_def inf_rebuild_def Let_def
        split: prod.splits sum.splits)
qed

subsection \<open>The line of a reachable worker\<close>

lemma in_line_start: "worker_start W cfg queue_sz s \<Longrightarrow> in_line qi ji s []"
  using job.channel_new [of 1] req.channel_new [OF queue_pos]
  by (auto simp: worker_start_def new_worker_sys_def new_acc_task_def new_inf_thread_def in_line_def
      JOB_QUEUE_DEPTH_def buffer_simps)

lemma in_line_step:
  assumes "sys_inv s" and "in_line qi ji s batch" and "worker_step W s t"
  shows "\<exists>batch. in_line qi ji t batch"
  using assms(3)
proof (cases rule: worker_step.cases)
  case (acc_moves c ac sh)
  have "good (set (wk_accepted s)) (wk_acc s, wk_shared s)"
    using assms(1) by (simp add: sys_inv_def)
  from acc_step_line [OF this acc_moves(2)] have "subseq (batch @ line (ac, sh)) (wk_accepted s)"
    using assms(2) unfolding in_line_def
    by (meson subseq_append' subseq_order.trans)
  with assms(2) acc_moves(1) show ?thesis
    by (auto simp: in_line_def)
next
  case (inf_moves d th sh)
  have "inf_good (set (wk_accepted s)) (wk_inf s, wk_shared s)"
    using assms(1) by (simp add: sys_inv_def)
  from inf_step_line [OF this inf_moves(2)] obtain taken where taken:
    "sh_requests sh = sh_requests (wk_shared s)" "ji (sh_jobs (wk_shared s)) = taken @ ji (sh_jobs sh)"
    "mset (inf_batch (it_pc th)) \<subseteq># mset (concat (map pairs taken))"
    by (auto simp: inf_line_def)
  then have "line (wk_acc s, wk_shared s) = concat (map pairs taken) @ line (wk_acc s, sh)"
    by simp
  then have "subseq (concat (map pairs taken) @ line (wk_acc s, sh)) (wk_accepted s)"
    using assms(2) unfolding in_line_def
    by (metis subseq_drop_many subseq_order.refl subseq_order.trans)
  with taken(3) inf_moves(1) show ?thesis
    by (auto simp: in_line_def)
next
  case (caller_pushes msg q)
  have "qi q = qi (sh_requests (wk_shared s)) @ [msg]"
    using req.try_send_SendOk [OF caller_pushes(3)] by simp
  then have "in_line qi ji t batch"
    using assms(2) caller_pushes(1) by (simp add: in_line_def flip: append_assoc)
  then show ?thesis ..
next
  case handles_dropped
  with assms(2) req.drop_senders [of "sh_requests (wk_shared s)"] show ?thesis
    by (auto simp: in_line_def)
qed

end

sublocale worker_model \<subseteq> ordered: invariant_system "worker_start W cfg queue_sz" "worker_step W"
  "\<lambda>s. sys_inv s \<and> (\<exists>batch. in_line qi ji s batch)"
  by unfold_locales (use start_inv in_line_start in blast, use step_inv in_line_step in blast)

context worker_model
begin

lemma reached_in_line:
  "worker_reach W cfg queue_sz s \<Longrightarrow> \<exists>batch. in_line qi ji s batch"
  using ordered.reach_inv by blast

end

subsection \<open>Properties\<close>

text \<open>C28: A worker keeps its callers in the order in which they came. In every reachable state the
  requests it holds, from the batch it runs over the queued job, the batch being handed off and the
  batch that fills to the request channel, form a subsequence of the requests accepted so far, in
  arrival order; so no request is served in a later batch than one that came after it. The call of
  the predictor is on requests of the running batch only, where those whose callers have gone may be
  missing and the rest may be permuted.\<close>

theorem worker_keeps_order:
  assumes "worker_model W qi qc qr qt ji jc jr jt cfg n" and "worker_reach W cfg n s"
  shows "\<exists>batch. mset (inf_batch (it_pc (wk_inf s))) \<subseteq># mset batch
    \<and> subseq (batch @ concat (map pairs (ji (sh_jobs (wk_shared s)))) @ acc_batch (ac_pc (wk_acc s))
        @ pairs (ac_buffer (wk_acc s)) @ qi (sh_requests (wk_shared s))) (wk_accepted s)"
  using worker_model.reached_in_line [OF assms] by (simp add: in_line_def acc_line_def)

theorem worker_keeps_order_witness:
  "\<exists>s (batch :: (nat \<times> nat) list). worker_reach demo_env demo_cfg 4 s \<and> it_pc (wk_inf s) = InfPredicting () [5, 6] [1, 2]
    \<and> {#(5, 1), (6, 2)#} \<subseteq># mset batch \<and> subseq batch [(5, 1), (6, 2)]"
proof (rule run_demo_cases [OF demo_running_state])
  fix s assume s: "worker_reach demo_env demo_cfg 4 s"
    "(it_pc (wk_inf s), wk_accepted s) = (InfPredicting () [5, 6] [1, 2], [(5, 1), (6, 2)])"
  from worker_keeps_order [OF demo_model s(1)] s(2) obtain batch where
    "{#(5, 1), (6, 2)#} \<subseteq># mset batch"
    "subseq (batch @ concat (map pairs (ff_items (sh_jobs (wk_shared s)))) @ acc_batch (ac_pc (wk_acc s))
        @ pairs (ac_buffer (wk_acc s)) @ ff_items (sh_requests (wk_shared s))) [(5, 1), (6, 2)]"
    by auto
  then have "{#(5, 1), (6, 2)#} \<subseteq># mset batch" "subseq batch [(5, 1), (6, 2)]"
    using subseq_rev_drop_many subseq_order.trans by blast+
  with s show ?thesis by blast
qed

end
