(* ===== verification/Worker_Recovery.thy ===== *)
theory Worker_Recovery
  imports Worker_Health
begin

text \<open>
  A worker seen from the callers that wait for room, through panics of its predictor and of the
  hooks, rebuilds that succeed and rebuilds that fail. Unless its status byte says \<open>Dead\<close>, it says where
  the inference thread is (\<open>thread_health\<close>), and every step is one of three for a waiting caller: it
  takes one request and notifies one, it notifies all, or it leaves the caller as much reason to wait as
  before (\<open>worker_change\<close>). Two kinds of steps are left out, each a definition of its own: a drain that
  takes a request although the rebuild has ended (\<open>late_drain\<close>), and a store of the inference thread
  that replaces a \<open>Dead\<close> of the accumulator's panic guard (\<open>dead_replaced\<close>).
\<close>

subsection \<open>The status of a worker\<close>

fun thread_health :: "('p, 'i, 's) inf_pc \<Rightarrow> predictor_status" where
  "thread_health (InfCrashing p ss) = Rebuilding"
| "thread_health InfRebuilding = Rebuilding"
| "thread_health (InfFlushing p) = Rebuilding"
| "thread_health (InfReviving p) = Rebuilding"
| "thread_health InfExiting = Dead"
| "thread_health InfExited = Dead"
| "thread_health InfReleased = Dead"
| "thread_health _ = Alive"

definition worker_health :: "('i, 's, 'p, 'f, 'q, 'j, 'o, 'e) worker_sys \<Rightarrow> predictor_status" where
  "worker_health s = the_predictor (sh_state (wk_shared s))"

lemma inf_gone_Dead: "inf_gone pc \<Longrightarrow> thread_health pc = Dead"
  by (cases pc) simp_all

text \<open>The steps left out.\<close>

definition late_drain ::
  "('i, 's, 'p, 'f, 'q, 'j, 'o, 'e) worker_sys \<Rightarrow> ('i, 's, 'p, 'f, 'q, 'j, 'o, 'e) worker_sys \<Rightarrow> bool" where
  "late_drain s t \<longleftrightarrow> draining (ac_pc (wk_acc s)) \<and> get_predictor_state (sh_state (wk_shared s)) = Some Alive
     \<and> wk_acc t \<noteq> wk_acc s \<and> sh_requests (wk_shared t) \<noteq> sh_requests (wk_shared s)"

definition new_log ::
  "('i, 's, 'p, 'f, 'q, 'j, 'o, 'e) worker_sys \<Rightarrow> ('i, 's, 'p, 'f, 'q, 'j, 'o, 'e) worker_sys \<Rightarrow> ('s, 'o, 'e) effect list" where
  "new_log s t = drop (length (sh_log (wk_shared s))) (sh_log (wk_shared t))"

definition dead_replaced ::
  "('i, 's, 'p, 'f, 'q, 'j, 'o, 'e) worker_sys \<Rightarrow> ('i, 's, 'p, 'f, 'q, 'j, 'o, 'e) worker_sys \<Rightarrow> bool" where
  "dead_replaced s t \<longleftrightarrow> get_predictor_state (sh_state (wk_shared s)) = Some Dead
     \<and> get_predictor_state (sh_state (wk_shared t)) \<noteq> Some Dead"

text \<open>The last notification of a step is for all.\<close>

definition notifies_all :: "('s, 'o, 'e) effect list \<Rightarrow> bool" where
  "notifies_all es \<longleftrightarrow> notifies es \<noteq> [] \<and> last (notifies es) = NotifyWaiters"

lemma notifies_all_simps [simp]:
  "notifies_all [NotifyWaiters]" "notifies_all es \<Longrightarrow> notifies_all (e # es)"
  "notifies_all ys \<Longrightarrow> notifies_all (xs @ ys)"
  by (auto simp: notifies_all_def notifies_def)

subsection \<open>The accumulator\<close>

lemma draining_moves [simp]:
  "ac\<lparr>ac_buffer := buffer_push x y (ac_buffer ac)\<rparr> \<noteq> ac"
  "ac_pc ac = DrainHandoff b \<Longrightarrow> ac\<lparr>ac_pc := DrainHandoff (buffer_push x y b)\<rparr> \<noteq> ac"
proof -
  have push: "buffer_push x y b \<noteq> b" for x y and b :: "('i, 's) worker_buffer"
    by (cases b) (simp add: buffer_push_def)
  show "ac\<lparr>ac_buffer := buffer_push x y (ac_buffer ac)\<rparr> \<noteq> ac"
    using push [of x y "ac_buffer ac"] by (cases ac) auto
  show "ac_pc ac = DrainHandoff b \<Longrightarrow> ac\<lparr>ac_pc := DrainHandoff (buffer_push x y b)\<rparr> \<noteq> ac"
    using push [of x y b] by (cases ac) auto
qed

context worker_model
begin

text \<open>What a step of the accumulator does for waiting callers. It dies, and notifies all; or it goes on,
  and a request leaves the queue in silence only in a drain or after the end of the task.\<close>

definition acc_effect ::
  "('i, 's) acc_task \<times> ('q, 'j, 's, 'o, 'e) worker_shared \<Rightarrow> ('i, 's) acc_task \<times> ('q, 'j, 's, 'o, 'e) worker_shared \<Rightarrow> bool" where
  "acc_effect c c' \<longleftrightarrow> (\<exists>es. sh_log (snd c') = sh_log (snd c) @ es \<and>
     (the_predictor (sh_state (snd c')) = Dead \<and> notifies_all es
      \<or> the_predictor (sh_state (snd c')) = the_predictor (sh_state (snd c))
        \<and> (acc_left (ac_pc (fst c')) \<longrightarrow> acc_left (ac_pc (fst c)) \<or> \<not> jr (sh_jobs (snd c)))
        \<and> (notifies es = [NotifyOne]
           \<or> notifies es = [] \<and> (sh_requests (snd c') = sh_requests (snd c) \<or> acc_left (ac_pc (fst c))
                \<or> draining (ac_pc (fst c)) \<and> fst c' \<noteq> fst c))))"

lemma recv_first_effect:
  assumes "recv_first (we_requests W) (we_jobs W) imax now (ac, sh) = Some c'" and "qt (sh_requests sh)"
  shows "acc_effect (ac, sh) c'"
proof (cases rule: req.poll_recv_cases [of "sh_requests sh"])
  case (Msg m ms q)
  then show ?thesis
    using assms
    by (auto simp: recv_first_def acc_effect_def case_prod_unfold status_simps
        split: option.splits if_splits)
qed (use assms in \<open>auto simp: recv_first_def\<close>)

lemma recv_more_effect:
  assumes "recv_more (we_requests W) (we_jobs W) (ac, sh) = Some c'" and "qt (sh_requests sh)"
  shows "acc_effect (ac, sh) c'"
proof (cases rule: req.poll_recv_cases [of "sh_requests sh"])
  case (Msg m ms q)
  then show ?thesis
    using assms by (auto simp: recv_more_def acc_effect_def case_prod_unfold status_simps split: if_splits)
qed (use assms in \<open>auto simp: recv_more_def\<close>)

text \<open>Steps that leave the queue alone.\<close>

lemma acc_effect_plain:
  assumes "the_predictor (sh_state (snd c')) = the_predictor (sh_state (snd c))"
    and "acc_left (ac_pc (fst c')) \<longrightarrow> acc_left (ac_pc (fst c)) \<or> \<not> jr (sh_jobs (snd c))"
    and "sh_log (snd c') = sh_log (snd c) @ es" and "notifies es = []" and "sh_requests (snd c') = sh_requests (snd c)"
  shows "acc_effect c c'"
  using assms by (auto simp: acc_effect_def)

lemma finish_sent_effect:
  assumes "sh_log sh = sh_log sh0 @ es0" and "notifies es0 = []" and "sh_requests sh = sh_requests sh0"
    and "the_predictor (sh_state sh) = the_predictor (sh_state sh0)"
  shows "acc_effect (ac0, sh0) (finish_sent worker (we_jobs W) t k (ac, sh))"
proof (cases "emit_batch_start (iw_obs worker) t k :: ('s, 'o, 'e, unit) run")
  case (Pair es r)
  then have "notifies es = []" by (metis fst_conv notifies_emit(2))
  with assms Pair show ?thesis
    by (cases r)
      (auto simp: finish_sent_def acc_effect_def Let_def status_simps)
qed

lemma start_handoff_effect:
  shows "acc_effect (ac, sh) (start_handoff worker (we_requests W) (we_jobs W) b t (ac, sh))"
proof (cases "emit_queue_depth (iw_obs worker) (iw_worker_id worker)
    (mp_len (we_requests W) (sh_requests sh)) :: ('s, 'o, 'e, unit) run")
  case (Pair es r)
  then have es: "notifies es = []" by (metis fst_conv notifies_emit(1))
  show ?thesis
  proof (cases "r \<noteq> Panicked \<and> buffer_is_empty b")
    case True
    with Pair have eq: "start_handoff worker (we_requests W) (we_jobs W) b t (ac, sh) =
        finish_sent worker (we_jobs W) t (buffer_len b) (ac, log_effects es (store_worker Running sh))"
      by (cases r) (auto simp: start_handoff_def Let_def)
    show ?thesis
      using es unfolding eq
      by (intro finish_sent_effect [where ?es0.0 = "StoreWorker Running # es"]) (auto simp: status_simps)
  next
    case False
    with Pair es show ?thesis
      by (cases r)
        (auto simp: start_handoff_def acc_effect_def Let_def status_simps)
  qed
qed

lemma reserve_job_effect:
  assumes "reserve_job worker (we_jobs W) b t (ac, sh) = Some c'"
  shows "acc_effect (ac, sh) c'"
proof (cases "emit_queue_depth (iw_obs worker) (iw_worker_id worker) 0 :: ('s, 'o, 'e, unit) run")
  case (Pair es r)
  then have "notifies es = []" by (metis fst_conv notifies_emit(1))
  with assms Pair show ?thesis
    by (cases r)
      (auto simp: reserve_job_def job.reserve acc_effect_def Let_def status_simps split: if_splits)
qed

lemma send_job_effect:
  shows "acc_effect (ac, sh) (send_job worker (we_jobs W) b t (ac, sh))"
proof (cases "mp_permit_send (we_jobs W) b (sh_jobs sh)")
  case (Pair lost j)
  then have eq: "send_job worker (we_jobs W) b t (ac, sh) = finish_sent worker (we_jobs W) t (buffer_len b)
      (ac, log_effects (map Dropped (concat (map sender_buffer lost))) (sh\<lparr>sh_jobs := j\<rparr>))"
    by (simp add: send_job_def)
  show ?thesis
    unfolding eq
    by (intro finish_sent_effect [where ?es0.0 = "map Dropped (concat (map sender_buffer lost))"]) auto
qed

lemma notifies_crash [simp]: "notifies (send_errors_on_crash ss) = []"
  by (auto simp: send_errors_on_crash_def)

lemma drain_flush_effect:
  assumes "ac_pc ac = DrainFlush"
  shows "acc_effect (ac, sh) (drain_flush (we_requests W) (ac, sh))"
  using assms
  by (cases rule: req.poll_recv_cases [of "sh_requests sh"])
    (auto simp: drain_flush_def acc_effect_def swap_replace_def flush_buffer_def split_buffer_def status_simps)

lemma drain_handoff_effect:
  assumes "ac_pc ac = DrainHandoff b"
  shows "acc_effect (ac, sh) (drain_handoff worker (we_requests W) (we_jobs W) b (ac, sh))"
proof (cases "\<exists>m q. mp_poll_recv (we_requests W) (sh_requests sh) = (RecvMsg m, q)")
  case True
  with assms(1) show ?thesis by (auto simp: drain_handoff_def acc_effect_def)
next
  case False
  then obtain r where r: "mp_poll_recv (we_requests W) (sh_requests sh) = (r, sh_requests sh)" "\<And>m. r \<noteq> RecvMsg m"
    by (cases rule: req.poll_recv_cases [of "sh_requests sh"]) auto
  obtain es u where es: "emit_queue_depth (iw_obs worker) (iw_worker_id worker)
      (mp_len (we_requests W) (sh_requests sh)) = (es :: ('s, 'o, 'e) effect list, u :: unit unwind)"
    by fastforce
  then have "notifies es = []" by (metis fst_conv notifies_emit(1))
  with assms r es show ?thesis
    by (cases r; cases u)
      (auto simp: drain_handoff_def acc_effect_def flush_buffer_def split_buffer_def Let_def status_simps)
qed

lemma acc_step_effect:
  assumes "acc_step worker imax (we_requests W) (we_jobs W) c (ac, sh) = Some c'" and "qt (sh_requests sh)"
    and "ws_ok (sh_state sh)"
  shows "acc_effect (ac, sh) c'"
proof (cases c)
  case (AccRecv now)
  then show ?thesis
    using assms recv_first_effect recv_more_effect by (cases "ac_pc ac") auto
next
  case AccRun
  show ?thesis
  proof (cases "ac_pc ac")
    case (CheckAlive t)
    then show ?thesis
      using assms AccRun
      by (auto simp: check_predictor_alive_def get_predictor_state_eq swap_replace_def
          split: predictor_status.splits intro!: acc_effect_plain)
  next
    case (HavePermit b t)
    then show ?thesis
      using assms AccRun
      by (auto simp: use_permit_def get_predictor_state_eq split: if_splits intro!: acc_effect_plain)
  next
    case (AwaitPermit b t)
    with assms AccRun reserve_job_effect show ?thesis by auto
  next
    case (Handoff b t)
    with assms AccRun start_handoff_effect show ?thesis by auto
  next
    case (SendJob b t)
    with assms AccRun send_job_effect show ?thesis by auto
  next
    case DrainFlush
    with assms AccRun drain_flush_effect show ?thesis by auto
  next
    case (DrainHandoff b)
    with assms AccRun drain_handoff_effect show ?thesis by auto
  qed (use assms AccRun in simp_all)
next
  case AccDrop
  with assms show ?thesis
    by (cases "ac_pc ac") (auto simp: acc_drop_def acc_effect_def split: prod.splits)
qed (use assms in \<open>cases "ac_pc ac"; auto simp: job.receiver_gone split: if_splits intro!: acc_effect_plain\<close>)+

subsection \<open>The inference thread\<close>

text \<open>It notifies all whenever its worker stops or is ready again. Its stores replace one another as long
  as nobody else has stored \<open>Dead\<close>.\<close>

definition linked :: "('p, 'i, 's, 'f) inf_thread \<times> ('q, 'j, 's, 'o, 'e) worker_shared \<Rightarrow> bool" where
  "linked c \<longleftrightarrow> the_predictor (sh_state (snd c)) = thread_health (it_pc (fst c))
     \<and> thread_health (it_pc (fst c)) \<noteq> Dead \<and> jt (sh_jobs (snd c))"

definition inf_effect ::
  "('p, 'i, 's, 'f) inf_thread \<times> ('q, 'j, 's, 'o, 'e) worker_shared
     \<Rightarrow> ('p, 'i, 's, 'f) inf_thread \<times> ('q, 'j, 's, 'o, 'e) worker_shared \<Rightarrow> bool" where
  "inf_effect c c' \<longleftrightarrow>
     (linked c \<longrightarrow> the_predictor (sh_state (snd c')) = thread_health (it_pc (fst c')))
     \<and> (\<exists>es. sh_log (snd c') = sh_log (snd c) @ es \<and>
          (notifies es = [NotifyWaiters]
           \<or> notifies es = [] \<and> (linked c \<longrightarrow>
                thread_health (it_pc (fst c')) = thread_health (it_pc (fst c))
                \<or> thread_health (it_pc (fst c)) = Alive \<and> thread_health (it_pc (fst c')) = Rebuilding)))"

lemmas inf_effect_defs = inf_effect_def linked_def

lemma flush_batch_log:
  obtains es where "sh_log (flush_batch J sh) = sh_log sh @ es" "notifies es = []"
proof -
  have "\<exists>es. sh_log (flush_batch J sh) = sh_log sh @ es \<and> notifies es = []"
    by (auto simp: flush_batch_def split_buffer_def split: prod.splits recv_outcome.splits)
  then show thesis using that by blast
qed

lemma flush_batch_state [simp]: "sh_state (flush_batch J sh) = sh_state sh"
  by (auto simp: flush_batch_def split_buffer_def split: prod.splits recv_outcome.splits)

lemma notifies_panic_hook [simp]: "notifies (fst (emit_worker_panic obs)) = []"
  by (auto simp: notifies_def emit_defs filter_empty_conv split: option.splits)

lemma inf_receive_effect:
  assumes "inf_receive (we_jobs W) gone q (th, sh) = Some c'" and "it_pc th = InfWaiting q"
  shows "inf_effect (th, sh) c'"
proof (cases rule: job.poll_recv_cases [of "sh_jobs sh"])
  case (Msg b bs' j)
  with assms show ?thesis
    by (cases "filter_canceled gone b")
      (auto simp: inf_receive_def inf_effect_defs Let_def split_buffer_def status_simps)
qed (use assms in \<open>auto simp: inf_receive_def inf_effect_defs\<close>)

lemma inf_predict_effect:
  assumes "it_pc th = InfPredicting q ins ss"
  shows "inf_effect (th, sh) (inf_predict args latency q ins ss (th, sh))"
proof (cases "predict_on_batch (ia_predict_batch args) latency q ins")
  case (Returned out)
  obtain m res q' where out: "out = ((m, res), q')"
    by (metis surj_pair)
  obtain es r where es: "send_output res ss m (ia_obs args) = (es, r :: unit unwind)"
    by fastforce
  then have "notifies es = []" by (metis fst_conv notifies_emit(3))
  with assms Returned out es show ?thesis
    by (cases r) (auto simp: inf_predict_def inf_effect_defs status_simps)
qed (use assms in \<open>auto simp: inf_predict_def inf_effect_defs status_simps\<close>)

lemma inf_handle_panic_effect:
  assumes "it_pc th = InfCrashing q ss"
  shows "inf_effect (th, sh) (inf_handle_panic args (we_jobs W) ss (th, sh))"
proof (cases "emit_worker_panic (ia_obs args) :: ('s, 'o, 'e, unit) run")
  case (Pair es r)
  then have es: "notifies es = []" by (metis fst_conv notifies_panic_hook)
  obtain es' where "sh_log (flush_batch (we_jobs W) (log_effects (send_errors_on_crash ss) (log_effects es sh))) =
      sh_log sh @ es @ send_errors_on_crash ss @ es'" "notifies es' = []"
    by (rule flush_batch_log [of "we_jobs W" "log_effects (send_errors_on_crash ss) (log_effects es sh)"]) auto
  with assms Pair es show ?thesis
    by (cases r) (auto simp: inf_handle_panic_def inf_effect_defs Let_def status_simps)
qed

lemma inf_step_effect:
  assumes "inf_step (we_args W) (we_jobs W) d (th, sh) = Some c'" and "it_pc th \<noteq> InfStarting"
  shows "inf_effect (th, sh) c'"
proof (cases d)
  case (InfReceive gone)
  with assms inf_receive_effect [of gone _ th sh c'] show ?thesis by (cases "it_pc th") auto
next
  case (InfPredict latency)
  with assms inf_predict_effect show ?thesis by (cases "it_pc th") auto
next
  case InfHandlePanic
  with assms inf_handle_panic_effect show ?thesis by (cases "it_pc th") auto
next
  case (InfRebuild closes)
  with assms show ?thesis
    by (cases "it_pc th") (auto simp: inf_rebuild_def inf_effect_defs Let_def status_simps split: prod.splits sum.splits)
next
  case InfFlush
  obtain es where "sh_log (flush_batch (we_jobs W) sh) = sh_log sh @ es" "notifies es = []"
    by (rule flush_batch_log)
  with assms InfFlush show ?thesis
    by (cases "it_pc th") (auto simp: inf_effect_defs)
next
  case InfDrop
  with assms show ?thesis
    by (cases "it_pc th") (auto simp: inf_drop_def inf_effect_defs split: prod.splits)
qed (use assms in \<open>cases "it_pc th"; auto simp: inf_effect_defs status_simps\<close>)+

lemma inf_started_alive:
  fixes sh :: "('q, 'j, 's, 'o, 'e) worker_shared"
  assumes "inf_step (we_args W) (we_jobs W) d (th, sh) = Some c'" and "it_pc th = InfStarting" and "it_ack th = None"
    and "it_ack (fst c') = Some (Inr ())"
  shows "thread_health (it_pc (fst c')) = Alive \<and> sh_state (snd c') = sh_state sh"
  using inf_start_fine(2) [OF assms] by (cases "it_pc (fst c')") auto

subsection \<open>The worker\<close>

definition sane :: "('i, 's, 'p, 'f, 'q, 'j, 'o, 'e) worker_sys \<Rightarrow> bool" where
  "sane s \<longleftrightarrow>
     (qt (sh_requests (wk_shared s)) \<and> (it_pc (wk_inf s) = InfStarting \<or> started s) \<longrightarrow>
        worker_health s = Dead
        \<or> worker_health s = thread_health (it_pc (wk_inf s)) \<and> \<not> acc_left (ac_pc (wk_acc s)))"

text \<open>Whether the worker will still notify somebody by itself.\<close>

definition tells :: "('i, 's, 'p, 'f, 'q, 'j, 'o, 'e) worker_sys \<Rightarrow> bool" where
  "tells s \<longleftrightarrow> worker_health s = Rebuilding
     \<or> worker_health s = Alive \<and> qi (sh_requests (wk_shared s)) \<noteq> []"

definition worker_change ::
  "('i, 's, 'p, 'f, 'q, 'j, 'o, 'e) worker_sys \<Rightarrow> ('i, 's, 'p, 'f, 'q, 'j, 'o, 'e) worker_sys \<Rightarrow> bool" where
  "worker_change s t \<longleftrightarrow>
     (worker_health s = Dead \<longrightarrow> worker_health t = Dead)
     \<and> (notifies_all (new_log s t)
        \<or> notifies (new_log s t) = [NotifyOne] \<and> worker_health t = worker_health s
        \<or> notifies (new_log s t) = [] \<and> (tells s \<longrightarrow> tells t)
            \<and> (worker_health t = worker_health s \<or> worker_health s = Alive \<and> worker_health t = Rebuilding))"

lemma sane_start: "worker_start W cfg queue_sz s \<Longrightarrow> sane s"
  by (auto simp: worker_start_def new_worker_sys_def sane_def worker_health_def new_inf_thread_def new_acc_task_def
      status_simps)

lemma acc_step_sane:
  assumes "worker_reach W cfg queue_sz s" and "sane s"
    and "acc_step (we_worker W) (we_imax W) (we_requests W) (we_jobs W) c (wk_acc s, wk_shared s) = Some (ac, sh)"
  defines "t \<equiv> s\<lparr>wk_acc := ac, wk_shared := sh\<rparr>"
  shows "sane t"
    and "qt (sh_requests (wk_shared s)) \<Longrightarrow> started s \<Longrightarrow> \<not> late_drain s t \<Longrightarrow> worker_change s t"
proof -
  have inv: "sys_inv s" and ok: "ws_ok (sh_state (wk_shared s))"
    using assms(1) reach_sys_inv reached_ws_ok by auto
  have open_t: "qt (sh_requests sh) = qt (sh_requests (wk_shared s))"
    by (rule acc_step_open [OF assms(3)])
  note eff = acc_step_effect [OF assms(3) _ ok]
  have gone: "jr (sh_jobs (wk_shared s)) \<or> thread_health (it_pc (wk_inf s)) = Dead"
    using sys_inv_open(3) [OF inv] by (auto simp: inf_gone_Dead)
  show "sane t"
    using assms(2) eff gone open_t by (auto simp: sane_def t_def worker_health_def started_def acc_effect_def)
  assume sv: "qt (sh_requests (wk_shared s))" "started s" and late: "\<not> late_drain s t"
  then have left: "acc_left (ac_pc (wk_acc s)) \<Longrightarrow> worker_health s = Dead"
    using assms(2) by (auto simp: sane_def)
  from eff [OF sv(1)] consider (dies) "worker_health t = Dead" "notifies_all (new_log s t)"
    | (goes) "worker_health t = worker_health s"
        "notifies (new_log s t) = [NotifyOne] \<or> notifies (new_log s t) = [] \<and> (sh_requests sh = sh_requests (wk_shared s)
          \<or> acc_left (ac_pc (wk_acc s)) \<or> draining (ac_pc (wk_acc s)) \<and> ac \<noteq> wk_acc s)"
    by (auto simp: acc_effect_def new_log_def t_def worker_health_def)
  then show "worker_change s t"
  proof cases
    case goes
    have "tells s \<longrightarrow> tells t" if "notifies (new_log s t) = []"
      using goes that late left ok
      by (auto simp: tells_def late_drain_def t_def worker_health_def get_predictor_state_eq)
    with goes show ?thesis by (auto simp: worker_change_def)
  qed (simp add: worker_change_def)
qed

lemma inf_step_sane:
  assumes "worker_reach W cfg queue_sz s" and "sane s"
    and "inf_step (we_args W) (we_jobs W) d (wk_inf s, wk_shared s) = Some (th, sh)"
  defines "t \<equiv> s\<lparr>wk_inf := th, wk_shared := sh\<rparr>"
  assumes "\<not> dead_replaced s t"
  shows "sane t"
    and "qt (sh_requests (wk_shared s)) \<Longrightarrow> started s \<Longrightarrow> worker_change s t"
proof -
  have inv: "sys_inv s" "health_inv s" and ok: "ws_ok (sh_state (wk_shared s))"
    using assms(1) reach_sys_inv reached_health reached_ws_ok by auto
  have req: "sh_requests sh = sh_requests (wk_shared s)"
    by (rule inf_step_requests [OF inv(1) assms(3)])
  have "own_step W s t"
    unfolding t_def by (rule own_step_inf [OF assms(3)])
  then have "worker_reach W cfg queue_sz t"
    using assms(1) own_step_worker_step by (blast intro: reach_step)
  then have dead: "worker_health s = Dead \<Longrightarrow> worker_health t = Dead"
    using assms(5) ok reached_ws_ok by (auto simp: dead_replaced_def worker_health_def get_predictor_state_eq)
  note eff = inf_step_effect [OF assms(3)]
  have linked: "linked (wk_inf s, wk_shared s)" "worker_health s = thread_health (it_pc (wk_inf s))"
    if "worker_health s \<noteq> Dead" "qt (sh_requests (wk_shared s))" "started s"
    using that assms(2) sys_inv_open(1) [OF inv(1)] by (auto simp: linked_def sane_def worker_health_def)
  show "sane t"
  proof (cases "it_pc (wk_inf s) = InfStarting")
    case True
    then have ack: "it_ack (wk_inf s) = None"
      using inv(2) by (simp add: health_inv_def)
    note first = inf_start_fine(1) [OF assms(3) True ack] inf_started_alive [OF assms(3) True ack]
    show ?thesis
      using assms(2) req True first by (auto simp: sane_def t_def worker_health_def started_def)
  next
    case False
    note ack = inf_step_ack [OF assms(3) False]
    show ?thesis
      unfolding sane_def
    proof (intro impI)
      assume "qt (sh_requests (wk_shared t)) \<and> (it_pc (wk_inf t) = InfStarting \<or> started t)"
      then have sv: "qt (sh_requests (wk_shared s))" "started s"
        using ack req by (auto simp: t_def started_def)
      show "worker_health t = Dead
          \<or> worker_health t = thread_health (it_pc (wk_inf t)) \<and> \<not> acc_left (ac_pc (wk_acc t))"
      proof (cases "worker_health s = Dead")
        case alive: False
        have "\<not> acc_left (ac_pc (wk_acc s))"
          using alive sv assms(2) by (auto simp: sane_def)
        with eff [OF False] linked [OF alive sv] show ?thesis
          by (auto simp: t_def worker_health_def inf_effect_def)
      qed (simp add: dead)
    qed
  qed
  assume sv: "qt (sh_requests (wk_shared s))" "started s"
  then have "it_pc (wk_inf s) \<noteq> InfStarting"
    using inv(2) by (auto simp: health_inv_def started_def)
  note eff = eff [OF this]
  show "worker_change s t"
  proof (cases "worker_health s = Dead")
    case True
    with eff dead show ?thesis
      by (auto simp: inf_effect_def worker_change_def new_log_def t_def tells_def notifies_all_def)
  next
    case False
    with eff linked [OF False sv] req show ?thesis
      by (auto simp: inf_effect_def worker_change_def new_log_def t_def worker_health_def tells_def notifies_all_def)
  qed
qed

text \<open>What the router reads of such a worker.\<close>

lemma sane_reads:
  assumes "worker_reach W cfg queue_sz s" and "sane s" and "qt (sh_requests (wk_shared s))" and "started s"
  shows "the_status (sh_state (wk_shared s)) = Waiting \<or> the_status (sh_state (wk_shared s)) = Running \<or> worker_health s = Dead"
    and "qr (sh_requests (wk_shared s)) \<or> worker_health s = Dead"
proof -
  have inv: "sys_inv s" using assms(1) by (rule reach_sys_inv)
  have left: "acc_left (ac_pc (wk_acc s)) \<Longrightarrow> worker_health s = Dead"
    using assms(2-4) by (auto simp: sane_def)
  show "the_status (sh_state (wk_shared s)) = Waiting \<or> the_status (sh_state (wk_shared s)) = Running \<or> worker_health s = Dead"
    using inv left by (cases "ac_pc (wk_acc s)") (auto simp: sys_inv_def good_defs)
  show "qr (sh_requests (wk_shared s)) \<or> worker_health s = Dead"
    using sys_inv_open(2) [OF inv] left by (cases "ac_pc (wk_acc s)") auto
qed

text \<open>Where it cannot move it has nothing left to tell.\<close>

lemma stuck_tells_nothing:
  assumes "worker_reach W cfg queue_sz s" and "sane s" and "qt (sh_requests (wk_shared s))" and "started s"
    and "\<And>t. \<not> own_step W s t"
  shows "\<not> tells s"
proof -
  have acc: "acc_step (we_worker W) (we_imax W) (we_requests W) (we_jobs W) c (wk_acc s, wk_shared s) = None" for c
    using assms(5) own_step_acc [of W c s]
    by (cases "acc_step (we_worker W) (we_imax W) (we_requests W) (we_jobs W) c (wk_acc s, wk_shared s)") auto
  have inf: "inf_step (we_args W) (we_jobs W) d (wk_inf s, wk_shared s) = None" for d
    using assms(5) own_step_inf [of W d s]
    by (cases "inf_step (we_args W) (we_jobs W) d (wk_inf s, wk_shared s)") auto
  have inv: "sys_inv s" using assms(1) by (rule reach_sys_inv)
  then have good: "good (set (wk_accepted s)) (wk_acc s, wk_shared s)" by (simp add: sys_inv_def)
  show ?thesis
  proof
    assume tells: "tells s"
    then have "worker_health s = thread_health (it_pc (wk_inf s))" "\<not> acc_left (ac_pc (wk_acc s))"
      using assms(2-4) by (auto simp: sane_def tells_def)
    with inf_can_move [OF inf] acc_can_move [OF good acc] tells show False
      by (auto simp: tells_def)
  qed
qed

end

end
