(* ===== verification/Route_Recovery.thy ===== *)
theory Route_Recovery
  imports Pool_Wakeup Worker_Recovery
begin

text \<open>
  Calls among workers that fail and recover: what a search of the router knows of the workers, what one
  access does to it, and when a call that sleeps is remembered. A call that has registered and goes to
  sleep leaves behind a worker that will still notify (\<open>remembered\<close>): one that holds a request, or one
  that is being rebuilt. A notification given away wakes a call that helps: it holds the notification,
  or searches on without having passed by a worker that is ready again (\<open>fresh\<close>) and with a worker that
  lives still ahead of it (\<open>hopeful\<close>). The health of the workers is a function \<open>h\<close> here, so the lemmas
  speak of any pool.
\<close>

subsection \<open>A search among workers that fail and recover\<close>

text \<open>\<open>h\<close> is the health of each worker. A search is undecided as long as it has met neither a full
  queue nor a rebuild in its last pass.\<close>

fun undecided :: "route_place \<Rightarrow> bool" where
  "undecided (Second k live rb) \<longleftrightarrow> \<not> live \<and> \<not> rb"
| "undecided _ \<longleftrightarrow> True"

fun decided :: "('m, 'e) route_pc \<Rightarrow> bool" where
  "decided (Check msg place sink) \<longleftrightarrow> \<not> undecided place"
| "decided (CheckByte msg place sink word) \<longleftrightarrow> \<not> undecided place"
| "decided (Recheck msg place sink) \<longleftrightarrow> \<not> undecided place"
| "decided (RecheckByte msg place sink word) \<longleftrightarrow> \<not> undecided place"
| "decided (Router_Steps.Push msg place sink) \<longleftrightarrow> \<not> undecided place"
| "decided (PushByte msg place sink word) \<longleftrightarrow> \<not> undecided place"
| "decided (Send msg place sink) \<longleftrightarrow> \<not> undecided place"
| "decided (Routed (Inl (msg, e))) \<longleftrightarrow> e = QueueFullError"
| "decided _ \<longleftrightarrow> False"

text \<open>What a search knows is still so: a worker it is about to push to lives, and a worker it looks at
  again has not become ready since.\<close>

fun fresh :: "(nat \<Rightarrow> predictor_status) \<Rightarrow> ('m, 'e) route_pc \<Rightarrow> bool" where
  "fresh h (Recheck msg place sink) \<longleftrightarrow> h sink \<noteq> Alive"
| "fresh h (RecheckByte msg place sink word) \<longleftrightarrow> h sink \<noteq> Alive"
| "fresh h (Router_Steps.Push msg place sink) \<longleftrightarrow> h sink \<noteq> Dead"
| "fresh h (PushByte msg place sink word) \<longleftrightarrow> h sink \<noteq> Dead"
| "fresh h (Send msg place sink) \<longleftrightarrow> h sink \<noteq> Dead"
| "fresh h _ \<longleftrightarrow> True"

text \<open>A status word that shows an ended worker was read from one.\<close>

fun words_true :: "(nat \<Rightarrow> predictor_status) \<Rightarrow> ('m, 'e) route_pc \<Rightarrow> bool" where
  "words_true h (CheckByte msg place sink word) \<longleftrightarrow> word_live word \<or> h sink = Dead"
| "words_true h (PushByte msg place sink word) \<longleftrightarrow> word_live word \<or> h sink = Dead"
| "words_true h _ \<longleftrightarrow> True"

text \<open>A worker that lives is among those the search has not passed.\<close>

fun hope :: "(nat \<Rightarrow> predictor_status) \<Rightarrow> nat \<Rightarrow> route_place \<Rightarrow> nat \<Rightarrow> bool" where
  "hope h n Only sink \<longleftrightarrow> h sink \<noteq> Dead"
| "hope h n (First k) sink \<longleftrightarrow> (\<exists>i < n. h i \<noteq> Dead)"
| "hope h n (Second k live rb) sink \<longleftrightarrow> (\<exists>d \<le> k. h ((sink + d) mod n) \<noteq> Dead)"

fun hopeful :: "(nat \<Rightarrow> predictor_status) \<Rightarrow> nat \<Rightarrow> ('m, 'e) route_pc \<Rightarrow> bool" where
  "hopeful h n (Check msg place sink) \<longleftrightarrow> undecided place \<and> hope h n place sink"
| "hopeful h n (CheckByte msg place sink word) \<longleftrightarrow> undecided place \<and> hope h n place sink"
| "hopeful h n (Recheck msg place sink) \<longleftrightarrow> undecided place \<and> hope h n place sink"
| "hopeful h n (RecheckByte msg place sink word) \<longleftrightarrow> undecided place \<and> hope h n place sink"
| "hopeful h n (Router_Steps.Push msg place sink) \<longleftrightarrow> undecided place \<and> hope h n place sink"
| "hopeful h n (PushByte msg place sink word) \<longleftrightarrow> undecided place \<and> hope h n place sink"
| "hopeful h n (Send msg place sink) \<longleftrightarrow> undecided place \<and> hope h n place sink"
| "hopeful h n _ \<longleftrightarrow> False"

text \<open>Going on to the next worker.\<close>

lemma ring_ahead:
  fixes i n sink :: nat
  assumes "i < n" and "h i \<noteq> Dead" and "sink < n"
  shows "\<exists>d \<le> n - 1. h ((sink + d) mod n) \<noteq> Dead"
proof (intro exI conjI)
  have "(sink + (i + n - sink) mod n) mod n = (sink + (i + n - sink)) mod n"
    by (rule mod_add_right_eq)
  also have "\<dots> = i" using assms(1,3) by simp
  finally show "h ((sink + (i + n - sink) mod n) mod n) \<noteq> Dead" using assms(2) by simp
  show "(i + n - sink) mod n \<le> n - 1"
    using assms(1) by (metis Suc_pred' le_simps(2) less_nat_zero_code mod_less_divisor neq0_conv)
qed

lemma hope_next_first:
  assumes "\<exists>i < n. h i \<noteq> Dead"
  shows "hopeful h n (route_next n m (First k) sink)"
proof (cases k)
  case 0
  obtain i where i: "i < n" "h i \<noteq> Dead" using assms by blast
  then have "(sink + 1) mod n < n" by simp
  from ring_ahead [of i n h, OF i this] 0 show ?thesis by simp
qed (use assms in simp)

lemma hope_next_second:
  assumes "h sink = Dead" and "sink < n" and "\<exists>d \<le> k. h ((sink + d) mod n) \<noteq> Dead"
  shows "hopeful h n (route_next n m (Second k False False) sink)"
proof -
  obtain d where d: "d \<le> k" "h ((sink + d) mod n) \<noteq> Dead" using assms(3) by blast
  then have "d \<noteq> 0" using assms(1,2) by (metis add.right_neutral mod_less)
  then obtain d' where d': "d = Suc d'" by (cases d) auto
  with d obtain k' where k: "k = Suc k'" by (cases k) auto
  have "((sink + 1) mod n + d') mod n = (sink + d) mod n"
    unfolding d' by (simp add: mod_add_left_eq)
  with d d' k show ?thesis by auto
qed

lemma next_known [simp]:
  "fresh h (route_next n m place sink)" "words_true h (route_next n m place sink)"
  by (cases "(n, m, place, sink)" rule: route_next.cases; simp)+

lemma rejected_known [simp]: "words_true h (route_rejected n m place sink)"
  by (cases place) simp_all

lemma rechecked_known [simp]:
  "words_true h (route_rechecked n rb m place sink)" "fresh h (route_rechecked n rb m place sink)"
  by (cases place; simp)+

lemma pushed_known [simp]:
  "words_true h (route_pushed n place sink r)" "fresh h (route_pushed n place sink r)"
  by (cases r; cases place; simp)+

lemma decided_next [simp]:
  "decided (route_next n m (Second k live rb) sink) \<longleftrightarrow> live \<or> rb"
  "\<not> decided (route_next n m (First k) sink)" "\<not> decided (route_next n m Only sink)"
  by (cases k; auto simp: route_verdict_def)+

subsection \<open>One access of the router\<close>

context worker_model
begin

text \<open>The queue only grows.\<close>

lemma access_keeps:
  assumes "route_step (we_requests W) n (worker_view s) pc = (pc', w)"
  shows "tells s \<Longrightarrow> tells (worker_after (route_sent pc pc') w s)"
    and "worker_health (worker_after (route_sent pc pc') w s) = worker_health s"
proof -
  have "qi (sh_requests (wk_shared s)) \<noteq> [] \<Longrightarrow> qi (wr_queue w) \<noteq> []"
  proof (cases pc)
    case (Send m place sink)
    then show "qi (sh_requests (wk_shared s)) \<noteq> [] \<Longrightarrow> qi (wr_queue w) \<noteq> []"
      using assms by (cases rule: req.try_send_cases [of "sh_requests (wk_shared s)" m]) (auto simp: worker_view_def)
  qed (use assms in \<open>auto simp: worker_view_def split: option.splits if_splits\<close>)
  then show "tells s \<Longrightarrow> tells (worker_after (route_sent pc pc') w s)"
    by (auto simp: tells_def worker_after_def worker_health_def)
qed (simp add: worker_after_def worker_health_def)

lemma access_known:
  assumes "worker_reach W cfg queue_sz s" and "sane s" and "qt (sh_requests (wk_shared s))" and "started s"
    and "h i = worker_health s" and "route_target pc = Some i"
    and "route_step (we_requests W) n (worker_view s) pc = (pc', w)" and "words_true h pc"
  shows "words_true h pc'" and "fresh h pc \<Longrightarrow> fresh h pc'"
proof -
  note reads = sane_reads [OF assms(1-4)] worker_health_def [of s]
  have ok: "ws_ok (sh_state (wk_shared s))" by (rule reached_ws_ok [OF assms(1)])
  have live: "word_live (ws_word (sh_state (wk_shared s))) \<or> worker_health s = Dead"
    using reads(1) by (auto simp: word_live_def the_status_def)
  have "words_true h pc' \<and> (fresh h pc \<longrightarrow> fresh h pc')"
  proof (cases pc)
    case (CheckByte m place sink word)
    then show ?thesis
      using assms(5-8) ok reads(3)
      by (cases place)
        (auto simp: worker_view_def read_snapshot_eq accepts_primary_def accepts_secondary_def word_live_def split: if_splits)
  next
    case (Send m place sink)
    with assms(7) show ?thesis
      by (auto split: prod.splits)
  qed (use assms(5-8) live ok in \<open>auto simp: worker_view_def read_snapshot_eq split: if_splits\<close>)
  then show "words_true h pc'" and "fresh h pc \<Longrightarrow> fresh h pc'" by simp_all
qed

text \<open>\<open>told\<close>: the worker of this access will notify somebody.\<close>

lemma access_tells:
  assumes "worker_reach W cfg queue_sz s" and "sane s" and "qt (sh_requests (wk_shared s))" and "started s"
    and "h i = worker_health s" and "route_target pc = Some i" and "i < n"
    and "route_step (we_requests W) n (worker_view s) pc = (pc', w)" and "words_true h pc" and "fresh h pc"
  defines "told \<equiv> tells (worker_after (route_sent pc pc') w s)"
  shows "decided pc' \<Longrightarrow> decided pc \<or> told"
    and "hopeful h n pc \<Longrightarrow> hopeful h n pc' \<or> told"
proof -
  note reads = sane_reads [OF assms(1-4)] worker_health_def [of s]
  have ok: "ws_ok (sh_state (wk_shared s))" by (rule reached_ws_ok [OF assms(1)])
  have cap: "0 < qc (sh_requests (wk_shared s))"
    using reached_capacity [OF assms(1)] queue_pos by simp
  have told: "told \<longleftrightarrow> h i = Rebuilding \<or> h i = Alive \<and> qi (wr_queue w) \<noteq> []"
    by (simp add: told_def tells_def worker_after_def worker_health_def assms(5))
  have "(decided pc' \<longrightarrow> decided pc \<or> told) \<and> (hopeful h n pc \<longrightarrow> hopeful h n pc' \<or> told)"
  proof (cases pc)
    case (Send m place sink)
    then have i: "sink = i" "h i \<noteq> Dead" using assms(6,10) by simp_all
    then have "qr (sh_requests (wk_shared s))" using reads(2) assms(5) by auto
    then have "qi (wr_queue w) \<noteq> []"
      using assms(8) cap Send by (cases rule: req.try_send_cases [of "sh_requests (wk_shared s)" m]) (auto simp: worker_view_def)
    then have told by (cases "h i") (use told i in auto)
    then show ?thesis by simp
  next
    case (Check m place sink)
    with assms(5,8) told show ?thesis by (auto simp: worker_view_def)
  next
    case (Recheck m place sink)
    with assms(5,8) told show ?thesis by (auto simp: worker_view_def)
  next
    case (Push m place sink)
    with assms(5,8) told show ?thesis by (auto simp: worker_view_def)
  next
    case (CheckByte m place sink word)
    then have i: "sink = i" using assms(6) by simp
    show ?thesis
    proof (cases place)
      case (First k)
      with CheckByte i assms(5,8) told ok reads(3) hope_next_first [of n h m k i] show ?thesis
        by (auto simp: worker_view_def read_snapshot_eq split: if_splits)
    qed (use CheckByte i assms(5,8) told ok reads(3) in \<open>auto simp: worker_view_def read_snapshot_eq split: if_splits\<close>)
  next
    case (RecheckByte m place sink word)
    then have i: "sink = i" "h i \<noteq> Alive" using assms(6,10) by simp_all
    have w: "qi (wr_queue w) = qi (sh_requests (wk_shared s))" "pc' = route_rechecked n (h i = Rebuilding) m place i"
      using RecheckByte assms(5,8) ok reads(3) i by (auto simp: worker_view_def read_snapshot_eq snap_rebuilding_def)
    show ?thesis
    proof (cases "h i = Rebuilding")
      case True
      then have told using told by simp
      then show ?thesis by simp
    next
      case False
      then have dead: "h i = Dead" using i(2) by (cases "h i") auto
      show ?thesis
      proof (cases place)
        case (Second k live rb)
        with RecheckByte i w dead hope_next_second [of h i n k m] assms(7) show ?thesis
          by (cases live; cases rb) (auto simp del: route_next.simps)
      qed (use RecheckByte i w dead hope_next_first [of n h m _ i] in \<open>auto simp del: route_next.simps\<close>)
    qed
  next
    case (PushByte m place sink word)
    then have i: "sink = i" "h i \<noteq> Dead" using assms(6,10) by simp_all
    with PushByte assms(5,8,9) told ok reads(3) show ?thesis
      by (auto simp: worker_view_def read_snapshot_eq word_live_def split: if_splits)
  qed (use assms(6) in simp_all)
  then show "decided pc' \<Longrightarrow> decided pc \<or> told"
    and "hopeful h n pc \<Longrightarrow> hopeful h n pc' \<or> told"
    by blast+
qed

end

subsection \<open>Awake and asleep\<close>

fun call_waits :: "('m, 'o, 'e) caller_pc \<Rightarrow> bool" where
  "call_waits (CallRouting reg pc) \<longleftrightarrow> reg \<and> decided pc"
| "call_waits CallAsleep \<longleftrightarrow> True"
| "call_waits _ \<longleftrightarrow> False"

fun call_helps :: "(nat \<Rightarrow> predictor_status) \<Rightarrow> nat \<Rightarrow> ('m, 'o, 'e) caller_pc \<Rightarrow> bool" where
  "call_helps h n (CallBegin reg) \<longleftrightarrow> True"
| "call_helps h n (CallRouting reg pc) \<longleftrightarrow> fresh h pc \<and> hopeful h n pc"
| "call_helps h n CallRegister \<longleftrightarrow> True"
| "call_helps h n _ \<longleftrightarrow> False"

fun call_fresh :: "(nat \<Rightarrow> predictor_status) \<Rightarrow> ('m, 'o, 'e) caller_pc \<Rightarrow> bool" where
  "call_fresh h (CallRouting reg pc) \<longleftrightarrow> fresh h pc"
| "call_fresh h _ \<longleftrightarrow> True"

fun call_words :: "(nat \<Rightarrow> predictor_status) \<Rightarrow> ('m, 'o, 'e) caller_pc \<Rightarrow> bool" where
  "call_words h (CallRouting reg pc) \<longleftrightarrow> words_true h pc"
| "call_words h _ \<longleftrightarrow> True"

text \<open>Some call waits whose future is not notified.\<close>

definition sleeper :: "(nat \<Rightarrow> notified option) \<Rightarrow> ('m, 'o, 'e) caller_pc list \<Rightarrow> bool" where
  "sleeper f pcs \<longleftrightarrow> (\<exists>k < length pcs. call_waits (pcs ! k) \<and> f k = Some Armed)"

definition helper ::
  "(nat \<Rightarrow> predictor_status) \<Rightarrow> nat \<Rightarrow> (nat \<Rightarrow> notified option) \<Rightarrow> ('m, 'o, 'e) caller_pc list \<Rightarrow> bool" where
  "helper h n f pcs \<longleftrightarrow> (\<exists>k < length pcs. call_helps h n (pcs ! k) \<or> f k = Some WokenOne)"

text \<open>\<open>told\<close> says that a worker will notify somebody.\<close>

definition remembered ::
  "(nat \<Rightarrow> predictor_status) \<Rightarrow> nat \<Rightarrow> (nat \<Rightarrow> notified option) \<Rightarrow> ('m, 'o, 'e) caller_pc list \<Rightarrow> bool \<Rightarrow> bool" where
  "remembered h n f pcs told \<longleftrightarrow> (sleeper f pcs \<longrightarrow> (\<exists>i < n. h i \<noteq> Dead) \<and> (told \<or> helper h n f pcs))"

definition calls_known ::
  "(nat \<Rightarrow> predictor_status) \<Rightarrow> (nat \<Rightarrow> notified option) \<Rightarrow> ('m, 'o, 'e) caller_pc list \<Rightarrow> bool" where
  "calls_known h f pcs \<longleftrightarrow>
     (\<forall>k < length pcs. call_words h (pcs ! k) \<and> (f k = Some Armed \<longrightarrow> call_fresh h (pcs ! k)))"

lemma sleeper_update:
  assumes "sleeper f (pcs[k := pc])" and "k < length pcs"
  obtains "call_waits pc" "f k = Some Armed" | "sleeper f pcs"
proof -
  obtain j where j: "j < length pcs" "call_waits (pcs[k := pc] ! j)" "f j = Some Armed"
    using assms(1) by (auto simp: sleeper_def)
  show thesis
    using j that by (cases "j = k") (auto simp: sleeper_def)
qed

lemma helper_update:
  assumes "helper h n f pcs" and "k < length pcs" and "call_helps h n (pcs ! k) \<Longrightarrow> call_helps h n pc \<or> b"
  shows "helper h n f (pcs[k := pc]) \<or> b"
proof -
  obtain j where j: "j < length pcs" "call_helps h n (pcs ! j) \<or> f j = Some WokenOne"
    using assms(1) by (auto simp: helper_def)
  show ?thesis
  proof (cases "j = k")
    case True
    with j assms(2,3) show ?thesis by (auto simp: helper_def intro: exI [of _ k])
  next
    case False
    with j show ?thesis by (auto simp: helper_def intro!: exI [of _ j])
  qed
qed

text \<open>A call moves on.\<close>

lemma remembered_move:
  assumes "remembered h n f pcs told" and "k < length pcs"
    and "told' \<Longrightarrow> \<exists>i < n. h i \<noteq> Dead" and "told \<Longrightarrow> told'"
    and "call_waits pc \<Longrightarrow> f k = Some Armed \<Longrightarrow> call_waits (pcs ! k) \<or> told'"
    and "call_helps h n (pcs ! k) \<Longrightarrow> \<exists>i < n. h i \<noteq> Dead \<Longrightarrow> call_helps h n pc \<or> told'"
  shows "remembered h n f (pcs[k := pc]) told'"
  unfolding remembered_def
proof (intro impI)
  assume "sleeper f (pcs[k := pc])"
  then have "sleeper f pcs \<or> told'"
    using assms(2,5) by (cases rule: sleeper_update [OF _ assms(2)]) (auto simp: sleeper_def)
  then show "(\<exists>i < n. h i \<noteq> Dead) \<and> (told' \<or> helper h n f (pcs[k := pc]))"
  proof
    assume "sleeper f pcs"
    with assms(1) have live: "\<exists>i < n. h i \<noteq> Dead" and "told \<or> helper h n f pcs"
      by (auto simp: remembered_def)
    then show ?thesis
      using assms(4) helper_update [OF _ assms(2) assms(6) [OF _ live]] by blast
  qed (use assms(3) in simp)
qed

text \<open>A call that has become a helper, one that is notified, and no one waiting.\<close>

lemma remembered_helper:
  assumes "remembered h n f0 pcs told" and "sleeper f (pcs[k := pc]) \<Longrightarrow> sleeper f0 pcs" and "k < length pcs"
    and "\<exists>i < n. h i \<noteq> Dead \<Longrightarrow> call_helps h n pc"
  shows "remembered h n f (pcs[k := pc]) told'"
  unfolding remembered_def
proof (intro impI conjI)
  assume "sleeper f (pcs[k := pc])"
  then show live: "\<exists>i < n. h i \<noteq> Dead"
    using assms(1,2) by (simp add: remembered_def)
  from assms(3) assms(4) [OF live] show "told' \<or> helper h n f (pcs[k := pc])"
    by (auto simp: helper_def intro!: exI [of _ k])
qed

lemma remembered_notify:
  assumes "wakes_one (b, f) (b', f')" and "reg_ok f' pcs" and "sleeper f pcs \<Longrightarrow> \<exists>i < n. h i \<noteq> Dead"
  shows "remembered h n f' pcs told"
proof (cases "\<exists>c. f c = Some Armed")
  case True
  then obtain c where c: "f' = f(c \<mapsto> WokenOne)"
    using assms(1) by (auto simp: wakes_one_def)
  then have "c < length pcs"
    using assms(2) by (auto simp: reg_ok_def dest: spec [of _ c])
  then have "helper h n f' pcs"
    using c by (auto simp: helper_def intro!: exI [of _ c])
  moreover have "sleeper f' pcs \<Longrightarrow> sleeper f pcs"
    using c by (auto simp: sleeper_def split: if_splits)
  ultimately show ?thesis
    using assms(3) by (auto simp: remembered_def)
next
  case False
  then have "f' = f" using assms(1) by (simp add: wakes_one_def)
  with False show ?thesis by (simp add: remembered_def sleeper_def)
qed

lemma remembered_awake: "(\<And>k. f k \<noteq> Some Armed) \<Longrightarrow> remembered h n f pcs told"
  by (simp add: remembered_def sleeper_def)

lemma remembered_drop:
  assumes "notify_signal N permit fut" and "remembered h n (fut s) pcs told" and "k < length pcs"
    and "\<not> call_waits pc" and "\<not> call_helps h n (pcs ! k)" and "reg_ok (fut (nt_drop N k s)) (pcs[k := pc])"
  shows "remembered h n (fut (nt_drop N k s)) (pcs[k := pc]) told"
proof -
  have sleep: "sleeper ((fut s)(k := None)) (pcs[k := pc]) \<Longrightarrow> sleeper (fut s) pcs"
    using assms(4) by (auto simp: sleeper_def nth_list_update split: if_splits)
  show ?thesis
  proof (cases "fut s k = Some WokenOne")
    case True
    from notify_signal.drop_forwards [OF assms(1) this] assms(6) show ?thesis
      by (rule remembered_notify) (use sleep assms(2) in \<open>auto simp: remembered_def\<close>)
  next
    case False
    have "helper h n ((fut s)(k := None)) (pcs[k := pc])" if before: "helper h n (fut s) pcs"
    proof -
      obtain j where j: "j < length pcs" "call_helps h n (pcs ! j) \<or> fut s j = Some WokenOne"
        using before by (auto simp: helper_def)
      then have "j \<noteq> k" using False assms(5) by auto
      with j show ?thesis by (auto simp: helper_def intro!: exI [of _ j])
    qed
    with sleep assms(2) show ?thesis
      unfolding notify_signal.drop_plain [OF assms(1) False] by (auto simp: remembered_def)
  qed
qed

text \<open>What a call knows, as it moves, and as its future or a worker changes.\<close>

lemma calls_known_update:
  assumes "calls_known h f pcs" and "k < length pcs" and "\<And>j. j \<noteq> k \<Longrightarrow> f' j = Some Armed \<Longrightarrow> f j = Some Armed"
    and "call_words h pc" and "f' k = Some Armed \<Longrightarrow> call_fresh h pc"
  shows "calls_known h f' (pcs[k := pc])"
  using assms by (auto simp: calls_known_def nth_list_update)

text \<open>A worker stops: nobody waits. A worker fails: what was known stays known.\<close>

definition worsens :: "(nat \<Rightarrow> predictor_status) \<Rightarrow> (nat \<Rightarrow> predictor_status) \<Rightarrow> bool" where
  "worsens h h' \<longleftrightarrow> (\<forall>i. h' i = h i \<or> h i = Alive \<and> h' i = Rebuilding)"

lemma worsens_dead: "worsens h h' \<Longrightarrow> h' i = Dead \<longleftrightarrow> h i = Dead"
  by (metis predictor_status.distinct worsens_def)

lemma worsens_alive: "worsens h h' \<Longrightarrow> h' i = Alive \<Longrightarrow> h i = Alive"
  by (metis predictor_status.distinct(1) worsens_def)

lemma fresh_worsens: "worsens h h' \<Longrightarrow> fresh h pc \<Longrightarrow> fresh h' pc"
  using worsens_dead [of h h'] worsens_alive [of h h'] by (cases pc) auto

lemma hopeful_worsens: "worsens h h' \<Longrightarrow> hopeful h n pc \<Longrightarrow> hopeful h' n pc"
proof -
  assume w: "worsens h h'"
  have "hope h n place sink \<Longrightarrow> hope h' n place sink" for place sink
    using worsens_dead [OF w] by (cases place) auto
  then show "hopeful h n pc \<Longrightarrow> hopeful h' n pc" by (cases pc) auto
qed

lemma words_mono: "(\<And>i. h i = Dead \<Longrightarrow> h' i = Dead) \<Longrightarrow> words_true h pc \<Longrightarrow> words_true h' pc"
  by (cases pc) auto

lemma call_words_mono: "(\<And>i. h i = Dead \<Longrightarrow> h' i = Dead) \<Longrightarrow> call_words h pc \<Longrightarrow> call_words h' pc"
  using words_mono by (cases pc) auto

lemma remembered_worsens:
  assumes "worsens h h'" and "remembered h n f pcs told" and "told \<Longrightarrow> told'"
  shows "remembered h' n f pcs told'"
proof -
  have "call_helps h n pc \<Longrightarrow> call_helps h' n pc" for pc :: "('a, 'b, 'c) caller_pc"
    using fresh_worsens [OF assms(1)] hopeful_worsens [OF assms(1)] by (cases pc) auto
  then have "helper h n f pcs \<Longrightarrow> helper h' n f pcs"
    by (auto simp: helper_def)
  with assms show ?thesis
    using worsens_dead [OF assms(1)] by (auto simp: remembered_def)
qed

lemma calls_known_worsens: "worsens h h' \<Longrightarrow> calls_known h f pcs \<Longrightarrow> calls_known h' f pcs"
proof -
  assume w: "worsens h h'"
  have "call_fresh h pc \<Longrightarrow> call_fresh h' pc" for pc :: "('a, 'b, 'c) caller_pc"
    using fresh_worsens [OF w] by (cases pc) auto
  moreover have "call_words h pc \<Longrightarrow> call_words h' pc" for pc :: "('a, 'b, 'c) caller_pc"
    by (rule call_words_mono) (simp add: worsens_dead [OF w])
  ultimately show "calls_known h f pcs \<Longrightarrow> calls_known h' f pcs"
    by (auto simp: calls_known_def)
qed

end
