(* ===== verification/Pool_Recovery.thy ===== *)
theory Pool_Recovery
  imports Route_Recovery
begin

text \<open>
  No wake-up is lost across panics of predictors and hooks, rebuilds and failed rebuilds, as long as no
  late drain happens and no \<open>Dead\<close> of a panic guard is replaced (\<open>spared_step\<close>). The proof is by rely and
  guarantee: \<open>worker_change\<close> is what every worker guarantees in each step, and what the calls rely on.
  Two runs at the end show a pool that is spared, through a rebuild, and one whose accumulator's panic
  is covered up.
\<close>

context notify_signal
begin

lemma signal_effects_append: "signal_effects N (xs @ ys) s = signal_effects N ys (signal_effects N xs s)"
  by (induction N xs s rule: signal_effects.induct) simp_all

lemma all_awake: "fut (signal_effects N (xs @ [NotifyWaiters]) s) k \<noteq> Some Armed"
  by (simp add: signal_effects_append notify_waiters)

end

subsection \<open>The steps of a pool that are spared\<close>

definition spared_step ::
  "('i, 's, 'p, 'f, 'q, 'j, 'o, 'e, 'n) pool_env
     \<Rightarrow> ('i, 's, 'p, 'f, 'q, 'j, 'o, 'e, 'n) pool_sys \<Rightarrow> ('i, 's, 'p, 'f, 'q, 'j, 'o, 'e, 'n) pool_sys \<Rightarrow> bool" where
  "spared_step P p p' \<longleftrightarrow> pool_step P p p'
     \<and> (\<forall>i < length (ps_workers p). \<not> late_drain (ps_workers p ! i) (ps_workers p' ! i)
          \<and> \<not> dead_replaced (ps_workers p ! i) (ps_workers p' ! i))"

abbreviation spared_reach ::
  "('i, 's, 'p, 'f, 'q, 'j, 'o, 'e, 'n) pool_env \<Rightarrow> inner_config \<Rightarrow> nat \<Rightarrow> nat
     \<Rightarrow> ('i, 's, 'p, 'f, 'q, 'j, 'o, 'e, 'n) pool_sys \<Rightarrow> bool" where
  "spared_reach P cfg queue_sz n \<equiv> reach (pool_start P cfg queue_sz n) (spared_step P)"

lemma spared_pool_reach: "spared_reach P cfg queue_sz n p \<Longrightarrow> pool_reach P cfg queue_sz n p"
  by (induction rule: reach.induct) (auto simp: spared_step_def intro: reach.intros)

definition pool_health :: "('i, 's, 'p, 'f, 'q, 'j, 'o, 'e, 'n) pool_sys \<Rightarrow> nat \<Rightarrow> predictor_status" where
  "pool_health p i = worker_health (ps_workers p ! i)"

context pool_model
begin

definition pool_tells :: "('i, 's, 'p, 'f, 'q, 'j, 'o, 'e, 'n) pool_sys \<Rightarrow> bool" where
  "pool_tells p \<longleftrightarrow> (\<exists>i < n. worker_model.tells qi (ps_workers p ! i))"

definition recovery_inv :: "('i, 's, 'p, 'f, 'q, 'j, 'o, 'e, 'n) pool_sys \<Rightarrow> bool" where
  "recovery_inv p \<longleftrightarrow>
     (\<forall>i < n. worker_model.sane qt (ps_workers p ! i))
     \<and> (ps_phase p = PoolServing \<longrightarrow>
          calls_known (pool_health p) (fut (ps_signal p)) (map ca_pc (ps_callers p))
          \<and> remembered (pool_health p) n (fut (ps_signal p)) (map ca_pc (ps_callers p)) (pool_tells p))"

lemma tells_live: "pool_tells p \<Longrightarrow> \<exists>i < n. pool_health p i \<noteq> Dead"
  using worker_model.tells_def [OF workers] by (auto simp: pool_tells_def pool_health_def)

text \<open>A worker moves.\<close>

lemma set_worker_recovery:
  assumes "pool_inv p" and "wake_inv p" and "recovery_inv p" and "i < n" and "worker_model.sane qt t"
    and "ps_phase p = PoolServing \<Longrightarrow> worker_model.worker_change qi (ps_workers p ! i) t"
  shows "recovery_inv (set_worker (pe_signal P) i t p)"
proof -
  let ?s = "ps_workers p ! i" and ?p = "set_worker (pe_signal P) i t p"
  let ?pcs = "map ca_pc (ps_callers p)" and ?f = "fut (ps_signal p)" and ?f' = "fut (ps_signal ?p)"
  let ?h = "pool_health p" and ?h' = "pool_health ?p"
  have len: "length (ps_workers p) = n" using assms(1) by (simp add: pool_inv_defs)
  have sig: "ps_signal ?p = signal_effects (pe_signal P) (notifies (new_log ?s t)) (ps_signal p)"
    by (simp add: set_worker_def new_log_def signal_effects_notifies)
  have callers: "map ca_pc (ps_callers ?p) = ?pcs" "ps_phase ?p = ps_phase p"
    by (simp_all add: set_worker_def)
  have health: "?h' = ?h(i := worker_health t)"
    using assms(4) len by (auto simp: pool_health_def set_worker_def fun_eq_iff nth_list_update)
  have reg: "reg_ok ?f' ?pcs"
    using assms(2) by (simp add: wake_inv_def set_worker_def reg_ok_def sig.signal_keys)
  have "calls_known ?h' ?f' ?pcs \<and> remembered ?h' n ?f' ?pcs (pool_tells ?p)" if phase: "ps_phase p = PoolServing"
  proof -
    have known: "calls_known ?h ?f ?pcs" and rem: "remembered ?h n ?f ?pcs (pool_tells p)"
      using assms(3) phase by (simp_all add: recovery_inv_def)
    note change = assms(6) [OF phase, unfolded worker_model.worker_change_def [OF workers [OF assms(4)]]]
    then have dead: "?h j = Dead \<Longrightarrow> ?h' j = Dead" for j
      by (auto simp: health pool_health_def)
    from change consider (all) "notifies_all (new_log ?s t)"
      | (one) "notifies (new_log ?s t) = [NotifyOne]" "worker_health t = worker_health ?s"
      | (none) "notifies (new_log ?s t) = []" "worker_model.tells qi ?s \<longrightarrow> worker_model.tells qi t"
          "worker_health t = worker_health ?s \<or> worker_health ?s = Alive \<and> worker_health t = Rebuilding"
      by blast
    then show ?thesis
    proof cases
      case all
      then have "notifies (new_log ?s t) = butlast (notifies (new_log ?s t)) @ [NotifyWaiters]"
        by (metis append_butlast_last_id notifies_all_def)
      then have awake: "?f' k \<noteq> Some Armed" for k
        unfolding sig by (metis sig.all_awake)
      with known dead show ?thesis
        by (auto simp: calls_known_def intro: call_words_mono remembered_awake)
    next
      case one
      then have h: "?h' = ?h" by (auto simp: health pool_health_def)
      have f': "?f' = fut (nt_notify_one (pe_signal P) (ps_signal p))"
        using one by (simp add: sig)
      have "?f' k = Some Armed \<Longrightarrow> ?f k = Some Armed" for k
        using sig.notify_one [of "ps_signal p"] unfolding f'
        by (cases rule: sig.wakes_one_cases) (auto split: if_splits)
      then have "calls_known ?h ?f' ?pcs" using known by (auto simp: calls_known_def)
      moreover have "remembered ?h n ?f' ?pcs (pool_tells ?p)"
        using sig.notify_one [of "ps_signal p"] reg unfolding f'
        by (rule remembered_notify) (use rem in \<open>simp add: remembered_def\<close>)
      ultimately show ?thesis by (simp add: h)
    next
      case none
      then have w: "worsens ?h ?h'" by (auto simp: worsens_def health pool_health_def)
      have "pool_tells p \<Longrightarrow> pool_tells ?p"
        using none(2) assms(4) len by (auto simp: pool_tells_def set_worker_def nth_list_update)
      moreover have "?f' = ?f" using none(1) by (simp add: sig)
      ultimately show ?thesis
        using calls_known_worsens [OF w known] remembered_worsens [OF w rem] by simp
    qed
  qed
  moreover have "worker_model.sane qt (ps_workers ?p ! j)" if "j < n" for j
    using that assms(3-5) len by (cases "j = i") (simp_all add: recovery_inv_def set_worker_def)
  ultimately show ?thesis
    using callers by (simp add: recovery_inv_def)
qed

text \<open>A call moves.\<close>

lemma set_call_recovery:
  assumes "recovery_inv p" and "ps_callers p1 = ps_callers p" and "ps_phase p1 = ps_phase p"
    and "\<And>j. j < n \<Longrightarrow> worker_model.sane qt (ps_workers p1 ! j)"
    and "ps_phase p = PoolServing \<Longrightarrow>
      calls_known (pool_health p1) (fut (ps_signal p1)) ((map ca_pc (ps_callers p))[k := pc])
      \<and> remembered (pool_health p1) n (fut (ps_signal p1)) ((map ca_pc (ps_callers p))[k := pc]) (pool_tells p1)"
  shows "recovery_inv (set_call k pc p1)"
proof -
  have "pool_tells (set_call k pc p1) = pool_tells p1" "pool_health (set_call k pc p1) = pool_health p1"
    by (simp_all add: pool_tells_def pool_health_def fun_eq_iff)
  with assms show ?thesis by (simp add: recovery_inv_def)
qed

lemma same_workers [simp]:
  "pool_health (p\<lparr>ps_start := x\<rparr>) = pool_health p" "pool_tells (p\<lparr>ps_start := x\<rparr>) = pool_tells p"
  "pool_health (p\<lparr>ps_signal := y\<rparr>) = pool_health p" "pool_tells (p\<lparr>ps_signal := y\<rparr>) = pool_tells p"
  "pool_health (drop_future N reg k p) = pool_health p" "pool_tells (drop_future N reg k p) = pool_tells p"
  by (simp_all add: pool_health_def pool_tells_def fun_eq_iff)

lemma drop_future_recovery:
  assumes "pool_inv p" and "wake_inv p" and "recovery_inv p" and "k < length (ps_callers p)"
    and "reg = registered (ca_pc (ps_callers p ! k))" and "\<And>h. \<not> call_helps h n (ca_pc (ps_callers p ! k))"
    and "\<not> registered pc" and "\<not> call_waits pc" and "\<And>h. call_words h pc \<and> call_fresh h pc"
  shows "recovery_inv (set_call k pc (drop_future (pe_signal P) reg k p))"
proof -
  let ?N = "pe_signal P" and ?pcs = "map ca_pc (ps_callers p)" and ?s = "ps_signal p"
  let ?p = "drop_future ?N reg k p"
  have reg0: "reg_ok (fut ?s) ?pcs" using assms(2) by (simp add: wake_inv_def)
  have armed: "fut (ps_signal ?p) j = Some Armed \<Longrightarrow> fut ?s j = Some Armed" for j
  proof (cases "reg \<and> fut ?s k = Some WokenOne")
    case True
    with sig.drop_forwards [of ?s k]
    show "fut (ps_signal ?p) j = Some Armed \<Longrightarrow> fut ?s j = Some Armed"
      by (auto simp: drop_future_def elim!: sig.wakes_one_cases split: if_splits)
  qed (auto simp: drop_future_def sig.drop_plain split: if_splits)
  have "remembered (pool_health p) n (fut (ps_signal ?p)) (?pcs[k := pc]) (pool_tells p)"
    if rem: "remembered (pool_health p) n (fut ?s) ?pcs (pool_tells p)"
  proof (cases reg)
    case True
    have "reg_ok (fut (nt_drop ?N k ?s)) (?pcs[k := pc])"
      by (rule reg_ok_forget [OF reg0]) (use assms(4,7) sig.drop_keys in auto)
    with remembered_drop [OF sig.notify_signal_axioms rem _ assms(8)] True assms(4,6) show ?thesis
      by (simp add: drop_future_def)
  next
    case False
    have "remembered (pool_health p) n (fut ?s) (?pcs[k := pc]) (pool_tells p)"
      by (rule remembered_move [OF rem]) (use assms(4,6,8) tells_live in auto)
    with False show ?thesis by (simp add: drop_future_def)
  qed
  moreover have "calls_known (pool_health p) (fut (ps_signal ?p)) (?pcs[k := pc])"
    if "calls_known (pool_health p) (fut ?s) ?pcs"
    by (rule calls_known_update [OF that]) (use assms(4,9) armed in auto)
  ultimately show ?thesis
    by (intro set_call_recovery [OF assms(3)]) (use assms(3) in \<open>auto simp: recovery_inv_def\<close>)
qed

text \<open>One access of the router.\<close>

lemma route_call_recovery:
  assumes "pool_inv p" and "wake_inv p" and "recovery_inv p" and "k < length (ps_callers p)"
    and "ca_pc (ps_callers p ! k) = CallRouting reg pc" and "route_target pc = Some i"
    and "ps_phase p = PoolServing"
  shows "recovery_inv (route_call P k reg pc p)"
proof -
  let ?ws = "ps_workers p" and ?pcs = "map ca_pc (ps_callers p)" and ?f = "fut (ps_signal p)"
  have len: "length ?ws = n" using assms(1) by (simp add: pool_inv_defs)
  have "route_ok n (ca_msg (ps_callers p ! k)) pc"
    using assms(1,5) nth_mem [OF assms(4)] len by (auto simp: pool_inv_defs caller_ok_def)
  with assms(6) have i: "i < n" by (cases pc) auto
  have s: "worker_reach (pe_worker P i) cfg queue_sz (?ws ! i)" "worker_model.sane qt (?ws ! i)"
      "qt (sh_requests (wk_shared (?ws ! i)))" "started (?ws ! i)"
    using assms(1-3,7) i by (auto simp: pool_inv_defs wake_inv_def recovery_inv_def)
  obtain pc' w where step: "route_step (we_requests (pe_worker P i)) n (worker_view (?ws ! i)) pc = (pc', w)"
    by fastforce
  let ?t = "worker_after (route_sent pc pc') w (?ws ! i)"
  let ?p = "p\<lparr>ps_workers := ?ws[i := ?t]\<rparr>"
  note keeps = worker_model.access_keeps [OF workers [OF i] step]
  have health: "pool_health ?p = pool_health p"
    using keeps(2) i len by (auto simp: pool_health_def fun_eq_iff nth_list_update)
  have told: "worker_model.tells qi ?t \<Longrightarrow> pool_tells ?p"
    using i len by (auto simp: pool_tells_def intro!: exI [of _ i])
  have kept: "pool_tells ?p" if tells: "pool_tells p"
  proof -
    obtain j where j: "j < n" "worker_model.tells qi (?ws ! j)"
      using tells by (auto simp: pool_tells_def)
    with keeps(1) told show ?thesis
      by (cases "j = i") (auto simp: pool_tells_def intro!: exI [of _ j])
  qed
  have known: "calls_known (pool_health p) ?f ?pcs" and rem: "remembered (pool_health p) n ?f ?pcs (pool_tells p)"
    using assms(3,7) by (simp_all add: recovery_inv_def)
  then have pc: "words_true (pool_health p) pc" "?f k = Some Armed \<Longrightarrow> fresh (pool_health p) pc"
    using assms(4,5) by (auto simp: calls_known_def dest: spec [of _ k])
  have h: "pool_health p i = worker_health (?ws ! i)" by (simp add: pool_health_def)
  note acc = worker_model.access_known [OF workers [OF i] s h assms(6) step pc(1)]
    worker_model.access_tells [OF workers [OF i] s h assms(6) i step pc(1)]
  have "calls_known (pool_health p) ?f (?pcs[k := CallRouting reg pc'])"
    by (rule calls_known_update [OF known]) (use assms(4) acc(1,2) pc(2) in auto)
  moreover have "remembered (pool_health p) n ?f (?pcs[k := CallRouting reg pc']) (pool_tells ?p)"
  proof (rule remembered_move [OF rem])
    show "\<exists>j < n. pool_health p j \<noteq> Dead" if "pool_tells ?p"
      using tells_live [OF that] by (simp add: health)
    show "call_waits (?pcs ! k) \<or> pool_tells ?p" if "call_waits (CallRouting reg pc')" "?f k = Some Armed"
      using that acc(3) pc(2) told assms(4,5) by auto
    show "call_helps (pool_health p) n (CallRouting reg pc') \<or> pool_tells ?p"
      if "call_helps (pool_health p) n (?pcs ! k)"
      using that acc(2,4) told assms(4,5) by auto
  qed (use assms(4) kept in auto)
  moreover have "worker_model.sane qt (?ws[i := ?t] ! j)" if "j < n" for j
  proof (cases "j = i")
    case True
    have "worker_model.sane qt ?t"
      using s(2-4) unfolding worker_model.sane_def [OF workers [OF i]]
      by (simp add: worker_after_def worker_health_def started_def)
    with True i len show ?thesis by simp
  next
    case False
    with that assms(3) show ?thesis by (simp add: recovery_inv_def)
  qed
  ultimately have "recovery_inv (set_call k (CallRouting reg pc') ?p)"
    by (intro set_call_recovery [OF assms(3)]) (simp_all add: health)
  then show ?thesis
    using assms(6) i step len by (simp add: route_call_def Let_def)
qed

lemma call_step_recovery:
  assumes "pool_inv p" and "wake_inv p" and "recovery_inv p" and "k < length (ps_callers p)" and "call_step P k p = Some p'"
  shows "recovery_inv p'"
proof -
  let ?c = "ps_callers p ! k" and ?pcs = "map ca_pc (ps_callers p)"
  have reg: "reg_ok (fut (ps_signal p)) ?pcs" and pcs: "k < length ?pcs" "?pcs ! k = ca_pc ?c"
    using assms(2,4) by (simp_all add: wake_inv_def)
  have ok: "call_ok (ps_workers p) (ca_msg ?c) (ca_waits ?c) (ca_pc ?c)"
    using assms(1,4) nth_mem [OF assms(4)] by (auto simp: pool_inv_defs caller_ok_def)
  have sane: "j < n \<Longrightarrow> worker_model.sane qt (ps_workers p ! j)" for j
    using assms(3) by (simp add: recovery_inv_def)
  have "\<not> call_over (ca_pc ?c)"
    using assms(5) by (auto simp: call_step_def split: caller_pc.splits)
  then have phase: "ps_phase p = PoolServing"
    using assms(1,4) by (cases "ps_phase p") (auto simp: pool_inv_defs)
  then have known: "calls_known (pool_health p) (fut (ps_signal p)) ?pcs"
    and rem: "remembered (pool_health p) n (fut (ps_signal p)) ?pcs (pool_tells p)"
    using assms(3) by (simp_all add: recovery_inv_def)
  note drop = drop_future_recovery [OF assms(1-4)]
  show ?thesis
  proof (cases "ca_pc ?c")
    case (CallBegin reg')
    obtain pc start where start: "route_start n (ps_start p) (ca_msg ?c) = (pc :: ('i \<times> 's, 'e) route_pc, start)"
      by fastforce
    then have pc: "words_true h pc" "fresh h pc" "\<not> decided pc"
        "\<exists>i < n. h i \<noteq> Dead \<Longrightarrow> hopeful h n pc" for h
      using pool_pos by (auto simp: route_start_def split: if_splits)
    have "length (ps_workers p) = n" using assms(1) by (simp add: pool_inv_defs)
    then have p': "p' = set_call k (CallRouting reg' pc) (p\<lparr>ps_start := start\<rparr>)"
      using start CallBegin assms(5) by (simp add: call_step_def)
    have "remembered (pool_health p) n (fut (ps_signal p)) (?pcs[k := CallRouting reg' pc]) (pool_tells p)"
      by (rule remembered_move [OF rem pcs(1)]) (use pc tells_live in auto)
    moreover have "calls_known (pool_health p) (fut (ps_signal p)) (?pcs[k := CallRouting reg' pc])"
      by (rule calls_known_update [OF known pcs(1)]) (use pc in auto)
    ultimately show ?thesis
      unfolding p' by (intro set_call_recovery [OF assms(3)]) (simp_all add: sane)
  next
    case (CallRouting reg' pc)
    have p': "p' = route_call P k reg' pc p"
      using assms(5) CallRouting by (simp add: call_step_def)
    show ?thesis
    proof (cases "route_target pc")
      case (Some i)
      from route_call_recovery [OF assms(1-4) CallRouting Some phase] show ?thesis by (simp add: p')
    next
      case None
      then obtain r where pc: "pc = Routed r"
        using ok CallRouting by (cases pc) auto
      let ?next = "call_routed (ca_waits ?c) reg' r :: ('i \<times> 's, 'o, 'e) caller_pc"
      have p1: "p' = set_call k ?next (drop_future (pe_signal P) (reg' \<and> call_over ?next) k p)"
        by (simp add: p' pc route_call_def Let_def)
      show ?thesis
      proof (cases "call_over ?next")
        case True
        then have "\<not> registered ?next" "\<not> call_waits ?next" "call_words h ?next \<and> call_fresh h ?next" for h
          by (cases ?next; simp)+
        then show ?thesis
          unfolding p1 using True CallRouting pc by (intro drop) auto
      next
        case False
        have next_pc: "call_words h ?next" "call_fresh h ?next"
          "call_waits ?next \<Longrightarrow> call_waits (ca_pc ?c)" for h
          using False CallRouting pc by (cases "(ca_waits ?c, reg', r)" rule: call_routed.cases; auto split: if_splits)+
        have "remembered (pool_health p) n (fut (ps_signal p)) (?pcs[k := ?next]) (pool_tells p)"
          by (rule remembered_move [OF rem pcs(1)]) (use pcs next_pc(3) CallRouting pc tells_live in auto)
        moreover have "calls_known (pool_health p) (fut (ps_signal p)) (?pcs[k := ?next])"
          by (rule calls_known_update [OF known pcs(1)]) (use next_pc in auto)
        ultimately have "recovery_inv (set_call k ?next p)"
          by (intro set_call_recovery [OF assms(3)]) (simp_all add: sane)
        with False show ?thesis by (simp add: p1 drop_future_def)
      qed
    qed
  next
    case CallRegister
    then have "\<not> registered (?pcs ! k)" using pcs(2) by simp
    then have none: "fut (ps_signal p) k = None"
      using reg by (auto simp: reg_ok_def)
    let ?p = "p\<lparr>ps_signal := nt_enable (pe_signal P) k (ps_signal p)\<rparr>"
    have p': "p' = set_call k (CallBegin True) ?p"
      using CallRegister assms(5) by (simp add: call_step_def)
    have "remembered (pool_health p) n (fut (ps_signal ?p)) (?pcs[k := CallBegin True]) (pool_tells p)"
      by (rule remembered_helper [OF rem _ pcs(1)])
        (auto simp: sleeper_def nth_list_update sig.enable [OF none] split: if_splits)
    moreover have "calls_known (pool_health p) (fut (ps_signal ?p)) (?pcs[k := CallBegin True])"
      by (rule calls_known_update [OF known pcs(1)]) (auto simp: sig.enable [OF none])
    ultimately show ?thesis
      unfolding p' by (intro set_call_recovery [OF assms(3)]) (simp_all add: sane)
  next
    case CallAsleep
    let ?p = "p\<lparr>ps_signal := nt_finish (pe_signal P) k (ps_signal p)\<rparr>"
    have ready: "nt_ready (pe_signal P) k (ps_signal p)" and p': "p' = set_call k CallRegister ?p"
      using CallAsleep assms(5) by (auto simp: call_step_def split: if_splits)
    have "remembered (pool_health p) n (fut (ps_signal ?p)) (?pcs[k := CallRegister]) (pool_tells p)"
      by (rule remembered_helper [OF rem _ pcs(1)])
        (auto simp: sleeper_def nth_list_update sig.finish [OF ready] split: if_splits)
    moreover have "calls_known (pool_health p) (fut (ps_signal ?p)) (?pcs[k := CallRegister])"
      by (rule calls_known_update [OF known pcs(1)]) (auto simp: sig.finish [OF ready])
    ultimately show ?thesis
      unfolding p' by (intro set_call_recovery [OF assms(3)]) (simp_all add: sane)
  next
    case (CallQueued reg')
    then obtain out where "p' = set_call k (CallReturned True (await_reply out)) (drop_future (pe_signal P) reg' k p)"
      using assms(5) by (auto simp: call_step_def split: option.splits)
    with CallQueued show ?thesis by (auto intro!: drop)
  qed (use assms(5) in \<open>auto simp: call_step_def\<close>)
qed

lemma start_recovery: "pool_start P cfg queue_sz n p \<Longrightarrow> recovery_inv p"
  using worker_model.sane_start [OF workers] by (auto simp: pool_start_def recovery_inv_def)

lemma arrival_recovery:
  assumes "recovery_inv p" and "ca_pc c = CallBegin False"
  shows "recovery_inv (p\<lparr>ps_callers := ps_callers p @ [c]\<rparr>)"
proof -
  let ?h = "pool_health p" and ?f = "fut (ps_signal p)" and ?pcs = "map ca_pc (ps_callers p)"
  have "calls_known ?h ?f (?pcs @ [CallBegin False])" if "calls_known ?h ?f ?pcs"
    using that by (auto simp: calls_known_def nth_append less_Suc_eq)
  moreover have "remembered ?h n ?f (?pcs @ [CallBegin False]) (pool_tells p)"
    if rem: "remembered ?h n ?f ?pcs (pool_tells p)"
  proof -
    have "sleeper ?f ?pcs" if "sleeper ?f (?pcs @ [CallBegin False])"
      using that by (auto simp: sleeper_def nth_append less_Suc_eq split: if_splits)
    moreover have "helper ?h n ?f (?pcs @ [CallBegin False])"
      by (auto simp: helper_def nth_append intro!: exI [of _ "length ?pcs"])
    ultimately show ?thesis
      using rem by (auto simp: remembered_def)
  qed
  moreover have "pool_health (p\<lparr>ps_callers := ps_callers p @ [c]\<rparr>) = ?h"
      "pool_tells (p\<lparr>ps_callers := ps_callers p @ [c]\<rparr>) = pool_tells p"
    by (simp_all add: pool_health_def pool_tells_def fun_eq_iff)
  ultimately show ?thesis
    using assms by (simp add: recovery_inv_def)
qed

lemma step_recovery:
  assumes "pool_inv p" and "wake_inv p" and "recovery_inv p" and "spared_step P p p'"
  shows "recovery_inv p'"
proof -
  have len: "length (ps_workers p) = n" using assms(1) by (simp add: pool_inv_defs)
  have worker: "worker_reach (pe_worker P i) cfg queue_sz (ps_workers p ! i)" "worker_model.sane qt (ps_workers p ! i)"
      "ps_phase p = PoolServing \<Longrightarrow> qt (sh_requests (wk_shared (ps_workers p ! i))) \<and> started (ps_workers p ! i)"
    if "i < n" for i
    using that assms(1-3) by (auto simp: pool_inv_defs recovery_inv_def wake_inv_def)
  have spared: "\<not> late_drain (ps_workers p ! i) t \<and> \<not> dead_replaced (ps_workers p ! i) t"
    if "p' = set_worker (pe_signal P) i t p" "i < n" for i t
    using that assms(4) len by (auto simp: spared_step_def set_worker_def dest: spec [of _ i])
  have step: "pool_step P p p'" using assms(4) by (simp add: spared_step_def)
  then show ?thesis
  proof (cases rule: pool_step.cases)
    case own
    from own show ?thesis
    proof (cases rule: pool_own_step.cases)
      case (acc_acts i W s c ac sh)
      have i: "i < n" using acc_acts(2) len by simp
      note kept = worker_model.acc_step_sane [OF workers [OF i] worker(1,2) [OF i] acc_acts(6) [unfolded acc_acts(3,4)]]
      from spared [OF acc_acts(1) [unfolded acc_acts(4)] i] kept worker(3) [OF i] show ?thesis
        unfolding acc_acts(1,4) by (intro set_worker_recovery [OF assms(1-3) i]) auto
    next
      case (inf_acts i W s d th sh)
      have i: "i < n" using inf_acts(2) len by simp
      note kept = worker_model.inf_step_sane [OF workers [OF i] worker(1,2) [OF i] inf_acts(5) [unfolded inf_acts(3,4)]
          conjunct2 [OF spared [OF inf_acts(1) [unfolded inf_acts(4)] i]]]
      from kept worker(3) [OF i] show ?thesis
        unfolding inf_acts(1,4) by (intro set_worker_recovery [OF assms(1-3) i]) auto
    next
      case (caller_acts k)
      show ?thesis by (rule call_step_recovery [OF assms(1-3) caller_acts])
    qed
  next
    case serves
    have "ps_callers p = []"
      using serves(2) assms(1) by (simp add: pool_inv_defs)
    then show ?thesis
      using assms(3) serves(1) by (simp add: recovery_inv_def calls_known_def remembered_def sleeper_def)
  next
    case (arrives tx inp waits)
    with arrival_recovery [OF assms(3)] show ?thesis by simp
  next
    case (cancelled k)
    note drop = drop_future_recovery [OF assms(1-3) cancelled(1)]
    from cancelled(2) show ?thesis
      by (auto simp: cancel_call_def split: caller_pc.splits intro!: drop)
  next
    case closes
    have "worker_model.sane qt (drop_handles (we_requests (pe_worker P i)) (ps_workers p ! i))" if "i < n" for i
      unfolding worker_model.sane_def [OF workers [OF that]]
      using mpsc_channel.drop_senders [OF worker_model.axioms(1) [OF workers [OF that]]] by (simp add: drop_handles_def)
    then show ?thesis
      using closes(1) len by (simp add: recovery_inv_def)
  qed
qed

lemma reach_recovery: "spared_reach P cfg queue_sz n p \<Longrightarrow> recovery_inv p"
proof (induction rule: reach.induct)
  case (reach_step p p')
  have "pool_inv p" "wake_inv p"
    using reach_step.hyps(1) reach_pool_inv reach_wake by (auto dest: spared_pool_reach)
  then show ?case using reach_step step_recovery by blast
qed (rule start_recovery)

text \<open>Where nothing can move nobody is asleep.\<close>

lemma spared_stuck_calls:
  assumes "spared_reach P cfg queue_sz n p" and "\<And>p'. \<not> pool_own_step P p p'" and "c \<in> set (ps_callers p)"
  shows "call_over (ca_pc c)"
proof (rule ccontr)
  assume not_over: "\<not> call_over (ca_pc c)"
  have inv: "pool_inv p" "wake_inv p" "recovery_inv p"
    using reach_pool_inv reach_wake reach_recovery assms(1) by (auto dest: spared_pool_reach)
  have phase: "ps_phase p = PoolServing"
    using inv(1) assms(3) not_over by (cases "ps_phase p") (auto simp: pool_inv_defs)
  have pcs: "call_over (ca_pc (ps_callers p ! k)) \<or> ca_pc (ps_callers p ! k) = CallAsleep
      \<and> fut (ps_signal p) k = Some Armed" if k: "k < length (ps_callers p)" for k
    by (rule stuck_sleepers [OF inv(1,2) assms(2) k])
  obtain k where k: "k < length (ps_callers p)" "ps_callers p ! k = c"
    using assms(3) by (auto simp: in_set_conv_nth)
  then have "sleeper (fut (ps_signal p)) (map ca_pc (ps_callers p))"
    using pcs [OF k(1)] not_over by (auto simp: sleeper_def)
  moreover have "\<not> pool_tells p"
  proof
    assume "pool_tells p"
    then obtain i where i: "i < n" "worker_model.tells qi (ps_workers p ! i)"
      by (auto simp: pool_tells_def)
    have "worker_reach (pe_worker P i) cfg queue_sz (ps_workers p ! i)" "worker_model.sane qt (ps_workers p ! i)"
        "qt (sh_requests (wk_shared (ps_workers p ! i)))" "started (ps_workers p ! i)"
      using inv phase i(1) by (auto simp: pool_inv_defs recovery_inv_def wake_inv_def)
    from worker_model.stuck_tells_nothing [OF workers [OF i(1)] this stuck_worker [OF inv(1) assms(2) i(1)]] i(2)
    show False by simp
  qed
  ultimately have "helper (pool_health p) n (fut (ps_signal p)) (map ca_pc (ps_callers p))"
    using inv(3) phase by (auto simp: recovery_inv_def remembered_def)
  then obtain j where j: "j < length (ps_callers p)"
      "call_helps (pool_health p) n (ca_pc (ps_callers p ! j)) \<or> fut (ps_signal p) j = Some WokenOne"
    by (auto simp: helper_def)
  have "registered (map ca_pc (ps_callers p) ! j)" if "fut (ps_signal p) j = Some WokenOne"
    using that inv(2) unfolding wake_inv_def reg_ok_def by (metis option.discI)
  then have "registered (ca_pc (ps_callers p ! j))" if "fut (ps_signal p) j = Some WokenOne"
    using that j(1) by simp
  with pcs [OF j(1)] j(2) show False
    by (cases "ca_pc (ps_callers p ! j)") auto
qed

end

subsection \<open>A run through a rebuild\<close>

text \<open>Schedules whose steps are spared.\<close>

fun run_spared ::
  "('i, 's, 'p, 'f, 'q, 'j, 'o, 'e, 'n) pool_env \<Rightarrow> ('i, 's) pool_move list
     \<Rightarrow> ('i, 's, 'p, 'f, 'q, 'j, 'o, 'e, 'n) pool_sys \<Rightarrow> ('i, 's, 'p, 'f, 'q, 'j, 'o, 'e, 'n) pool_sys option" where
  "run_spared P [] p = Some p"
| "run_spared P (m # ms) p =
     (case do_pool_move P m p of
        None \<Rightarrow> None
      | Some p' \<Rightarrow>
          if list_all2 (\<lambda>s t. \<not> late_drain s t \<and> \<not> dead_replaced s t) (ps_workers p) (ps_workers p')
          then run_spared P ms p' else None)"

lemma run_spared_reach:
  "run_spared P ms p = Some p' \<Longrightarrow> spared_reach P cfg queue_sz n p \<Longrightarrow> spared_reach P cfg queue_sz n p'"
proof (induction ms arbitrary: p)
  case (Cons m ms)
  then obtain p1 where p1: "do_pool_move P m p = Some p1" "run_spared P ms p1 = Some p'"
      "list_all2 (\<lambda>s t. \<not> late_drain s t \<and> \<not> dead_replaced s t) (ps_workers p) (ps_workers p1)"
    by (auto split: option.splits if_splits)
  then have "spared_step P p p1"
    using do_pool_move_step by (auto simp: spared_step_def list_all2_conv_all_nth)
  with Cons.IH [OF p1(2)] Cons.prems(2) show ?case by (blast intro: reach_step)
qed simp

lemma run_spared_cases:
  assumes "map_option f (run_spared P ms (new_pool P cfg queue_sz n)) = Some x"
  obtains p where "spared_reach P cfg queue_sz n p" "f p = x"
proof -
  obtain p where "run_spared P ms (new_pool P cfg queue_sz n) = Some p" "f p = x"
    using assms by auto
  moreover have "spared_reach P cfg queue_sz n (new_pool P cfg queue_sz n)"
    by (rule reach_start) (auto simp: pool_start_def new_pool_def worker_start_def)
  ultimately show thesis
    using that run_spared_reach by blast
qed

text \<open>The first request makes the only predictor panic. The second caller finds the worker being
  rebuilt and sleeps; the end of the rebuild wakes it, and its request is served.\<close>

definition rebuilt_run :: "(nat, nat) pool_move list" where
  "rebuilt_run =
     [PoolInf 0 (InfStart (\<lambda>_. False) True), PoolServe, PoolArrive 0 1 True] @ replicate 7 (PoolCall 0)
     @ PoolAcc 0 (AccRecv 0) # replicate 5 (PoolAcc 0 AccRun)
     @ [PoolInf 0 (InfReceive (\<lambda>_. False)), PoolInf 0 (InfPredict DURATION_ZERO)]
     @ PoolArrive 5 2 True # replicate 13 (PoolCall 1)
     @ [PoolInf 0 InfHandlePanic, PoolInf 0 (InfRebuild 0), PoolInf 0 InfFlush, PoolInf 0 InfRevive, PoolCall 0]
     @ replicate 9 (PoolCall 1) @ PoolAcc 0 (AccRecv 0) # replicate 5 (PoolAcc 0 AccRun)
     @ [PoolInf 0 (InfReceive (\<lambda>_. False)), PoolInf 0 (InfPredict DURATION_ZERO), PoolCall 1]"

lemmas spared_run_defs = late_drain_def dead_replaced_def new_log_def snap_rebuilding_def

lemma rebuilt_run_view:
  "map_option (\<lambda>p. (pool_view p, list_ex (\<lambda>e. e = StorePredictor Rebuilding) (pool_log (ps_workers p))))
     (run_spared demo_pool rebuilt_run (new_pool demo_pool lost_cfg 1 1)) =
   Some (([CallReturned True (Inl InternalError), CallReturned True (Inr 10)],
     \<lparr>fs_permit = True, fs_futures = []\<rparr>,
     [(AwaitFirst, InfWaiting (), empty_fifo, empty_fifo, new_worker_state lost_cfg)]), True)"
  by (simp add: rebuilt_run_def lost_cfg_def pool_view_def pool_run_defs spared_run_defs from_recv_error_def Let_def duration_simps)

lemma lost_pool_model:
  "pool_model demo_pool fs_permit (\<lambda>s. map_of (fs_futures s)) ff_items ff_cap ff_rx ff_tx ff_items ff_cap ff_rx ff_tx
     lost_cfg 1 1"
  unfolding demo_pool_def
  by (rule fifo_pool_model)
    (simp_all add: lost_cfg_def instant_checked_add_def ONE_YEAR_def duration_simps)

subsection \<open>A run in which a \<open>Dead\<close> is replaced\<close>

text \<open>The metrics hook panics when it is told of a waiting request. Batches of one, a queue of one: the
  first request makes the predictor panic, the second is in the hands of the accumulator, the third is
  queued. When the predictor has been rebuilt, and its thread is about to say so, the hook panics and
  the guard stores \<open>Dead\<close>; then the thread stores \<open>Alive\<close>. A caller that comes now finds a full queue
  and sleeps; the accumulator drops the queue, and both threads end.\<close>

definition depth_hook :: metrics_hook where
  "depth_hook = Some (\<lambda>ev. case ev of on_queue_depth i d \<Rightarrow> d = 1 | _ \<Rightarrow> False)"

definition hooked_pool ::
  "(nat, nat, unit, nat, (nat \<times> nat) fifo, (nat, nat) worker_buffer fifo, nat, nat, fifo_signal) pool_env" where
  "hooked_pool = \<lparr>pe_worker = (\<lambda>i. fifo_env (10 ^ 30) \<lparr>iw_obs = depth_hook, iw_worker_id = of_nat i\<rparr>
      (demo_args\<lparr>ia_obs := depth_hook\<rparr>)), pe_signal = fifo_notify\<rparr>"

lemma hooked_pool_parts:
  "we_requests (pe_worker hooked_pool i) = fifo_mpsc" "we_jobs (pe_worker hooked_pool i) = fifo_mpsc"
  "we_imax (pe_worker hooked_pool i) = 10 ^ 30" "we_args (pe_worker hooked_pool i) = demo_args\<lparr>ia_obs := depth_hook\<rparr>"
  "iw_obs (we_worker (pe_worker hooked_pool i)) = depth_hook"
  "pe_signal hooked_pool = fifo_notify"
  by (simp_all add: hooked_pool_def fifo_env_def)

definition replaced_run :: "(nat, nat) pool_move list" where
  "replaced_run =
     [PoolInf 0 (InfStart (\<lambda>_. False) True), PoolServe, PoolArrive 0 1 True] @ replicate 7 (PoolCall 0)
     @ PoolAcc 0 (AccRecv 0) # replicate 5 (PoolAcc 0 AccRun) @ PoolInf 0 (InfReceive (\<lambda>_. False))
     # PoolArrive 5 2 True # replicate 7 (PoolCall 1) @ [PoolAcc 0 (AccRecv 0), PoolAcc 0 AccRun]
     @ PoolArrive 6 3 True # replicate 7 (PoolCall 2)
     @ [PoolInf 0 (InfPredict DURATION_ZERO), PoolInf 0 InfHandlePanic, PoolInf 0 (InfRebuild 0),
        PoolInf 0 InfFlush, PoolAcc 0 AccRun, PoolInf 0 InfRevive]
     @ PoolArrive 7 4 True # replicate 24 (PoolCall 3)
     @ [PoolAcc 0 AccDrop, PoolInf 0 (InfReceive (\<lambda>_. False)), PoolInf 0 InfDrop, PoolInf 0 InfRelease,
        PoolCall 0, PoolCall 1, PoolCall 2]"

lemma replaced_run_view:
  "map_option (\<lambda>p. (map ca_pc (ps_callers p), ps_signal p, map (\<lambda>w. (ac_pc (wk_acc w), it_pc (wk_inf w),
       can_accept_secondary (sh_state (wk_shared w)), ff_rx (sh_requests (wk_shared w)))) (ps_workers p)))
     (run_pool hooked_pool replaced_run (new_pool hooked_pool lost_cfg 1 1)) =
   Some (replicate 3 (CallReturned True (Inl InternalError)) @ [CallAsleep],
     \<lparr>fs_permit = False, fs_futures = [(3, Armed)]\<rparr>, [(AccExited, InfReleased, Some True, False)])"
  by (simp add: replaced_run_def lost_cfg_def pool_view_def pool_run_defs hooked_pool_parts depth_hook_def from_recv_error_def
      acc_leave_def panic_guard_drop_def store_dead_def set_dead_def acc_drop_def inf_drop_def can_accept_secondary_def snapshot_def
      Let_def duration_simps)

lemma ended_worker_stuck:
  assumes "ac_pc (wk_acc s) = AccExited" and "it_pc (wk_inf s) = InfReleased"
  shows "\<not> own_step W s u"
proof -
  have "acc_step (we_worker W) (we_imax W) (we_requests W) (we_jobs W) c (wk_acc s, wk_shared s) = None" for c
    using assms(1) by (cases c) simp_all
  moreover have "inf_step (we_args W) (we_jobs W) d (wk_inf s, wk_shared s) = None" for d
    using assms(2) by (cases d) simp_all
  ultimately show ?thesis by (simp add: own_step_def)
qed

subsection \<open>Properties\<close>

text \<open>C5: No wake-up is lost across panics and rebuilds, but for two races. For every pool that meets the
  contracts, every number of calls, every interleaving and every behaviour of the factory, of
  \<open>predict_batch\<close> and of the hooks: if so far no drain has taken a request from the queue of a worker
  whose predictor was alive again, and no \<open>Dead\<close> status has been replaced by another, then a state in
  which neither a worker nor a call can take a step has every call ended. In particular no call of
  \<open>predict\<close> sleeps while nothing is left to wake it, whether workers are being rebuilt, have been, or
  are dead. The runs \<open>lost_run\<close> and \<open>replaced_run\<close> show that each race loses a wake-up.\<close>

theorem recovering_pool_wakes_callers:
  assumes "pool_model P permit fut qi qc qr qt ji jc jr jt cfg queue_sz n"
    and "spared_reach P cfg queue_sz n p" and "\<And>p'. \<not> pool_own_step P p p'"
  shows "\<forall>c \<in> set (ps_callers p). call_over (ca_pc c)"
  using pool_model.spared_stuck_calls [OF assms] by blast

theorem recovering_pool_wakes_callers_witness:
  "\<exists>p. spared_reach demo_pool lost_cfg 1 1 p
    \<and> map ca_pc (ps_callers p) = [CallReturned True (Inl InternalError), CallReturned True (Inr 10)]
    \<and> StorePredictor Rebuilding \<in> set (pool_log (ps_workers p))
    \<and> (\<forall>c \<in> set (ps_callers p). call_over (ca_pc c))"
proof (rule run_spared_cases [OF rebuilt_run_view])
  fix p assume p: "spared_reach demo_pool lost_cfg 1 1 p"
    "(pool_view p, list_ex (\<lambda>e. e = StorePredictor Rebuilding) (pool_log (ps_workers p))) =
      (([CallReturned True (Inl InternalError), CallReturned True (Inr 10)],
        \<lparr>fs_permit = True, fs_futures = []\<rparr>,
        [(AwaitFirst, InfWaiting (), empty_fifo, empty_fifo, new_worker_state lost_cfg)]), True)"
  have stuck: "\<not> pool_own_step demo_pool p p'" for p'
    by (rule idle_view_stuck [OF conjunct1 [OF p(2) [unfolded prod.inject]]])
      (auto simp: demo_pool_parts nth_Cons' split: if_splits)
  from recovering_pool_wakes_callers [OF lost_pool_model p(1) stuck] p show ?thesis
    by (auto simp: pool_view_def list_ex_iff)
qed

text \<open>C38: A wake-up is lost when the \<open>Dead\<close> of a panic guard is replaced. There is a run of a pool of one
  worker in which a metrics hook panics in the accumulator at the end of a rebuild: nothing can move any
  more, both threads of the only worker have ended and its queue is closed, but its status still admits
  requests and a caller of \<open>predict\<close> is asleep for ever, where its documentation promises
  \<open>NoAvailableWorkersError\<close> to callers already waiting when the last worker stops.\<close>

theorem replaced_dead_loses_wakeup:
  "\<exists>p. pool_reach hooked_pool lost_cfg 1 1 p \<and> (\<forall>p'. \<not> pool_own_step hooked_pool p p')
    \<and> map ca_pc (ps_callers p) = replicate 3 (CallReturned True (Inl InternalError)) @ [CallAsleep]
    \<and> map (\<lambda>w. (ac_pc (wk_acc w), it_pc (wk_inf w), can_accept_secondary (sh_state (wk_shared w)),
        ff_rx (sh_requests (wk_shared w)))) (ps_workers p) = [(AccExited, InfReleased, Some True, False)]"
proof (rule run_pool_cases [OF replaced_run_view])
  fix p assume p: "pool_reach hooked_pool lost_cfg 1 1 p"
    "(map ca_pc (ps_callers p), ps_signal p, map (\<lambda>w. (ac_pc (wk_acc w), it_pc (wk_inf w),
       can_accept_secondary (sh_state (wk_shared w)), ff_rx (sh_requests (wk_shared w)))) (ps_workers p)) =
     (replicate 3 (CallReturned True (Inl InternalError)) @ [CallAsleep],
      \<lparr>fs_permit = False, fs_futures = [(3, Armed)]\<rparr>, [(AccExited, InfReleased, Some True, False)])"
  have calls: "ca_pc (ps_callers p ! k) = map ca_pc (ps_callers p) ! k" if "k < length (ps_callers p)" for k
    using that by simp
  have "\<not> pool_own_step hooked_pool p p'" for p'
  proof (rule stuck_poolI)
    show "\<not> own_step (pe_worker hooked_pool i) (ps_workers p ! i) t" if "i < length (ps_workers p)" for i t
      using p(2) that by (intro ended_worker_stuck) (auto simp: map_eq_Cons_conv)
    fix k assume k: "k < length (ps_callers p)"
    have "length (map ca_pc (ps_callers p)) = 4" using p(2) by simp
    then have "k < 4" using k by simp
    with calls [OF k] p(2) show "call_step hooked_pool k p = None"
      by (auto simp: call_step_def hooked_pool_parts fifo_notify_ops numeral_eq_Suc less_Suc_eq)
  qed
  moreover have "map ca_pc (ps_callers p) = replicate 3 (CallReturned True (Inl InternalError)) @ [CallAsleep]"
    "map (\<lambda>w. (ac_pc (wk_acc w), it_pc (wk_inf w), can_accept_secondary (sh_state (wk_shared w)),
        ff_rx (sh_requests (wk_shared w)))) (ps_workers p) = [(AccExited, InfReleased, Some True, False)]"
    using p(2) by (simp_all only: prod.inject)
  ultimately show ?thesis
    using p(1) by (intro exI [of _ p] conjI allI)
qed

end
