(* ===== verification/Status_Writer.thy ===== *)
theory Status_Writer
  imports Worker_Properties
begin

text \<open>
  Why \<open>set_worker_state\<close> may be a load and a store. \<open>WorkerStateInner::set_worker_state\<close> loads the status
  word, replaces its status bits and stores the result, without a compare-and-swap; its comment rests
  this on the accumulator being the only writer of the word. Here the two accesses are taken apart, and
  everything the inference thread, the callers and the handles can do in between, in any number of
  steps, is shown to make no difference.
\<close>

text \<open>The steps of everybody but the accumulator.\<close>

inductive other_step ::
  "('i, 's, 'p, 'f, 'q, 'j, 'o, 'e) worker_env \<Rightarrow> ('i, 's, 'p, 'f, 'q, 'j, 'o, 'e) worker_sys
     \<Rightarrow> ('i, 's, 'p, 'f, 'q, 'j, 'o, 'e) worker_sys \<Rightarrow> bool"
  for W :: "('i, 's, 'p, 'f, 'q, 'j, 'o, 'e) worker_env" where
  inference: "inf_step (we_args W) (we_jobs W) d (wk_inf s, wk_shared s) = Some (th, sh)
    \<Longrightarrow> other_step W s (s\<lparr>wk_inf := th, wk_shared := sh\<rparr>)"
| pushing: "\<not> mp_senders_gone (we_requests W) (sh_requests (wk_shared s))
    \<Longrightarrow> mp_try_send (we_requests W) msg (sh_requests (wk_shared s)) = (SendOk, q)
    \<Longrightarrow> other_step W s (s\<lparr>wk_shared := (wk_shared s)\<lparr>sh_requests := q\<rparr>, wk_accepted := wk_accepted s @ [msg]\<rparr>)"
| dropping: "other_step W s (s\<lparr>wk_shared := (wk_shared s)
      \<lparr>sh_requests := mp_drop_senders (we_requests W) (sh_requests (wk_shared s))\<rparr>\<rparr>)"

lemma worker_step_parts:
  "worker_step W s t \<longleftrightarrow> other_step W s t
     \<or> (\<exists>c ac sh. acc_step (we_worker W) (we_imax W) (we_requests W) (we_jobs W) c (wk_acc s, wk_shared s) = Some (ac, sh)
          \<and> t = s\<lparr>wk_acc := ac, wk_shared := sh\<rparr>)"
  (is "_ \<longleftrightarrow> _ \<or> ?acc")
proof (rule iffI)
  assume "worker_step W s t"
  then show "other_step W s t \<or> ?acc"
    by (cases rule: worker_step.cases) (blast intro: other_step.intros)+
next
  assume "other_step W s t \<or> ?acc"
  then show "worker_step W s t"
  proof
    assume "other_step W s t"
    then show ?thesis
      by (cases rule: other_step.cases) (blast intro: worker_step.intros)+
  next
    assume ?acc
    then show ?thesis
      by (blast intro: worker_step.intros)
  qed
qed

text \<open>The two accesses of \<open>set_worker_state\<close>.\<close>

definition load_word :: "worker_state \<Rightarrow> u64" where
  "load_word w = ws_word w"

definition store_status :: "worker_status \<Rightarrow> u64 \<Rightarrow> worker_state \<Rightarrow> worker_state" where
  "store_status st current w = w\<lparr>ws_word := pack_status st current\<rparr>"

lemma word_kept [simp]: "ws_word (set_predictor_state st w) = ws_word w"
  by (simp add: set_predictor_state_def)

lemma inf_step_word:
  assumes "inf_step args J d (th, sh) = Some (th', sh')"
  shows "ws_word (sh_state sh') = ws_word (sh_state sh)"
  using assms
  by (cases d; cases "it_pc th")
    (auto simp: inf_start_def inf_receive_def inf_predict_def inf_handle_panic_def inf_rebuild_def
      inf_drop_def spawn_failed_def inf_die_def flush_batch_def panic_guard_drop_def Let_def
      split: prod.splits recv_outcome.splits option.splits unwind.splits sum.splits if_splits)

lemma other_step_word: "other_step W s t \<Longrightarrow> ws_word (sh_state (wk_shared t)) = ws_word (sh_state (wk_shared s))"
  by (cases rule: other_step.cases) (auto dest: inf_step_word)

lemma other_steps_word:
  "(other_step W)\<^sup>*\<^sup>* s t \<Longrightarrow> ws_word (sh_state (wk_shared t)) = ws_word (sh_state (wk_shared s))"
  by (induction rule: rtranclp_induct) (auto dest: other_step_word)

text \<open>C31: The load and the store of \<open>set_worker_state\<close> act as one. For every worker, whatever its user code
  does: when the accumulator loads the status word in one state, and the inference thread, the callers
  and the handles take any number of steps before it stores, the stored state is the one an atomic
  update in the last state gives.\<close>

theorem load_store_is_atomic:
  assumes "(other_step W)\<^sup>*\<^sup>* s t"
  shows "store_status st (load_word (sh_state (wk_shared s))) (sh_state (wk_shared t)) =
    set_worker_state st (sh_state (wk_shared t))"
  by (simp add: store_status_def load_word_def set_worker_state_def other_steps_word [OF assms])

text \<open>The witness: a batch runs, the accumulator loads the word, the predictor panics and the inference
  thread stores \<open>Rebuilding\<close> in the byte beside it, the accumulator stores.\<close>

definition crash_during_store ::
  "(nat, nat, unit, nat, (nat \<times> nat) fifo, (nat, nat) worker_buffer fifo, nat, nat) worker_sys" where
  "crash_during_store = demo_start\<lparr>wk_inf := (wk_inf demo_start)\<lparr>it_pc := InfPredicting () [0] [1]\<rparr>\<rparr>"

lemma crash_happens:
  obtains t where "other_step demo_env crash_during_store t"
    "get_predictor_state (sh_state (wk_shared t)) = Some Rebuilding"
    "sh_state (wk_shared crash_during_store) = new_worker_state demo_cfg"
proof -
  obtain th sh where "inf_step (we_args demo_env) (we_jobs demo_env) (InfPredict DURATION_ZERO)
      (wk_inf crash_during_store, wk_shared crash_during_store) = Some (th, sh)"
    and "get_predictor_state (sh_state sh) = Some Rebuilding"
    by (simp add: crash_during_store_def run_defs Let_def store_predictor_def set_predictor_state_def)
  show thesis
  proof (rule that)
    show "other_step demo_env crash_during_store (crash_during_store\<lparr>wk_inf := th, wk_shared := sh\<rparr>)"
      by (rule other_step.inference) fact
    show "get_predictor_state (sh_state (wk_shared (crash_during_store\<lparr>wk_inf := th, wk_shared := sh\<rparr>))) = Some Rebuilding"
      by simp fact
    show "sh_state (wk_shared crash_during_store) = new_worker_state demo_cfg"
      by (simp add: crash_during_store_def demo_start_def new_worker_sys_def)
  qed
qed

theorem load_store_is_atomic_witness:
  "\<exists>t. other_step demo_env crash_during_store t \<and> get_predictor_state (sh_state (wk_shared t)) = Some Rebuilding
    \<and> store_status Exit (load_word (new_worker_state demo_cfg)) (sh_state (wk_shared t)) =
        set_worker_state Exit (sh_state (wk_shared t))"
proof -
  obtain t where t: "other_step demo_env crash_during_store t"
    "get_predictor_state (sh_state (wk_shared t)) = Some Rebuilding"
    "sh_state (wk_shared crash_during_store) = new_worker_state demo_cfg"
    by (rule crash_happens)
  with load_store_is_atomic [OF r_into_rtranclp [of "other_step demo_env", OF t(1)], of Exit] show ?thesis
    by auto
qed

end
