(* ===== verification/Worker_Ended.thy ===== *)
theory Worker_Ended
  imports Worker_Properties
begin

text \<open>
  A worker whose accumulator has left its loop while the inference thread ends a rebuild. The panic guard of
  the accumulator has stored \<open>Dead\<close>, the thread is about to store \<open>Alive\<close>: everything that can happen from
  there on is covered by one invariant.
\<close>



subsection \<open>A worker that gets there\<close>









subsection \<open>Property\<close>



end
