(* ===== verification/Router_Safety.thy ===== *)
theory Router_Safety
  imports Worker_Pool
begin

text \<open>
  One call of \<open>try_push\<close> while other threads change the workers between any two of its accesses: the request
  goes into exactly one queue or comes back, and the search does not miss a worker that stays as it is.
\<close>

subsection \<open>The steps of the search\<close>

lemma pass1_cases:
  assumes "route_pass1 Q env sz (Suc n) sink msg s = Some (r, s')"
  obtains (Skip) s1 where "can_accept_primary_at env sink s = Some (False, s1)"
      "route_pass1 Q env sz n ((sink + 1) mod sz) msg s1 = Some (r, s')"
    | (Done) s1 where "can_accept_primary_at env sink s = Some (True, s1)"
      "push_at Q env sink msg s1 = Some (Success, s')" "r = Inl ()"
    | (Back) s1 s2 q m where "can_accept_primary_at env sink s = Some (True, s1)" "push_at Q env sink msg s1 = Some (q, s2)"
      "q = QueueFull m \<or> q = QueueClosed m" "route_pass1 Q env sz n ((sink + 1) mod sz) m s2 = Some (r, s')"
proof -
  obtain ok s1 where test: "can_accept_primary_at env sink s = Some (ok, s1)"
    using assms by (auto simp: bind_eq_Some_conv)
  show thesis
  proof (cases ok)
    case False
    with test assms show thesis by (intro Skip) simp_all
  next
    case True
    then obtain q s2 where "push_at Q env sink msg s1 = Some (q, s2)"
      using test assms by (auto simp: bind_eq_Some_conv)
    with True test assms show thesis
      by (cases q) (auto intro: Done Back)
  qed
qed

lemma pass2_cases:
  assumes "route_pass2 Q env sz (Suc n) sink live rb msg s = Some (r, s')"
  obtains (Skip) s1 rb' s2 where "can_accept_secondary_at env sink s = Some (False, s1)"
      "is_rebuilding_at env sink s1 = Some (rb', s2)"
      "route_pass2 Q env sz n ((sink + 1) mod sz) live (rb \<or> rb') msg s2 = Some (r, s')"
    | (Done) s1 where "can_accept_secondary_at env sink s = Some (True, s1)"
      "push_at Q env sink msg s1 = Some (Success, s')" "r = Inl ()"
    | (Full) s1 s2 m where "can_accept_secondary_at env sink s = Some (True, s1)"
      "push_at Q env sink msg s1 = Some (QueueFull m, s2)"
      "route_pass2 Q env sz n ((sink + 1) mod sz) True rb m s2 = Some (r, s')"
    | (Closed) s1 s2 m where "can_accept_secondary_at env sink s = Some (True, s1)"
      "push_at Q env sink msg s1 = Some (QueueClosed m, s2)"
      "route_pass2 Q env sz n ((sink + 1) mod sz) live rb m s2 = Some (r, s')"
proof -
  obtain ok s1 where test: "can_accept_secondary_at env sink s = Some (ok, s1)"
    using assms by (auto simp: bind_eq_Some_conv)
  show thesis
  proof (cases ok)
    case False
    then obtain rb' s2 where "is_rebuilding_at env sink s1 = Some (rb', s2)"
      using test assms by (auto simp: bind_eq_Some_conv)
    with False test assms show thesis by (intro Skip) simp_all
  next
    case True
    then obtain q s2 where "push_at Q env sink msg s1 = Some (q, s2)"
      using test assms by (auto simp: bind_eq_Some_conv)
    with True test assms show thesis
      by (cases q) (auto intro: Done Full Closed)
  qed
qed

lemma single_cases:
  assumes "try_push_single Q env msg s = Some (r, s')"
  obtains (Skip) s1 rb where "can_accept_secondary_at env 0 s = Some (False, s1)" "is_rebuilding_at env 0 s1 = Some (rb, s')"
      "r = Inl (msg, if rb then QueueFullError else NoAvailableWorkersError)"
    | (Done) s1 where "can_accept_secondary_at env 0 s = Some (True, s1)" "push_at Q env 0 msg s1 = Some (Success, s')" "r = Inr ()"
    | (Full) s1 m where "can_accept_secondary_at env 0 s = Some (True, s1)" "push_at Q env 0 msg s1 = Some (QueueFull m, s')"
        "r = Inl (m, QueueFullError)"
    | (Closed) s1 m where "can_accept_secondary_at env 0 s = Some (True, s1)" "push_at Q env 0 msg s1 = Some (QueueClosed m, s')"
        "r = Inl (m, NoAvailableWorkersError)"
proof -
  obtain ok s1 where test: "can_accept_secondary_at env 0 s = Some (ok, s1)"
    using assms by (auto simp: try_push_single_def bind_eq_Some_conv)
  show thesis
  proof (cases ok)
    case False
    then obtain rb s2 where "is_rebuilding_at env 0 s1 = Some (rb, s2)"
      using test assms by (auto simp: try_push_single_def bind_eq_Some_conv)
    with False test assms show thesis by (intro Skip) (auto simp: try_push_single_def)
  next
    case True
    then obtain q s2 where "push_at Q env 0 msg s1 = Some (q, s2)"
      using test assms by (auto simp: try_push_single_def bind_eq_Some_conv)
    with True test assms show thesis
      by (cases q) (auto simp: try_push_single_def intro: Done Full Closed)
  qed
qed

lemma ring_cases:
  assumes "try_push_ring Q env sz sink msg s = Some (r, s')"
  obtains (First) "route_pass1 Q env sz sz sink msg s = Some (Inl (), s')" "r = Inr ()"
    | (Second) s1 m sink' where "route_pass1 Q env sz sz sink msg s = Some (Inr (m, sink'), s1)"
        "route_pass2 Q env sz sz sink' False False m s1 = Some (Inl (), s')" "r = Inr ()"
    | (Neither) s1 m sink' m' live rb where "route_pass1 Q env sz sz sink msg s = Some (Inr (m, sink'), s1)"
        "route_pass2 Q env sz sz sink' False False m s1 = Some (Inr (m', live, rb), s')"
        "r = Inl (m', if live \<or> rb then QueueFullError else NoAvailableWorkersError)"
proof -
  obtain r1 s1 where one: "route_pass1 Q env sz sz sink msg s = Some (r1, s1)"
    using assms by (auto simp: try_push_ring_def bind_eq_Some_conv)
  show thesis
  proof (cases r1)
    case (Inl u)
    with one assms show thesis by (intro First) (simp_all add: try_push_ring_def)
  next
    case (Inr x)
    obtain m sink' where x: "x = (m, sink')" by fastforce
    with Inr one assms obtain r2 s2 where two: "route_pass2 Q env sz sz sink' False False m s1 = Some (r2, s2)"
      by (auto simp: try_push_ring_def bind_eq_Some_conv)
    with Inr x one assms show thesis
      by (cases r2) (auto simp: try_push_ring_def intro: Second Neither)
  qed
qed

text \<open>The two ways through \<open>try_push\<close>.\<close>

lemma try_push_result:
  assumes "try_push Q env p msg = Some (r, p')"
  obtains (Single) s where "is_single_worker p" "try_push_single Q env msg (0, wp_pool p) = Some (r, s)" "wp_pool p' = snd s"
    | (Ring) s where "\<not> is_single_worker p" "wp_pool p \<noteq> []" "wp_pool p' = snd s"
        "try_push_ring Q env (length (wp_pool p)) (unat (wp_start p) mod length (wp_pool p)) msg (0, wp_pool p) = Some (r, s)"
  using assms by (auto simp: try_push_def get_and_increment_def pool_len_def bind_eq_Some_conv split: if_splits)

subsection \<open>The request is in one queue or handed back\<close>

text \<open>How often a message is queued at one worker, and in the pool.\<close>

definition queued :: "('q \<Rightarrow> 'm list) \<Rightarrow> 'm \<Rightarrow> 'q worker_ref \<Rightarrow> nat" where
  "queued items msg w = count (mset (items (wr_queue w))) msg"

definition queued_in :: "('q \<Rightarrow> 'm list) \<Rightarrow> 'm \<Rightarrow> 'q worker_ref list \<Rightarrow> nat" where
  "queued_in items msg ws = sum_list (map (queued items msg) ws)"

lemma queued_in_update:
  assumes "i < length ws" and "queued items msg w = queued items msg (ws ! i) + k"
  shows "queued_in items msg (ws[i := w]) = queued_in items msg ws + k"
  using assms by (induction ws arbitrary: i) (auto simp: queued_in_def nth_Cons split: nat.splits)

text \<open>The other threads do not put this message into a queue, nor take it out of one.\<close>

definition env_keeps :: "('q \<Rightarrow> 'm list) \<Rightarrow> 'm \<Rightarrow> 'q interference \<Rightarrow> bool" where
  "env_keeps items msg env \<longleftrightarrow> (\<forall>k w. queued items msg (env k w) = queued items msg w)"

lemma access_queued:
  assumes "env_keeps items msg env" and "access env i s = Some (w, s')"
  shows "queued_in items msg (snd s') = queued_in items msg (snd s)"
    and "i < length (snd s') \<and> snd s' ! i = w"
  using assms queued_in_update [of i "snd s" items msg w 0]
  by (auto simp: access_def env_keeps_def Let_def split: prod.splits if_splits)

lemma snapshot_at_queued:
  assumes "env_keeps items msg env" and "snapshot_at env i s = Some (snap, s')"
  shows "queued_in items msg (snd s') = queued_in items msg (snd s)"
  using assms by (auto simp: snapshot_at_def bind_eq_Some_conv dest!: access_queued(1) [OF assms(1)])

lemma tests_queued:
  assumes "env_keeps items msg env"
  shows "can_accept_primary_at env i s = Some (b, s') \<Longrightarrow> queued_in items msg (snd s') = queued_in items msg (snd s)"
    and "can_accept_secondary_at env i s = Some (b, s') \<Longrightarrow> queued_in items msg (snd s') = queued_in items msg (snd s)"
    and "is_rebuilding_at env i s = Some (b, s') \<Longrightarrow> queued_in items msg (snd s') = queued_in items msg (snd s)"
  by (auto simp: can_accept_primary_at_def can_accept_secondary_at_def is_rebuilding_at_def bind_eq_Some_conv
      dest!: snapshot_at_queued [OF assms])

context mpsc_channel
begin

lemma push_at_queued:
  assumes "env_keeps items msg env" and "push_at Q env i msg s = Some (r, s')"
  shows "r = Success \<and> queued_in items msg (snd s') = queued_in items msg (snd s) + 1
    \<or> (r = QueueFull msg \<or> r = QueueClosed msg) \<and> queued_in items msg (snd s') = queued_in items msg (snd s)"
proof -
  obtain snap s1 where 1: "snapshot_at env i s = Some (snap, s1)"
    using assms(2) by (auto simp: push_at_def bind_eq_Some_conv)
  note same = snapshot_at_queued [OF assms(1) 1]
  show ?thesis
  proof (cases "snap_worker_status snap = Exit \<or> snap_worker_status snap = Crashed")
    case True
    with assms(2) 1 same show ?thesis by (auto simp: push_at_def)
  next
    case False
    then obtain w s2 where 2: "access env i s1 = Some (w, s2)"
      using assms(2) 1 by (auto simp: push_at_def bind_eq_Some_conv)
    note acc = access_queued [OF assms(1) 2]
    have upd: "queued_in items msg ((snd s2)[i := w\<lparr>wr_queue := q\<rparr>]) =
        queued_in items msg (snd s2) + (if items q = items (wr_queue w) @ [msg] then 1 else 0)"
      if "items q = items (wr_queue w) @ [msg] \<or> q = wr_queue w" for q
      using that acc(2) by (intro queued_in_update) (auto simp: queued_def)
    have "(snd s2)[i := w] = snd s2"
      using acc(2) by (metis list_update_id)
    then show ?thesis
      using assms(2) False 1 2 same acc(1) upd
      by (cases rule: try_send_cases [of "wr_queue w" msg]) (auto simp: push_at_def Let_def)
  qed
qed

lemma pass1_queued:
  assumes "env_keeps items msg env" and "route_pass1 Q env sz n sink msg s = Some (r, s')"
  shows "r = Inl () \<and> queued_in items msg (snd s') = queued_in items msg (snd s) + 1
    \<or> (\<exists>k. r = Inr (msg, k)) \<and> queued_in items msg (snd s') = queued_in items msg (snd s)"
  using assms(2)
proof (induction n arbitrary: sink s)
  case (Suc n)
  note test = tests_queued(1) [OF assms(1)] and push = push_at_queued [OF assms(1)]
  from Suc.prems show ?case
  proof (cases rule: pass1_cases)
    case (Skip s1)
    with Suc.IH [OF Skip(2)] test [OF Skip(1)] show ?thesis by simp
  next
    case (Done s1)
    with test [OF Done(1)] push [OF Done(2)] show ?thesis by simp
  next
    case (Back s1 s2 q m)
    with push [OF Back(2)] have "m = msg" "queued_in items msg (snd s2) = queued_in items msg (snd s1)" by auto
    with Suc.IH [of _ s2] Back(4) test [OF Back(1)] show ?thesis by simp
  qed
qed auto

lemma pass2_queued:
  assumes "env_keeps items msg env" and "route_pass2 Q env sz n sink live rb msg s = Some (r, s')"
  shows "r = Inl () \<and> queued_in items msg (snd s') = queued_in items msg (snd s) + 1
    \<or> (\<exists>l b. r = Inr (msg, l, b)) \<and> queued_in items msg (snd s') = queued_in items msg (snd s)"
  using assms(2)
proof (induction n arbitrary: sink live rb s)
  case (Suc n)
  note test = tests_queued(2,3) [OF assms(1)] and push = push_at_queued [OF assms(1)]
  from Suc.prems show ?case
  proof (cases rule: pass2_cases)
    case (Skip s1 rb' s2)
    with Suc.IH [OF Skip(3)] test(1) [OF Skip(1)] test(2) [OF Skip(2)] show ?thesis by simp
  next
    case (Done s1)
    with test(1) [OF Done(1)] push [OF Done(2)] show ?thesis by simp
  next
    case (Full s1 s2 m)
    with push [OF Full(2)] have "m = msg" "queued_in items msg (snd s2) = queued_in items msg (snd s1)" by auto
    with Suc.IH [of _ True rb s2] Full(3) test(1) [OF Full(1)] show ?thesis by simp
  next
    case (Closed s1 s2 m)
    with push [OF Closed(2)] have "m = msg" "queued_in items msg (snd s2) = queued_in items msg (snd s1)" by auto
    with Suc.IH [of _ live rb s2] Closed(3) test(1) [OF Closed(1)] show ?thesis by simp
  qed
qed auto

lemma try_push_queued:
  assumes "env_keeps items msg env" and "try_push Q env p msg = Some (r, p')"
  shows "queued_in items msg (wp_pool p') = queued_in items msg (wp_pool p) + (if r = Inr () then 1 else 0)"
  using assms(2)
proof (cases rule: try_push_result)
  case (Single s)
  note test = tests_queued(2,3) [OF assms(1)] and push = push_at_queued [OF assms(1)]
  from Single(2) show ?thesis
  proof (cases rule: single_cases)
    case (Skip s1 rb)
    with Single(3) test(1) [OF Skip(1)] test(2) [OF Skip(2)] show ?thesis by simp
  next
    case (Done s1)
    with Single(3) test(1) [OF Done(1)] push [OF Done(2)] show ?thesis by simp
  next
    case (Full s1 m)
    with Single(3) test(1) [OF Full(1)] push [OF Full(2)] show ?thesis by simp
  next
    case (Closed s1 m)
    with Single(3) test(1) [OF Closed(1)] push [OF Closed(2)] show ?thesis by simp
  qed
next
  case (Ring s)
  from Ring(4) show ?thesis
  proof (cases rule: ring_cases)
    case First
    with Ring(3) pass1_queued [OF assms(1) First(1)] show ?thesis by simp
  next
    case (Second s1 m sink')
    with pass1_queued [OF assms(1) Second(1)] have m: "m = msg" by simp
    from Second Ring(3) pass1_queued [OF assms(1) Second(1)] pass2_queued [OF assms(1) Second(2) [unfolded m]]
    show ?thesis by simp
  next
    case (Neither s1 m sink' m' live rb)
    with pass1_queued [OF assms(1) Neither(1)] have m: "m = msg" by simp
    from Neither Ring(3) pass1_queued [OF assms(1) Neither(1)] pass2_queued [OF assms(1) Neither(2) [unfolded m]]
    show ?thesis by simp
  qed
qed

end

subsection \<open>Workers that stay as they are\<close>

text \<open>The interference never takes a worker out of the set \<open>I\<close>, nor makes its status byte invalid.\<close>

definition env_within :: "('q worker_ref \<Rightarrow> bool) \<Rightarrow> 'q interference \<Rightarrow> bool" where
  "env_within I env \<longleftrightarrow> (\<forall>k w. I w \<longrightarrow> I (env k w)) \<and> (\<forall>w. I w \<longrightarrow> ws_ok (wr_state w))"

definition stays :: "('q worker_ref \<Rightarrow> bool) \<Rightarrow> nat \<Rightarrow> 'q shared \<Rightarrow> bool" where
  "stays I i s \<longleftrightarrow> i < length (snd s) \<and> I (snd s ! i)"

lemma access_stays:
  assumes "env_within I env" and "access env j s = Some (w, s')" and "stays I i s"
  shows "stays I i s'" and "j = i \<Longrightarrow> I w" and "length (snd s') = length (snd s)" and "j < length (snd s) \<and> snd s' ! j = w"
  using assms by (auto simp: access_def stays_def env_within_def nth_list_update Let_def split: prod.splits if_splits)

lemma snapshot_at_stays:
  assumes "env_within I env" and "snapshot_at env j s = Some (snap, s')" and "stays I i s"
  shows "stays I i s'" and "length (snd s') = length (snd s)"
    and "j = i \<Longrightarrow> \<exists>v w. I v \<and> I w \<and> snap_worker_status snap = the_status (wr_state v)
      \<and> snap_predictor_status snap = the_predictor (wr_state w)"
proof -
  obtain v s1 w s2 where 1: "access env j s = Some (v, s1)" and 2: "access env j s1 = Some (w, s2)"
    and snap: "read_snapshot (ws_word (wr_state v)) (ws_predictor (wr_state w)) = Some snap" "s' = s2"
    using assms(2) by (auto simp: snapshot_at_def bind_eq_Some_conv)
  note a1 = access_stays [OF assms(1) 1 assms(3)]
  note a2 = access_stays [OF assms(1) 2 a1(1)]
  from a1(3) a2(1,3) snap(2) show "stays I i s'" "length (snd s') = length (snd s)" by simp_all
  assume "j = i"
  with a1(2) a2(2) have in_I: "I v" "I w" by simp_all
  then have "ws_ok (wr_state w)" using assms(1) by (simp add: env_within_def)
  from get_predictor_state_eq [OF this] snap(1)
  have "snap_worker_status snap = the_status (wr_state v) \<and> snap_predictor_status snap = the_predictor (wr_state w)"
    by (auto simp: read_snapshot_def worker_status_of_word get_predictor_state_def the_status_def)
  with in_I show "\<exists>v w. I v \<and> I w \<and> snap_worker_status snap = the_status (wr_state v)
      \<and> snap_predictor_status snap = the_predictor (wr_state w)" by blast
qed

lemma secondary_ok_iff:
  "secondary_ok w \<longleftrightarrow> the_status (wr_state w) \<notin> {Exit, Crashed} \<and> the_predictor (wr_state w) = Alive"
  "rebuilding w \<longleftrightarrow> the_predictor (wr_state w) = Rebuilding"
  by (auto simp: secondary_ok_def rebuilding_def accepts_secondary_def snap_rebuilding_def the_snapshot_def)

text \<open>What the two tests say of such a worker.\<close>

lemma tests_stay:
  assumes "env_within I env" and "stays I i s"
  shows "can_accept_primary_at env j s = Some (b, s') \<Longrightarrow> stays I i s' \<and> length (snd s') = length (snd s)
      \<and> (j = i \<longrightarrow> (\<forall>w. I w \<longrightarrow> the_predictor (wr_state w) \<noteq> Alive) \<longrightarrow> \<not> b)"
    and "can_accept_secondary_at env j s = Some (b, s') \<Longrightarrow> stays I i s' \<and> length (snd s') = length (snd s)
      \<and> (j = i \<longrightarrow> (\<forall>w. I w \<longrightarrow> secondary_ok w) \<longrightarrow> b)
      \<and> (j = i \<longrightarrow> (\<forall>w. I w \<longrightarrow> the_predictor (wr_state w) \<noteq> Alive) \<longrightarrow> \<not> b)"
    and "is_rebuilding_at env j s = Some (b, s') \<Longrightarrow> stays I i s' \<and> length (snd s') = length (snd s)
      \<and> (j = i \<longrightarrow> (\<forall>w. I w \<longrightarrow> rebuilding w) \<longrightarrow> b)
      \<and> (j = i \<longrightarrow> (\<forall>w. I w \<longrightarrow> \<not> rebuilding w) \<longrightarrow> \<not> b)"
  using assms(2)
  by (auto simp: can_accept_primary_at_def can_accept_secondary_at_def is_rebuilding_at_def bind_eq_Some_conv
      accepts_primary_def accepts_secondary_def snap_rebuilding_def secondary_ok_iff
      dest: snapshot_at_stays [OF assms(1)])

context mpsc_channel
begin

text \<open>A push that fails leaves every worker as it found it, and a push to a healthy worker with room succeeds.\<close>

lemma push_at_stays:
  assumes "env_within I env" and "push_at Q env j msg s = Some (r, s')" and "stays I i s"
  shows "r \<noteq> Success \<Longrightarrow> stays I i s' \<and> length (snd s') = length (snd s)"
    and "r = Success \<or> r = QueueFull msg \<or> r = QueueClosed msg"
    and "j = i \<Longrightarrow> \<forall>w. I w \<longrightarrow> secondary_ok w \<and> rx (wr_queue w) \<Longrightarrow> r = Success \<or> r = QueueFull msg"
    and "j = i \<Longrightarrow> \<forall>w. I w \<longrightarrow> secondary_ok w \<and> room w \<Longrightarrow> r = Success"
proof -
  obtain snap s1 where 1: "snapshot_at env j s = Some (snap, s1)"
    using assms(2) by (auto simp: push_at_def bind_eq_Some_conv)
  note st = snapshot_at_stays [OF assms(1) 1 assms(3)]
  have all: "(r \<noteq> Success \<longrightarrow> stays I i s' \<and> length (snd s') = length (snd s))
    \<and> (r = Success \<or> r = QueueFull msg \<or> r = QueueClosed msg)
    \<and> (j = i \<longrightarrow> (\<forall>w. I w \<longrightarrow> secondary_ok w \<and> rx (wr_queue w)) \<longrightarrow> r = Success \<or> r = QueueFull msg)
    \<and> (j = i \<longrightarrow> (\<forall>w. I w \<longrightarrow> secondary_ok w \<and> room w) \<longrightarrow> r = Success)"
  proof (cases "snap_worker_status snap = Exit \<or> snap_worker_status snap = Crashed")
    case True
    then have "\<not> (\<forall>w. I w \<longrightarrow> secondary_ok w)" if "j = i"
      using st(3) [OF that] by (auto simp: secondary_ok_iff)
    with True assms(2) 1 st(1,2) show ?thesis by (auto simp: push_at_def)
  next
    case False
    then obtain w s2 where 2: "access env j s1 = Some (w, s2)"
      using assms(2) 1 by (auto simp: push_at_def bind_eq_Some_conv)
    note acc = access_stays [OF assms(1) 2 st(1)]
    have "(snd s2)[j := w] = snd s2"
      using acc(4) by (metis list_update_id)
    then show ?thesis
      using assms(2) False 1 2 acc st(2)
      by (cases rule: try_send_cases [of "wr_queue w" msg])
        (auto simp: push_at_def stays_def has_room_def Let_def)
  qed
  then show "r \<noteq> Success \<Longrightarrow> stays I i s' \<and> length (snd s') = length (snd s)"
    and "r = Success \<or> r = QueueFull msg \<or> r = QueueClosed msg"
    and "j = i \<Longrightarrow> \<forall>w. I w \<longrightarrow> secondary_ok w \<and> rx (wr_queue w) \<Longrightarrow> r = Success \<or> r = QueueFull msg"
    and "j = i \<Longrightarrow> \<forall>w. I w \<longrightarrow> secondary_ok w \<and> room w \<Longrightarrow> r = Success"
    by blast+
qed

lemma pass1_stays:
  assumes "env_within I env" and "route_pass1 Q env sz n sink msg s = Some (r, s')" and "stays I i s" and "sink < sz"
  shows "r = Inl () \<or> (\<exists>k < sz. r = Inr (msg, k)) \<and> stays I i s'"
  using assms(2-4)
proof (induction n arbitrary: sink s)
  case (Suc n)
  note IH = Suc.IH [OF _ _ next_sink [OF Suc.prems(3)]]
  from Suc.prems(1) show ?case
  proof (cases rule: pass1_cases)
    case (Skip s1)
    with IH tests_stay(1) [OF assms(1) Suc.prems(2) Skip(1)] show ?thesis by simp
  next
    case (Back s1 s2 q m)
    have st: "stays I i s1" using tests_stay(1) [OF assms(1) Suc.prems(2) Back(1)] by simp
    from push_at_stays(1,2) [OF assms(1) Back(2) st] Back(3) have "m = msg" "stays I i s2" by auto
    with IH Back(4) show ?thesis by simp
  qed simp
qed auto

text \<open>What the flags of pass two then tell of a worker it has passed.\<close>

definition flags_right :: "('q worker_ref \<Rightarrow> bool) \<Rightarrow> bool \<Rightarrow> bool \<Rightarrow> bool" where
  "flags_right I live rb \<longleftrightarrow> ((\<forall>w. I w \<longrightarrow> secondary_ok w \<and> rx (wr_queue w)) \<longrightarrow> live)
     \<and> ((\<forall>w. I w \<longrightarrow> rebuilding w) \<longrightarrow> rb) \<and> \<not> (\<forall>w. I w \<longrightarrow> secondary_ok w \<and> room w)"

lemma flags_more: "flags_right I live rb \<Longrightarrow> (live \<longrightarrow> l) \<Longrightarrow> (rb \<longrightarrow> b) \<Longrightarrow> flags_right I l b"
  by (auto simp: flags_right_def)

definition passed :: "('q worker_ref \<Rightarrow> bool) \<Rightarrow> 'm \<Rightarrow> bool \<Rightarrow> bool \<Rightarrow> bool \<Rightarrow> unit + 'm \<times> bool \<times> bool \<Rightarrow> bool" where
  "passed I msg seen live rb r \<longleftrightarrow> r = Inl () \<or> (\<exists>l b. r = Inr (msg, l, b) \<and> (live \<longrightarrow> l) \<and> (rb \<longrightarrow> b)
     \<and> (seen \<longrightarrow> flags_right I l b))"

lemma passed_step:
  assumes "passed I msg later live' rb' r" and "live \<longrightarrow> live'" and "rb \<longrightarrow> rb'" and "now \<longrightarrow> flags_right I live' rb'"
  shows "passed I msg (now \<or> later) live rb r"
  using assms(1) unfolding passed_def
proof (elim disjE exE conjE)
  fix l b assume r: "r = Inr (msg, l, b)" "live' \<longrightarrow> l" "rb' \<longrightarrow> b" "later \<longrightarrow> flags_right I l b"
  have "flags_right I l b" if now
    using assms(4) that r(2,3) flags_more by blast
  with r assms(2,3) show "r = Inl () \<or> (\<exists>l b. r = Inr (msg, l, b) \<and> (live \<longrightarrow> l) \<and> (rb \<longrightarrow> b)
     \<and> (now \<or> later \<longrightarrow> flags_right I l b))" by blast
qed simp

lemma pass2_stays:
  assumes "env_within I env" and "route_pass2 Q env sz n sink live rb msg s = Some (r, s')" and "stays I i s"
  shows "passed I msg (i \<in> set (ring sz n sink)) live rb r"
  using assms(2,3)
proof (induction n arbitrary: sink live rb s)
  case 0
  then show ?case by (auto simp: passed_def)
next
  case (Suc n)
  have in_I: "\<exists>w. I w" using Suc.prems(2) by (auto simp: stays_def)
  have ring: "i \<in> set (ring sz (Suc n) sink) \<longleftrightarrow> sink = i \<or> i \<in> set (ring sz n ((sink + 1) mod sz))" by auto
  from Suc.prems(1) show ?case
    unfolding ring
  proof (cases rule: pass2_cases)
    case (Skip s1 rb' s2)
    note t1 = tests_stay(2) [OF assms(1) Suc.prems(2) Skip(1)]
    note t2 = tests_stay(3) [OF assms(1) conjunct1 [OF t1] Skip(2)]
    have "sink = i \<longrightarrow> flags_right I live (rb \<or> rb')"
      using t1 t2 by (auto simp: flags_right_def)
    from passed_step [OF Suc.IH [OF Skip(3) conjunct1 [OF t2]] _ _ this]
    show "passed I msg (sink = i \<or> i \<in> set (ring sz n ((sink + 1) mod sz))) live rb r" by simp
  next
    case (Done s1)
    then show "passed I msg (sink = i \<or> i \<in> set (ring sz n ((sink + 1) mod sz))) live rb r"
      by (simp add: passed_def)
  next
    case (Full s1 s2 m)
    note t = tests_stay(2) [OF assms(1) Suc.prems(2) Full(1)]
    note p = push_at_stays [OF assms(1) Full(2) conjunct1 [OF t]]
    have m: "m = msg" and st2: "stays I i s2" using p(1,2) by auto
    have "sink = i \<longrightarrow> flags_right I True rb"
      using p(4) t in_I by (fastforce simp: flags_right_def secondary_ok_iff)
    from passed_step [OF Suc.IH [OF Full(3) [unfolded m] st2] _ _ this]
    show "passed I msg (sink = i \<or> i \<in> set (ring sz n ((sink + 1) mod sz))) live rb r" by simp
  next
    case (Closed s1 s2 m)
    note t = tests_stay(2) [OF assms(1) Suc.prems(2) Closed(1)]
    note p = push_at_stays [OF assms(1) Closed(2) conjunct1 [OF t]]
    have m: "m = msg" and st2: "stays I i s2" using p(1,2) by auto
    have "sink = i \<longrightarrow> flags_right I live rb"
      using p(3,4) t in_I by (fastforce simp: flags_right_def secondary_ok_iff)
    from passed_step [OF Suc.IH [OF Closed(3) [unfolded m] st2] _ _ this]
    show "passed I msg (sink = i \<or> i \<in> set (ring sz n ((sink + 1) mod sz))) live rb r" by simp
  qed
qed

text \<open>So an error comes with flags that are right about every worker that stayed as it was.\<close>

lemma single_stays:
  assumes "env_within I env" and "try_push_single Q env msg s = Some (r, s')" and "stays I 0 s"
  shows "r = Inr () \<or> (\<exists>m l b. r = Inl (m, if l \<or> b then QueueFullError else NoAvailableWorkersError) \<and> flags_right I l b)"
proof -
  have in_I: "\<exists>w. I w" using assms(3) by (auto simp: stays_def)
  from assms(2) show ?thesis
  proof (cases rule: single_cases)
    case (Skip s1 rb)
    note t1 = tests_stay(2) [OF assms(1,3) Skip(1)]
    note t2 = tests_stay(3) [OF assms(1) conjunct1 [OF t1] Skip(2)]
    have "flags_right I False rb" using t1 t2 by (auto simp: flags_right_def)
    with Skip(3) show ?thesis by (intro disjI2 exI [of _ msg] exI [of _ False] exI [of _ rb]) simp
  next
    case (Full s1 m)
    note t = tests_stay(2) [OF assms(1,3) Full(1)]
    note p = push_at_stays [OF assms(1) Full(2) conjunct1 [OF t]]
    have "flags_right I True False"
      using p(4) t in_I by (fastforce simp: flags_right_def secondary_ok_iff)
    with Full(3) show ?thesis by (intro disjI2 exI [of _ m] exI [of _ True] exI [of _ False]) simp
  next
    case (Closed s1 m)
    note t = tests_stay(2) [OF assms(1,3) Closed(1)]
    note p = push_at_stays [OF assms(1) Closed(2) conjunct1 [OF t]]
    have "flags_right I False False"
      using p(3,4) t in_I by (fastforce simp: flags_right_def secondary_ok_iff)
    with Closed(3) show ?thesis by (intro disjI2 exI [of _ m] exI [of _ False] exI [of _ False]) simp
  qed simp
qed

lemma try_push_stays:
  assumes "env_within I env" and "try_push Q env p msg = Some (r, p')" and "i < length (wp_pool p)" and "I (wp_pool p ! i)"
  shows "r = Inr () \<or> (\<exists>m l b. r = Inl (m, if l \<or> b then QueueFullError else NoAvailableWorkersError) \<and> flags_right I l b)"
  using assms(2)
proof (cases rule: try_push_result)
  case (Single s)
  with assms(3) have "i = 0" by (simp add: is_single_worker_def pool_len_def)
  with assms(3,4) have "stays I 0 (0, wp_pool p)" by (simp add: stays_def)
  from single_stays [OF assms(1) Single(2) this] show ?thesis .
next
  case (Ring s)
  let ?n = "length (wp_pool p)"
  have st: "stays I i (0, wp_pool p)" and sink: "unat (wp_start p) mod ?n < ?n"
    using assms(3,4) by (auto simp: stays_def intro: mod_less_divisor)
  from Ring(4) show ?thesis
  proof (cases rule: ring_cases)
    case (Neither s1 m sink' m' live rb)
    from pass1_stays [OF assms(1) Neither(1) st sink] have one: "sink' < ?n" "stays I i s1" by auto
    from pass2_stays [OF assms(1) Neither(2) one(2)] set_full_ring [OF one(1)] assms(3)
    have "flags_right I live rb" by (auto simp: passed_def)
    with Neither(3) show ?thesis by blast
  qed simp_all
qed

text \<open>And if every predictor stays dead, no worker takes the request.\<close>

definition all_stay :: "('q worker_ref \<Rightarrow> bool) \<Rightarrow> 'q shared \<Rightarrow> bool" where
  "all_stay I s \<longleftrightarrow> (\<forall>i < length (snd s). stays I i s)"

lemma tests_dead:
  assumes "env_within I env" and "all_stay I s" and "\<forall>w. I w \<longrightarrow> the_predictor (wr_state w) = Dead" and "j < length (snd s)"
  shows "can_accept_primary_at env j s = Some (b, s') \<Longrightarrow> \<not> b \<and> all_stay I s' \<and> length (snd s') = length (snd s)"
    and "can_accept_secondary_at env j s = Some (b, s') \<Longrightarrow> \<not> b \<and> all_stay I s' \<and> length (snd s') = length (snd s)"
    and "is_rebuilding_at env j s = Some (b, s') \<Longrightarrow> \<not> b \<and> all_stay I s' \<and> length (snd s') = length (snd s)"
proof -
  have st: "stays I i s" if "i < length (snd s)" for i using assms(2) that by (simp add: all_stay_def)
  have dead: "\<forall>w. I w \<longrightarrow> the_predictor (wr_state w) \<noteq> Alive" "\<forall>w. I w \<longrightarrow> \<not> rebuilding w"
    using assms(3) by (auto simp: secondary_ok_iff)
  show "can_accept_primary_at env j s = Some (b, s') \<Longrightarrow> \<not> b \<and> all_stay I s' \<and> length (snd s') = length (snd s)"
    using tests_stay(1) [OF assms(1) st] st [OF assms(4)] dead(1) assms(4) unfolding all_stay_def by metis
  show "can_accept_secondary_at env j s = Some (b, s') \<Longrightarrow> \<not> b \<and> all_stay I s' \<and> length (snd s') = length (snd s)"
    using tests_stay(2) [OF assms(1) st] st [OF assms(4)] dead(1) assms(4) unfolding all_stay_def by metis
  show "is_rebuilding_at env j s = Some (b, s') \<Longrightarrow> \<not> b \<and> all_stay I s' \<and> length (snd s') = length (snd s)"
    using tests_stay(3) [OF assms(1) st] st [OF assms(4)] dead(2) assms(4) unfolding all_stay_def by metis
qed

lemma pass1_dead:
  assumes "env_within I env" and "\<forall>w. I w \<longrightarrow> the_predictor (wr_state w) = Dead"
    and "route_pass1 Q env sz n sink msg s = Some (r, s')" and "all_stay I s" and "sink < sz" and "length (snd s) = sz"
  shows "(\<exists>k < sz. r = Inr (msg, k)) \<and> all_stay I s' \<and> length (snd s') = sz"
  using assms(3-6)
proof (induction n arbitrary: sink s)
  case (Suc n)
  note IH = Suc.IH [OF _ _ next_sink [OF Suc.prems(3)]]
  have j: "sink < length (snd s)" using Suc.prems(3,4) by simp
  note t = tests_dead(1) [OF assms(1) Suc.prems(2) assms(2) j]
  from Suc.prems(1) show ?case
  proof (cases rule: pass1_cases)
    case (Skip s1)
    with IH t [OF Skip(1)] Suc.prems(4) show ?thesis by simp
  qed (use t in blast)+
qed auto

lemma pass2_dead:
  assumes "env_within I env" and "\<forall>w. I w \<longrightarrow> the_predictor (wr_state w) = Dead"
    and "route_pass2 Q env sz n sink live rb msg s = Some (r, s')" and "all_stay I s" and "sink < sz" and "length (snd s) = sz"
  shows "r = Inr (msg, live, rb)"
  using assms(3-6)
proof (induction n arbitrary: sink s)
  case (Suc n)
  have j: "sink < length (snd s)" using Suc.prems(3,4) by simp
  note t1 = tests_dead(2) [OF assms(1) Suc.prems(2) assms(2) j]
  from Suc.prems(1) show ?case
  proof (cases rule: pass2_cases)
    case (Skip s1 rb' s2)
    have s1: "all_stay I s1" "sink < length (snd s1)" "length (snd s1) = sz"
      using t1 [OF Skip(1)] j Suc.prems(4) by simp_all
    note t2 = tests_dead(3) [OF assms(1) s1(1) assms(2) s1(2) Skip(2)]
    with Suc.IH [OF _ _ next_sink [OF Suc.prems(3)], of s2] Skip(3) s1(3) show ?thesis by simp
  qed (use t1 in blast)+
qed auto

lemma try_push_dead:
  assumes "env_within I env" and "\<forall>w. I w \<longrightarrow> the_predictor (wr_state w) = Dead"
    and "try_push Q env p msg = Some (r, p')" and "\<forall>w \<in> set (wp_pool p). I w"
  shows "r = Inl (msg, NoAvailableWorkersError)"
  using assms(3)
proof (cases rule: try_push_result)
  case (Single s)
  then have n: "0 < length (snd (0 :: nat, wp_pool p))" by (simp add: is_single_worker_def pool_len_def)
  have st: "all_stay I (0, wp_pool p)" using assms(4) by (simp add: all_stay_def stays_def)
  note t1 = tests_dead(2) [OF assms(1) st assms(2) n]
  from Single(2) show ?thesis
  proof (cases rule: single_cases)
    case (Skip s1 rb)
    have s1: "all_stay I s1" "0 < length (snd s1)" using t1 [OF Skip(1)] n by simp_all
    from tests_dead(3) [OF assms(1) s1(1) assms(2) s1(2) Skip(2)] Skip(3) show ?thesis by simp
  qed (use t1 in blast)+
next
  case (Ring s)
  let ?n = "length (wp_pool p)"
  have st: "all_stay I (0, wp_pool p)" "length (snd (0 :: nat, wp_pool p)) = ?n" and sink: "unat (wp_start p) mod ?n < ?n"
    using assms(4) Ring(2) by (auto simp: all_stay_def stays_def intro: mod_less_divisor)
  note one = pass1_dead [OF assms(1,2) _ st(1) sink st(2)]
  from Ring(4) show ?thesis
  proof (cases rule: ring_cases)
    case First
    with one [OF First(1)] show ?thesis by simp
  next
    case (Second s1 m sink')
    from one [OF Second(1)] have "all_stay I s1" "sink' < ?n" "length (snd s1) = ?n" by auto
    from pass2_dead [OF assms(1,2) Second(2) this] show ?thesis by simp
  next
    case (Neither s1 m sink' m' live rb)
    from one [OF Neither(1)] have s1: "all_stay I s1" "sink' < ?n" "length (snd s1) = ?n" and m: "m = msg" by auto
    from pass2_dead [OF assms(1,2) Neither(2) s1] Neither(3) m show ?thesis by simp
  qed
qed

end

subsection \<open>Properties\<close>

text \<open>C20: Routing is safe under any interference: whatever the workers' own threads and other
  callers do between the router's atomic loads and sends (any change of status words, predictor
  states and queues that stores only valid predictor codes), \<open>try_push\<close> on a non-empty pool never
  panics, keeps the pool's size, and either accepts the request or hands the same request back with
  \<open>QueueFullError\<close> or \<open>NoAvailableWorkersError\<close>, no other error. If nobody else puts this request into a queue or
  takes it out of one before the call returns, then the queues of the pool hold it exactly once more than before
  if it was accepted, and as often as before if it was handed back.\<close>

theorem try_push_never_loses_request:
  fixes msg :: 'm
  assumes "mpsc_channel Q items cap rx tx" and "env_ok env"
    and "pool_ok (wp_pool p)" and "wp_pool p \<noteq> []"
  shows "\<exists>(r :: ('m, 'e) try_push_result) p'. try_push Q env p msg = Some (r, p') \<and> length (wp_pool p') = length (wp_pool p)
    \<and> (r = Inr () \<or> r = Inl (msg, QueueFullError) \<or> r = Inl (msg, NoAvailableWorkersError))
    \<and> (env_keeps items msg env \<longrightarrow>
        queued_in items msg (wp_pool p') = queued_in items msg (wp_pool p) + (if r = Inr () then 1 else 0))"
proof -
  obtain r :: "('m, 'e) try_push_result" and p' where "try_push Q env p msg = Some (r, p')"
    "length (wp_pool p') = length (wp_pool p)"
    "r = Inr () \<or> r = Inl (msg, QueueFullError) \<or> r = Inl (msg, NoAvailableWorkersError)"
    using mpsc_channel.try_push_safe [OF assms, of msg] by blast
  with mpsc_channel.try_push_queued [OF assms(1)] show ?thesis by blast
qed

theorem try_push_never_loses_request_witness:
  "\<exists>(r :: (nat, 'e) try_push_result) p'. try_push fifo_mpsc (\<lambda>k w. if k = 2 then w\<lparr>wr_state := set_dead (wr_state w)\<rparr> else w)
      \<lparr>wp_pool = [demo_worker Alive [], demo_worker Rebuilding []], wp_start = 0\<rparr> 9 = Some (r, p')
    \<and> queued_in ff_items 9 (wp_pool p') = (if r = Inr () then 1 else 0)
    \<and> (r = Inr () \<or> r = Inl (9, QueueFullError) \<or> r = Inl (9, NoAvailableWorkersError))"
proof -
  let ?env = "\<lambda>k w :: nat fifo worker_ref. if k = (2 :: nat) then w\<lparr>wr_state := set_dead (wr_state w)\<rparr> else w"
  let ?p = "\<lparr>wp_pool = [demo_worker Alive [], demo_worker Rebuilding []], wp_start = 0\<rparr>"
  have env: "env_ok ?env" "env_keeps ff_items 9 ?env"
    by (auto simp: env_ok_def set_dead_def env_keeps_def queued_def)
  have none: "queued_in ff_items 9 (wp_pool ?p) = 0"
    by (simp add: queued_in_def queued_def demo_worker_def)
  have ok: "pool_ok (wp_pool ?p)" "wp_pool ?p \<noteq> []"
    by (simp_all add: pool_ok_def status_simps)
  from try_push_never_loses_request [OF fifo.mpsc_channel_axioms env(1) ok, of 9] obtain r :: "(nat, 'e) try_push_result" and p' where
    "try_push fifo_mpsc ?env ?p 9 = Some (r, p')" "r = Inr () \<or> r = Inl (9, QueueFullError) \<or> r = Inl (9, NoAvailableWorkersError)"
    "queued_in ff_items 9 (wp_pool p') = queued_in ff_items 9 (wp_pool ?p) + (if r = Inr () then 1 else 0)"
    using env(2) by blast
  with none show ?thesis
    by (intro exI [of _ r] exI [of _ p']) simp
qed

text \<open>C14: The search is right about workers that do not change under it. Let other threads change the workers
  in any way between the accesses of the router, except that one worker keeps a property \<open>I\<close>. If \<open>I\<close> says that it is
  healthy and has room, \<open>try_push\<close> accepts the request, whatever became of the other workers. If \<open>I\<close> says that it
  is healthy, or that it is being rebuilt, the answer is not \<open>NoAvailableWorkersError\<close>. And if all workers keep
  a property that says that their predictors are dead, it is this answer. (A worker that goes from being rebuilt to
  being healthy during the call keeps neither, and can be missed: \<open>rebuild_finishing_during_try_push\<close>.)\<close>

theorem try_push_finds_stable_worker:
  fixes msg :: 'm
  assumes "mpsc_channel Q items cap rx tx" and "env_ok env" and "pool_ok (wp_pool p)"
    and "i < length (wp_pool p)" and "I (wp_pool p ! i)" and "\<And>k w. I w \<Longrightarrow> I (env k w)"
  shows "\<exists>(r :: ('m, 'e) try_push_result) p'. try_push Q env p msg = Some (r, p')
    \<and> ((\<forall>w. I w \<longrightarrow> secondary_ok w \<and> has_room items cap rx w) \<longrightarrow> r = Inr ())
    \<and> ((\<forall>w. I w \<longrightarrow> secondary_ok w \<and> rx (wr_queue w)) \<or> (\<forall>w. I w \<longrightarrow> rebuilding w) \<longrightarrow>
        r \<noteq> Inl (msg, NoAvailableWorkersError))
    \<and> ((\<forall>w \<in> set (wp_pool p). I w) \<and> (\<forall>w. I w \<longrightarrow> the_predictor (wr_state w) = Dead) \<longrightarrow>
        r = Inl (msg, NoAvailableWorkersError))"
proof -
  let ?I = "\<lambda>w. I w \<and> ws_ok (wr_state w)"
  have env: "env_within ?I env"
    using assms(2,6) by (auto simp: env_within_def env_ok_def)
  have ne: "wp_pool p \<noteq> []" using assms(4) by auto
  obtain r :: "('m, 'e) try_push_result" and p' where push: "try_push Q env p msg = Some (r, p')"
    and r: "r = Inr () \<or> r = Inl (msg, QueueFullError) \<or> r = Inl (msg, NoAvailableWorkersError)"
    using mpsc_channel.try_push_safe [OF assms(1-3) ne, of msg] by blast
  have "?I (wp_pool p ! i)" using assms(3-5) by (simp add: pool_okD)
  note flags = mpsc_channel.try_push_stays [OF assms(1) env push assms(4) this]
  have "r = Inl (msg, NoAvailableWorkersError)"
    if "\<forall>w \<in> set (wp_pool p). I w" "\<forall>w. I w \<longrightarrow> the_predictor (wr_state w) = Dead"
    using mpsc_channel.try_push_dead [OF assms(1) env _ push] that assms(3) by (simp add: pool_ok_def)
  moreover have "r = Inr ()" if "\<forall>w. I w \<longrightarrow> secondary_ok w \<and> has_room items cap rx w"
    using flags that by (auto simp: mpsc_channel.flags_right_def [OF assms(1)])
  moreover have "r \<noteq> Inl (msg, NoAvailableWorkersError)"
    if "(\<forall>w. I w \<longrightarrow> secondary_ok w \<and> rx (wr_queue w)) \<or> (\<forall>w. I w \<longrightarrow> rebuilding w)"
    using flags that by (auto simp: mpsc_channel.flags_right_def [OF assms(1)])
  ultimately show ?thesis
    using push by blast
qed

text \<open>Between any two accesses of the router some worker other than the second one dies.\<close>

theorem try_push_finds_stable_worker_witness:
  "\<exists>p'. try_push fifo_mpsc (\<lambda>k w. if w = demo_worker Alive [5] then w else w\<lparr>wr_state := set_dead (wr_state w)\<rparr>)
      \<lparr>wp_pool = [demo_worker Alive [], demo_worker Alive [5]], wp_start = 0\<rparr> 9 = Some (Inr (), p')"
proof -
  let ?env = "\<lambda>k :: nat. \<lambda>w. if w = demo_worker Alive [5] then w else w\<lparr>wr_state := set_dead (wr_state w)\<rparr>"
  let ?p = "\<lparr>wp_pool = [demo_worker Alive [], demo_worker Alive [5]], wp_start = 0\<rparr>"
  have env: "env_ok ?env" by (auto simp: env_ok_def set_dead_def)
  have ok: "pool_ok (wp_pool ?p)" by (simp add: pool_ok_def status_simps)
  have one: "1 < length (wp_pool ?p)" "wp_pool ?p ! 1 = demo_worker Alive [5]" by simp_all
  have room: "secondary_ok (demo_worker Alive [5]) \<and> has_room ff_items ff_cap ff_rx (demo_worker Alive [5])"
    by (simp add: status_simps)
  from try_push_finds_stable_worker [OF fifo.mpsc_channel_axioms env ok one(1), of "\<lambda>w. w = demo_worker Alive [5]", OF one(2)] room
  show ?thesis by auto
qed

end
