(* ===== verification/Spec2Isabelle.thy ===== *)
theory Spec2Isabelle
  imports Server_Main Pool_Service Worker_Order Pool_Recovery Status_Writer Worker_Ended Router_Safety
begin

text \<open>
  \<^bold>\<open>batchinf: a verification library.\<close>

  batchinf is a Rust library that collects single inference requests into batches. A caller holds a
  \<open>Batchinf\<close> handle and calls \<open>predict\<close> or one of its variants; a router picks one of up to 255
  workers and pushes the request, with a oneshot sender for the reply, into the worker's bounded
  request channel. Every worker has two halves. Its accumulator, a tokio task, fills a batch until
  it is full or a timer fires, and hands it over a channel of depth one to its inference thread, which
  calls the user's \<open>predict_batch\<close>, sends each result to its caller, and after a panic drops the
  predictor and builds a new one with a retry loop. The halves of a worker and the router share a
  packed atomic word (accumulator status and batch length) and an atomic byte (predictor status).
  \<open>get_batcher\<close> starts everything and waits for every worker's first build; a \<open>ShutdownWaiter\<close>
  resolves when every inference thread has ended.

  This library models the whole of that path, component by component, as executable definitions,
  and proves what each component promises and what the components guarantee together.

  \<^bold>\<open>Theories, in the order they build on each other\<close> (files under \<open>src/src/\<close>):

  \<^item> \<open>Prelude\<close>: machine integers, \<open>Vec::swap_remove\<close>, results of code that may unwind, and the locale
    \<open>invariant_system\<close> (an invariant of a step relation holds in every reachable state).
  \<^item> \<open>Durations\<close>: the part of \<open>std::time\<close> the code uses, with saturation at its documented maximum.
  \<^item> \<open>Errors\<close> (\<open>error/mod.rs\<close>): \<open>BatchinfError\<close>, \<open>StartupError\<close>, the conversion of a dropped sender.
  \<^item> \<open>Observability\<close> (\<open>observability/mod.rs\<close>): the metrics hooks and their emitters; the effects of a
    worker (replies, dropped senders, notifications, metrics, predictors built and dropped).
  \<^item> \<open>Config\<close> (\<open>config/mod.rs\<close>): the configuration and its builder.
  \<^item> \<open>Channels\<close>: the contract of \<open>tokio::sync::mpsc\<close> as the locale \<open>mpsc_channel\<close>.
  \<^item> \<open>Worker_State\<close> (\<open>state/mod.rs\<close>): the status word and byte, the snapshot, the admission tests; the
    locale \<open>status_register\<close> is the contract of a status and a counter that the word implements.
  \<^item> \<open>Worker_Pool\<close> (\<open>state/mod.rs\<close> \<open>WorkerRef\<close>, \<open>pool/mod.rs\<close>): the router, access by access.
  \<^item> \<open>Router_Safety\<close>: one call of the router while other threads change the workers: the request is in one
    queue or handed back, and workers that stay as they are are not missed.
  \<^item> \<open>Worker_Buffer\<close> (\<open>worker/buffer.rs\<close>), \<open>Dispatch\<close> (\<open>worker/dispatch.rs\<close>), \<open>Predictor_Build\<close>
    (\<open>worker/inf.rs\<close>, the retry loop).
  \<^item> \<open>Worker_Shared\<close>: what a worker's halves share, and the panic guard (\<open>worker/panic_guard.rs\<close>).
  \<^item> \<open>Inference\<close> (\<open>worker/inf.rs\<close>) and \<open>Accumulator\<close> (\<open>worker/mod.rs\<close>): each half as a machine whose
    program points lie between two accesses to shared state; \<open>inf_step\<close> and \<open>acc_step\<close> execute the code
    from one point to the next.
  \<^item> \<open>Worker_System\<close>: both halves and the callers interleaved, as the step relation \<open>worker_step\<close>.
  \<^item> \<open>Worker_Invariant\<close>, \<open>Worker_Liveness\<close>: the invariant and the measure of a worker, proved in the
    locale \<open>worker_model\<close> over two channels that meet their contract.
  \<^item> \<open>Worker_Properties\<close>: what follows for the callers of a worker, with runs on concrete inputs.
  \<^item> \<open>Router_Steps\<close> (\<open>pool/mod.rs\<close>): the router as a machine, one access of a worker after the other,
    proved equal to \<open>try_push\<close> of \<open>Worker_Pool\<close>.
  \<^item> \<open>Notify\<close>: the contract of \<open>tokio::sync::Notify\<close> as the locale \<open>notify_signal\<close>.
  \<^item> \<open>Pool_System\<close> (\<open>batcher/mod.rs\<close>, \<open>setup/mod.rs\<close>): every worker, the router, the signal and any number
    of calls of \<open>predict\<close> and \<open>try_predict\<close> interleaved, as the step relation \<open>pool_step\<close>.
  \<^item> \<open>Pool_Invariant\<close>: the invariant of a pool, in the locale \<open>pool_model\<close> over workers and a signal that
    meet their contracts; each worker of a pool is a reachable worker of \<open>Worker_System\<close>.
  \<^item> \<open>Pool_Runs\<close>, \<open>Pool_Properties\<close>: schedules of a pool, and what its users get.
  \<^item> \<open>Worker_Health\<close>, \<open>Pool_Wakeup\<close>: workers that serve undisturbed, and the absence of lost wake-ups.
  \<^item> \<open>Worker_Recovery\<close>, \<open>Route_Recovery\<close>, \<open>Pool_Recovery\<close>: the same through panics, rebuilds and failed
    rebuilds, by rely and guarantee between the workers and the calls.
  \<^item> \<open>Pool_Termination\<close>: a measure of a whole pool that each of its own steps decreases.
  \<^item> \<open>Batcher\<close> (\<open>batcher/mod.rs\<close>), \<open>Setup\<close> (\<open>setup/mod.rs\<close>), \<open>Shutdown\<close> (\<open>shutdown/mod.rs\<close>).
  \<^item> \<open>Pool_Sound\<close>: pools whose user code neither panics nor returns a wrong number of results.
  \<^item> \<open>Pool_Setup\<close> (\<open>predictor/mod.rs\<close>, \<open>setup/mod.rs\<close>, \<open>make_runner\<close> and \<open>run_worker\<close> of
    \<open>worker/mod.rs\<close>): from a configuration and the user's predictor to a pool that serves.
  \<^item> \<open>Pool_Startup\<close> (\<open>setup/mod.rs\<close>, and the acks of \<open>worker/inf.rs\<close>): \<open>get_batcher\<close> while it waits, as
    the step relation \<open>boot_step\<close> over builds, acks, its turns, its timer and everything a pool does.
    \<open>Startup_Invariant\<close> proves, in the locale \<open>boot_model\<close>, that it refines \<open>Pool_System\<close> and how long it
    takes; \<open>Startup_Properties\<close> states what \<open>get_batcher\<close> promises, with a start-up that fails.
  \<^item> \<open>Pool_Service\<close>: the abstract service a pool is to its callers, and the refinement.
  \<^item> \<open>Status_Writer\<close>: the load and the store of \<open>set_worker_state\<close> taken apart; no step but the
    accumulator's writes the status word, so the two act as one.
  \<^item> \<open>Worker_Ended\<close>: a worker whose accumulator has left its loop when the inference thread ends a rebuild.
  \<^item> \<open>Worker_Order\<close>: the line of the requests a worker holds, in the order in which they came.
  \<^item> \<open>Http_Bench\<close> (\<open>http-bench/src/main.rs\<close>): the settings of the benchmark server, its stand-in
    predictor, and its batched and unbatched endpoints, on a pool of this library.
  \<^item> \<open>Clip_Example\<close>, \<open>Clip_Service\<close> (\<open>example/src/main.rs\<close>): pixel layout, \<open>predict_batch\<close> and the
    embedding handler of the example service, and what it answers on a pool of this library.
  \<^item> \<open>Server_Main\<close> (both \<open>main.rs\<close>): the two programs from their first line to their return, as the step
    relation \<open>main_step\<close> over \<open>boot_step\<close>.

  \<^bold>\<open>What the lemmas show.\<close>

  \<^item> Routing: \<open>try_push\<close> never panics, queues a request once or hands it back, whatever the other
    threads do between its accesses; it is right about workers that stay healthy, in a rebuild or dead;
    undisturbed, it follows the two passes of the design; start indices rotate.
  \<^item> The status word refines the pair of a status and a length; snapshots follow the batch exactly.
  \<^item> A worker, under every interleaving of its threads and callers and every behaviour of the user's
    code: an output a caller gets was computed for its own input; every error has its reason;
    requests are settled at most once, and all are settled when the threads can move no further,
    which they reach in a bounded number of steps; batches are nonempty and within \<open>batch_size\<close>; at
    most one predictor per worker exists.
  \<^item> A whole pool, for any number of workers and calls, every interleaving and every cancellation: what
    holds of a worker holds in the pool; a call returns the output for its own input or an error with
    its reason; a request is with one worker at most, and a call that reports a routing error was
    never queued; a pool that cannot move has nobody waiting for a reply, and nobody waiting for room
    either, through any panics of predictors and hooks and any rebuilds, unless a drain outlasted a
    rebuild or the end of a rebuild replaced the \<open>Dead\<close> of a panic guard; between two arrivals a pool takes a bounded number of steps to get there.
  \<^item> To its callers a pool is an abstract service that knows only requests and their status: every
    step of a pool is one step of it or none. Within a worker requests keep the order in which they
    came: none is served in a later batch than one that came after it.
  \<^item> A start-up is a run of a pool: no call exists before every worker has acked success; every outcome
    of \<open>get_batcher\<close> has its reason in the calls of the factories, a thread that was not spawned or the
    timer, in terms of the model (\<open>startup_outcome_explained\<close>) and of the configuration and the user's code
    (\<open>get_batcher_follows_config\<close>); without the timer it returns within \<open>pool_budget\<close> and one step for each worker; and a start
    that failed or was dropped leaves no thread and no predictor behind.
  \<^item> With sound user code every call on a pool is answered within \<open>pool_budget\<close> steps, and the answer is
    the output for its own input or an error of its own; every configuration the builder makes starts
    such a pool.
  \<^item> The benchmark server answers a request on its batched endpoint as on its unbatched one; decimal
    settings are read back as they were written; whatever its environment, its \<open>main\<close> returns \<open>Ok\<close> only when every request is over,
    every thread has ended and every predictor is dropped, and it never hangs in \<open>get_batcher\<close> or in
    the wait for the shutdown. The example gives every image the channels-first tensor its model
    expects, and answers each with the embedding at its own place in a batch.
  \<^item> Building a predictor ends within its attempts and its waiting time; the back-off schedule has
    its closed form; the cancellable sleep reacts within a slice of 20 ms.
  \<^item> The handle's methods report the errors their documentation allows, \<open>get_batcher\<close> returns a
    handle only when every worker is serving, and shutdown is reported exactly when every inference
    thread has released its sender and dropped its predictor.
  \<^item> Seven theorems show the code doing something its documentation excludes, six of them by a run: a
    rebuild seen half way by the router, a queued request failed during a rebuild, an ended worker
    shown as alive for ever, a waiter that resolves while a handle lives, a caller that sleeps for ever
    because a drain notified nobody, another that sleeps for ever because the end of a rebuild hid the
    panic of the accumulator, and a notification held by a caller that no longer needs it.

  \<^bold>\<open>Parameters of the model.\<close> Channels are the functions of an \<open>mpsc\<close> record under the contract
  \<open>mpsc_channel\<close>; \<open>fifo_mpsc\<close> meets it and runs the witnesses. The clock is a number of nanoseconds
  with an end \<open>imax\<close>, and every reading is an input of the step that makes it; in the pool, readings
  stay a year away from the end. \<open>Notify\<close>, \<open>oneshot\<close> and metrics are effects in a worker's log. In
  the methods of \<open>Batcher\<close>, when a sleeping caller wakes up and what its receiver yields are inputs; in
  the pool the notifications reach a signal under the contract \<open>notify_signal\<close> (\<open>fifo_notify\<close> meets it
  and runs the witnesses) in the step that makes them, and a receiver yields what the logs hold for
  its sender. Creating and enabling a \<open>Notified\<close> future is one step. The user's factory, \<open>predict_batch\<close> and hooks are functions that may
  return anything or panic; the factory may answer each call differently, and \<open>predict_batch\<close>
  replaces the predictor it is called on. Between two accesses of the router any other thread may
  change the worker: the theorems on routing quantify over this interference. Atomic accesses are
  sequentially consistent in the model. A rebuild is one step, from its first look at the job channel to
  its last: \<open>it_shut\<close> holds what the channel was when it began, and if the channel is closed while it
  goes on, a number says from which look on this is seen. Until its end a rebuild touches nothing shared.
  Arithmetic on f32, the decoding of images, tensors, the model of the example and its download,
  environment variables, the limit on open files and the listener are arguments of the definitions or
  inputs of the steps that use them; \<open>axum::serve\<close> ends well, as documented for a graceful shutdown, when
  no handler runs any more. A clone of the benchmark's device carries its own poison flag.

  \<^bold>\<open>Bounds.\<close> The length field has 62 bits and a batch size is a u32, so lengths never reach the status
  bits (\<open>packed_word_refines_status_pair\<close>, \<open>snapshot_follows_batch\<close>). Retries are a u8 and one attempt is added
  with saturation, so a build makes at most 255 factory calls; \<open>spawn_loop\<close> recurses on the schedule and needs no fuel. The loops of
  \<open>filter_canceled\<close> and of the sleep terminate by a measure. The measure of a worker weighs its
  program points, its queued requests and its queued batches; only a new request increases it. The
  measure of a pool weighs the work of its workers, the attempts its calls have left and the
  notifications not used yet; \<open>pool_budget\<close> bounds it by the sizes of the pool and the number of calls.

  \<^bold>\<open>Not modelled.\<close> Logging and the texts of errors; capacities of vectors and debug assertions on
  them; the compile-time check for zero-sized inputs; a runtime that drops the accumulator task at an
  await point; panics in the user's \<open>Drop\<close> code; HTTP itself (connections, routes, JSON), what the
  process does after \<open>main\<close> has returned, and the throughput benchmark, which measures time and prints it. In the pool a call cannot be dropped between two awaits, as in the
  code, and the handles are dropped together, when no call runs.
\<close>

end
